(* ===== verification/CmxPrelude.thy ===== *)
theory CmxPrelude
  imports Main "HOL-Library.Word" "HOL-Library.Finite_Map"
begin

text \<open>
  Shared vocabulary of the development.

  \<^item> Machine integers: \<open>u8\<close>, \<open>u32\<close>, \<open>u64\<close> are words, so \<open>as u32\<close> and
    \<open>fetch_add\<close> wrap as they do in the program. A \<open>usize\<close> is a \<^typ>\<open>nat\<close> (the
    target is 64-bit); the one place where a \<open>usize\<close> expression can underflow is
    written out with \<open>usize_sub\<close>, which covers both build profiles.
  \<^item> Failure: a panic or undefined behaviour is a value of \<open>fault\<close>, the left side of
    a sum; \<open>rbind\<close> sequences fallible computations.
  \<^item> Containers: \<open>HashMap\<close> and \<open>DashMap\<close> are finite maps (\<open>hmap\<close>), without an order.
  \<^item> A \<open>BTreeMap\<close> is its list of bindings in strictly increasing key order (\<open>btree\<close>).
  \<^item> A Rust string is a \<^typ>\<open>string\<close> with one character per byte of its UTF-8 form;
    \<open>str_bytes\<close> is \<open>as_bytes\<close>, \<open>str_dec\<close> the decimal \<open>Display\<close> of an integer.
  \<^item> Bytes: little-endian encoding and decoding of words, with the round trip.
  \<^item> Byte regions: reading and overwriting a segment of a byte list, and when two such
    accesses do not interfere.
\<close>

unbundle bit_operations_syntax

type_synonym u8 = "8 word"
type_synonym u32 = "32 word"
type_synonym u64 = "64 word"
type_synonym usize = nat
type_synonym bytes = "u8 list"
type_synonym hash16 = "u8 list"
type_synonym ('k, 'v) hmap = "('k, 'v) fmap"

named_theorems fault_simps \<open>unfolding rules of the fault monad\<close>
named_theorems seg_simps \<open>segments of a byte region\<close>

section \<open>Faults\<close>

datatype fault =
    PoolIdMismatch
  | BlockIndexOutOfRange
  | AssertFailed
  | SubtractOverflow
  | IndexOutOfBounds
  | SliceOutOfRange
  | AddOverflow
  | CapacityOverflow
  | OutOfRegion
  | UnwrapFailed
  | AllocAborted

type_synonym 'a res = "fault + 'a"

definition rbind :: "'e + 'a \<Rightarrow> ('a \<Rightarrow> 'e + 'b) \<Rightarrow> 'e + 'b" where
  "rbind m f = (case m of Inl e \<Rightarrow> Inl e | Inr x \<Rightarrow> f x)"

lemma rbind_Inl [simp, fault_simps]: "rbind (Inl e) f = Inl e"
  by (simp add: rbind_def)

lemma rbind_Inr [simp, fault_simps]: "rbind (Inr x) f = f x"
  by (simp add: rbind_def)

lemma rbind_eq_Inr [simp]: "rbind m f = Inr y \<longleftrightarrow> (\<exists>x. m = Inr x \<and> f x = Inr y)"
  by (cases m) auto

lemma rbind_eq_Inl: "rbind m f = Inl e \<longleftrightarrow> m = Inl e \<or> (\<exists>x. m = Inr x \<and> f x = Inl e)"
  by (cases m) auto

lemma rbind_cong [fundef_cong]:
  "m = m' \<Longrightarrow> (\<And>x. m' = Inr x \<Longrightarrow> f x = g x) \<Longrightarrow> rbind m f = rbind m' g"
  by (cases m') auto

text \<open>
  \<open>a - b\<close> on \<open>usize\<close>: with overflow checks (the debug profile) an underflow panics,
  without them (the release profile) it wraps modulo \<open>2 ^ 64\<close>.
\<close>

definition usize_sub :: "bool \<Rightarrow> usize \<Rightarrow> usize \<Rightarrow> usize res" where
  "usize_sub checks a b =
     (if b \<le> a then Inr (a - b)
      else if checks then Inl SubtractOverflow
      else Inr (a + 2 ^ 64 - b))"

lemma usize_sub_ge [simp]: "b \<le> a \<Longrightarrow> usize_sub c a b = Inr (a - b)"
  by (simp add: usize_sub_def)

text \<open>Indexing a \<open>Vec\<close>: out of range is a panic.\<close>

definition vec_get :: "'a list \<Rightarrow> usize \<Rightarrow> 'a res" where
  "vec_get xs i = (if i < length xs then Inr (xs ! i) else Inl IndexOutOfBounds)"

definition vec_set :: "'a list \<Rightarrow> usize \<Rightarrow> 'a \<Rightarrow> ('a list) res" where
  "vec_set xs i x = (if i < length xs then Inr (xs[i := x]) else Inl IndexOutOfBounds)"

lemma vec_get_in [simp]: "i < length xs \<Longrightarrow> vec_get xs i = Inr (xs ! i)"
  by (simp add: vec_get_def)

lemma vec_get_eq_Inr: "vec_get xs i = Inr x \<longleftrightarrow> i < length xs \<and> x = xs ! i"
  by (auto simp: vec_get_def)

lemma vec_set_in [simp]: "i < length xs \<Longrightarrow> vec_set xs i x = Inr (xs[i := x])"
  by (simp add: vec_set_def)

text \<open>\<open>Vec::pop\<close>: the last element and the rest.\<close>

definition vec_pop :: "'a list \<Rightarrow> ('a \<times> 'a list) option" where
  "vec_pop xs = (if xs = [] then None else Some (last xs, butlast xs))"

lemma vec_pop_Nil [simp]: "vec_pop [] = None"
  by (simp add: vec_pop_def)

lemma vec_pop_snoc [simp]: "vec_pop (xs @ [x]) = Some (x, xs)"
  by (simp add: vec_pop_def)

lemma vec_pop_eq_None [simp]: "vec_pop xs = None \<longleftrightarrow> xs = []"
  by (simp add: vec_pop_def)

lemma vec_pop_eq_Some [simp]: "vec_pop xs = Some (x, ys) \<longleftrightarrow> xs = ys @ [x]"
  by (cases xs rule: rev_cases) (auto simp: vec_pop_def)

section \<open>Finite maps as hash maps\<close>

definition hm_len :: "('k, 'v) hmap \<Rightarrow> usize" where
  "hm_len m = fcard (fmdom m)"

lemma hm_len_empty [simp]: "hm_len fmempty = 0"
  by (simp add: hm_len_def)

lemma hm_len_upd: "hm_len (fmupd k v m) = (if k |\<in>| fmdom m then hm_len m else Suc (hm_len m))"
  by (simp add: hm_len_def fcard_finsert_if)

lemma hm_len_eq_card: "hm_len m = card (fmdom' m)"
  by (simp add: hm_len_def fcard.rep_eq fmdom'_alt_def)

lemma hm_len_drop: "hm_len (fmdrop k m) = (if k |\<in>| fmdom m then hm_len m - 1 else hm_len m)"
  by (simp add: hm_len_eq_card fmdom'_alt_def card_Diff_singleton)

section \<open>Sorted binding lists as B-tree maps\<close>

type_synonym ('k, 'v) btree = "('k \<times> 'v) list"

fun bt_insert :: "'k::linorder \<Rightarrow> 'v \<Rightarrow> ('k, 'v) btree \<Rightarrow> ('k, 'v) btree" where
  "bt_insert k v [] = [(k, v)]"
| "bt_insert k v ((k', v') # m) =
     (if k < k' then (k, v) # (k', v') # m
      else if k = k' then (k, v) # m
      else (k', v') # bt_insert k v m)"

definition bt_from :: "'k::linorder \<Rightarrow> ('k, 'v) btree \<Rightarrow> ('k, 'v) btree" where
  "bt_from k m = filter (\<lambda>b. k \<le> fst b) m"

definition bt_retain :: "('k \<Rightarrow> 'v \<Rightarrow> bool) \<Rightarrow> ('k, 'v) btree \<Rightarrow> ('k, 'v) btree" where
  "bt_retain P m = filter (\<lambda>b. P (fst b) (snd b)) m"

definition bt_wf :: "('k::linorder, 'v) btree \<Rightarrow> bool" where
  "bt_wf m \<longleftrightarrow> sorted_wrt (<) (map fst m)"

lemma bt_wf_Nil [simp]: "bt_wf []"
  by (simp add: bt_wf_def)

lemma set_bt_insert: "bt_wf m \<Longrightarrow> set (bt_insert k v m) = insert (k, v) {b \<in> set m. fst b \<noteq> k}"
  by (induction k v m rule: bt_insert.induct) (auto simp: bt_wf_def)

lemma bt_wf_insert [simp]: "bt_wf m \<Longrightarrow> bt_wf (bt_insert k v m)"
proof (induction k v m rule: bt_insert.induct)
  case (2 k v k' v' m)
  then have "set (bt_insert k v m) = insert (k, v) {b \<in> set m. fst b \<noteq> k}"
    by (intro set_bt_insert) (simp add: bt_wf_def)
  then show ?case using 2 by (auto simp: bt_wf_def)
qed (simp add: bt_wf_def)

lemma bt_wf_filter [simp]: "bt_wf m \<Longrightarrow> bt_wf (filter P m)"
  by (induction m) (auto simp: bt_wf_def)

lemma bt_wf_retain [simp]: "bt_wf m \<Longrightarrow> bt_wf (bt_retain P m)"
  by (simp add: bt_retain_def)

lemma bt_wf_distinct: "bt_wf m \<Longrightarrow> distinct (map fst m)"
  by (simp add: bt_wf_def strict_sorted_iff)

section \<open>Strings\<close>

definition str_bytes :: "string \<Rightarrow> bytes" where
  "str_bytes s = map of_char s"

fun str_dec :: "nat \<Rightarrow> string" where
  "str_dec n = (if n < 10 then [char_of (48 + n)] else str_dec (n div 10) @ [char_of (48 + n mod 10)])"

declare str_dec.simps [simp del]

section \<open>Little-endian bytes\<close>

definition le_encode :: "usize \<Rightarrow> 'a::len word \<Rightarrow> bytes" where
  "le_encode n w = map (\<lambda>i. ucast (drop_bit (8 * i) w)) [0..<n]"

fun le_decode :: "bytes \<Rightarrow> 'a::len word" where
  "le_decode [] = 0"
| "le_decode (b # bs) = ucast b OR push_bit 8 (le_decode bs)"

lemma length_le_encode [simp]: "length (le_encode n w) = n"
  by (simp add: le_encode_def)

lemma bit_le_decode:
  "bit (le_decode bs :: 'a::len word) k \<longleftrightarrow>
     k < LENGTH('a) \<and> k div 8 < length bs \<and> bit (bs ! (k div 8)) (k mod 8)"
proof (induction bs arbitrary: k)
  case Nil
  then show ?case by simp
next
  case (Cons b bs)
  show ?case
  proof (cases "k < 8")
    case True
    then show ?thesis by (auto simp: bit_simps)
  next
    case False
    then obtain j where j: "k = 8 + j" by (metis le_Suc_ex not_less)
    show ?thesis
      using Cons.IH [of j] bit_imp_le_length [of b "8 + j"]
      by (auto simp: j bit_simps)
  qed
qed

lemma le_decode_encode:
  assumes "LENGTH('a) = 8 * n"
  shows "le_decode (le_encode n (w :: 'a::len word)) = w"
proof (rule bit_word_eqI)
  fix k
  assume k: "k < LENGTH('a)"
  with assms have "k div 8 < n" by auto
  with k show "bit (le_decode (le_encode n w) :: 'a word) k = bit w k"
    by (simp add: bit_le_decode le_encode_def bit_simps)
qed

lemma le_roundtrip_u32 [simp]: "le_decode (le_encode 4 (w :: u32)) = w"
  by (rule le_decode_encode) simp

lemma le_roundtrip_u64 [simp]: "le_decode (le_encode 8 (w :: u64)) = w"
  by (rule le_decode_encode) simp

definition be_decode :: "bytes \<Rightarrow> 'a::len word" where
  "be_decode bs = le_decode (rev bs)"

section \<open>Segments of a byte region\<close>

text \<open>\<open>seg off n xs\<close> is \<open>xs[off..off+n]\<close>; \<open>seg_write off ys xs\<close> overwrites from \<open>off\<close>.\<close>

definition seg :: "usize \<Rightarrow> usize \<Rightarrow> 'a list \<Rightarrow> 'a list" where
  "seg off n xs = take n (drop off xs)"

definition seg_write :: "usize \<Rightarrow> 'a list \<Rightarrow> 'a list \<Rightarrow> 'a list" where
  "seg_write off ys xs = take off xs @ ys @ drop (off + length ys) xs"

lemma length_seg [simp, seg_simps]: "off + n \<le> length xs \<Longrightarrow> length (seg off n xs) = n"
  by (simp add: seg_def)

lemma length_seg_write [simp, seg_simps]:
  "off + length ys \<le> length xs \<Longrightarrow> length (seg_write off ys xs) = length xs"
  by (simp add: seg_write_def)

lemma seg_seg_write_same [simp, seg_simps]:
  "off \<le> length xs \<Longrightarrow> n = length ys \<Longrightarrow> seg off n (seg_write off ys xs) = ys"
  by (simp add: seg_def seg_write_def)

lemma nth_seg: "i < n \<Longrightarrow> off + n \<le> length xs \<Longrightarrow> seg off n xs ! i = xs ! (off + i)"
  by (simp add: seg_def)

lemma nth_seg_write:
  assumes "off + length ys \<le> length xs" and "i < length xs"
  shows "seg_write off ys xs ! i =
           (if off \<le> i \<and> i < off + length ys then ys ! (i - off) else xs ! i)"
  using assms by (auto simp: seg_write_def nth_append)

lemma seg_seg_write_disjoint:
  assumes "off' + n \<le> off \<or> off + length ys \<le> off'"
    and "off + length ys \<le> length xs" and "off' + n \<le> length xs"
  shows "seg off' n (seg_write off ys xs) = seg off' n xs"
  by (rule nth_equalityI) (use assms in \<open>auto simp: nth_seg nth_seg_write\<close>)

end
