(* ===== verification/MemoryPool.thy ===== *)
theory MemoryPool
  imports CmxPrelude
begin

text \<open>
  The pinned DRAM slab pool of \<^verbatim>\<open>crates/cmx-memory/src/pool.rs\<close>: one mapped region cut
  into fixed-size blocks, handed out through a stack of free block indices.

  The state \<open>memory_pool\<close> has the fields of \<open>MemoryPool\<close>, and \<open>mp_region\<close> for the bytes
  behind \<open>base_ptr\<close>. \<open>mmap\<close> is an argument of \<open>pool_new\<close> (the address it returns or its
  error); the static \<open>NEXT_POOL_ID\<close> is threaded through. Dereferencing outside the
  mapped region, which is undefined behaviour in the source, is the fault
  \<^const>\<open>OutOfRegion\<close>.

  \<open>block_pool\<close> is the contract the block allocator relies on; the interpretation \<open>mp\<close>
  shows that the code keeps it.
\<close>

section \<open>State and operations\<close>

type_synonym io_error = int

datatype pool_error =
    MmapFailed io_error
  | InvalidSize usize usize
  | ZeroBlockSize

record pool_stats =
  ps_total_blocks :: usize
  ps_used_blocks :: usize
  ps_free_blocks :: usize
  ps_total_bytes :: usize
  ps_used_bytes :: usize

record block_handle =
  bh_pool_id :: u32
  bh_block_index :: u32
  bh_offset :: usize
  bh_size :: usize

record memory_pool =
  mp_pool_id :: u32
  mp_base_ptr :: usize
  mp_total_size :: usize
  mp_block_size :: usize
  mp_total_blocks :: usize
  mp_free_list :: "usize list"
  mp_region :: bytes

definition pool_new ::
    "(usize \<Rightarrow> io_error + usize) \<Rightarrow> u32 \<Rightarrow> usize \<Rightarrow> usize \<Rightarrow> (pool_error + memory_pool) \<times> u32" where
  "pool_new mmap next_pool_id total_size block_size =
     (if block_size = 0 then (Inl ZeroBlockSize, next_pool_id)
      else if total_size = 0 \<or> total_size mod block_size \<noteq> 0
        then (Inl (InvalidSize total_size block_size), next_pool_id)
      else
        let total_blocks = total_size div block_size in
        case mmap total_size of
          Inl e \<Rightarrow> (Inl (MmapFailed e), next_pool_id)
        | Inr base_ptr \<Rightarrow>
            (Inr \<lparr>mp_pool_id = next_pool_id,
                  mp_base_ptr = base_ptr,
                  mp_total_size = total_size,
                  mp_block_size = block_size,
                  mp_total_blocks = total_blocks,
                  mp_free_list = [0..<total_blocks],
                  mp_region = replicate total_size 0\<rparr>,
             next_pool_id + 1))"

definition allocate :: "memory_pool \<Rightarrow> (block_handle \<times> memory_pool) option" where
  "allocate p =
     (case vec_pop (mp_free_list p) of
        None \<Rightarrow> None
      | Some (block_index, free) \<Rightarrow>
          let offset = block_index * mp_block_size p in
          Some (\<lparr>bh_pool_id = mp_pool_id p,
                 bh_block_index = of_nat block_index,
                 bh_offset = offset,
                 bh_size = mp_block_size p\<rparr>,
                p\<lparr>mp_free_list := free\<rparr>))"

definition deallocate :: "memory_pool \<Rightarrow> block_handle \<Rightarrow> memory_pool res" where
  "deallocate p h =
     (if bh_pool_id h \<noteq> mp_pool_id p then Inl PoolIdMismatch
      else if \<not> unat (bh_block_index h) < mp_total_blocks p then Inl BlockIndexOutOfRange
      else Inr (p\<lparr>mp_free_list := mp_free_list p @ [unat (bh_block_index h)]\<rparr>))"

definition get_ptr :: "memory_pool \<Rightarrow> block_handle \<Rightarrow> usize res" where
  "get_ptr p h =
     (if bh_pool_id h \<noteq> mp_pool_id p then Inl PoolIdMismatch
      else if bh_offset h > mp_total_size p then Inl OutOfRegion
      else Inr (mp_base_ptr p + bh_offset h))"

definition get_slice :: "memory_pool \<Rightarrow> block_handle \<Rightarrow> bytes res" where
  "get_slice p h =
     rbind (get_ptr p h) (\<lambda>ptr.
       if ptr - mp_base_ptr p + mp_block_size p > length (mp_region p) then Inl OutOfRegion
       else Inr (seg (ptr - mp_base_ptr p) (mp_block_size p) (mp_region p)))"

text \<open>
  A mutable slice is its current bytes and the update of the pool that storing other
  bytes of the same length through the slice performs.
\<close>

definition get_slice_mut :: "memory_pool \<Rightarrow> block_handle \<Rightarrow> (bytes \<times> (bytes \<Rightarrow> memory_pool)) res" where
  "get_slice_mut p h =
     rbind (get_ptr p h) (\<lambda>ptr.
       if ptr - mp_base_ptr p + mp_block_size p > length (mp_region p) then Inl OutOfRegion
       else Inr (seg (ptr - mp_base_ptr p) (mp_block_size p) (mp_region p),
                 \<lambda>bs. p\<lparr>mp_region := seg_write (ptr - mp_base_ptr p) bs (mp_region p)\<rparr>))"

definition pool_block_size :: "memory_pool \<Rightarrow> usize" where
  "pool_block_size p = mp_block_size p"

definition stats :: "memory_pool \<Rightarrow> pool_stats" where
  "stats p =
     (let free_blocks = length (mp_free_list p);
          used_blocks = mp_total_blocks p - free_blocks
      in \<lparr>ps_total_blocks = mp_total_blocks p,
          ps_used_blocks = used_blocks,
          ps_free_blocks = free_blocks,
          ps_total_bytes = mp_total_size p,
          ps_used_bytes = used_blocks * mp_block_size p\<rparr>)"

text \<open>\<open>Drop\<close>: the range handed to \<open>munmap\<close>.\<close>

definition pool_drop :: "memory_pool \<Rightarrow> usize \<times> usize" where
  "pool_drop p = (mp_base_ptr p, mp_total_size p)"

section \<open>Invariant, owned blocks\<close>

definition pool_wf :: "memory_pool \<Rightarrow> bool" where
  "pool_wf p \<longleftrightarrow>
     0 < mp_block_size p \<and> 0 < mp_total_blocks p \<and> mp_total_blocks p \<le> 2 ^ 32 \<and>
     mp_total_size p = mp_total_blocks p * mp_block_size p \<and>
     length (mp_region p) = mp_total_size p"

definition pool_inv :: "memory_pool \<Rightarrow> bool" where
  "pool_inv p \<longleftrightarrow>
     pool_wf p \<and> distinct (mp_free_list p) \<and> set (mp_free_list p) \<subseteq> {..<mp_total_blocks p}"

definition handle_of :: "memory_pool \<Rightarrow> usize \<Rightarrow> block_handle" where
  "handle_of p i =
     \<lparr>bh_pool_id = mp_pool_id p, bh_block_index = of_nat i,
      bh_offset = i * mp_block_size p, bh_size = mp_block_size p\<rparr>"

definition live_indices :: "memory_pool \<Rightarrow> usize set" where
  "live_indices p = {..<mp_total_blocks p} - set (mp_free_list p)"

definition live_handles :: "memory_pool \<Rightarrow> block_handle set" where
  "live_handles p = handle_of p ` live_indices p"

text \<open>Storing through a mutable slice.\<close>

definition pool_store :: "memory_pool \<Rightarrow> block_handle \<Rightarrow> bytes \<Rightarrow> memory_pool res" where
  "pool_store p h bs = rbind (get_slice_mut p h) (\<lambda>(cur, put). Inr (put bs))"

text \<open>
  What other users of a pool may do while somebody holds \<open>h\<close>: allocate, return a block
  they own, and write to a block they own.
\<close>

inductive foreign_step ::
    "('p \<Rightarrow> ('h \<times> 'p) option) \<Rightarrow> ('p \<Rightarrow> 'h \<Rightarrow> 'p res) \<Rightarrow> ('p \<Rightarrow> 'h \<Rightarrow> bytes \<Rightarrow> 'p res) \<Rightarrow>
     ('p \<Rightarrow> 'h set) \<Rightarrow> ('p \<Rightarrow> usize) \<Rightarrow> 'h \<Rightarrow> 'p \<Rightarrow> 'p \<Rightarrow> bool"
  for al de st live bsize h where
  foreign_alloc: "al p = Some (h', p') \<Longrightarrow> foreign_step al de st live bsize h p p'"
| foreign_free: "h' \<in> live p \<Longrightarrow> h' \<noteq> h \<Longrightarrow> de p h' = Inr p' \<Longrightarrow>
    foreign_step al de st live bsize h p p'"
| foreign_store: "h' \<in> live p \<Longrightarrow> h' \<noteq> h \<Longrightarrow> length bs = bsize p \<Longrightarrow> st p h' bs = Inr p' \<Longrightarrow>
    foreign_step al de st live bsize h p p'"

text \<open>\<open>n\<close> allocations in a row, all or nothing.\<close>

fun alloc_n :: "('p \<Rightarrow> ('h \<times> 'p) option) \<Rightarrow> usize \<Rightarrow> 'p \<Rightarrow> ('h list \<times> 'p) option" where
  "alloc_n al 0 p = Some ([], p)"
| "alloc_n al (Suc n) p =
     (case al p of
        None \<Rightarrow> None
      | Some (h, p1) \<Rightarrow> map_option (\<lambda>(hs, p2). (h # hs, p2)) (alloc_n al n p1))"

section \<open>The contract of a block pool\<close>

locale block_pool =
  fixes al :: "'p \<Rightarrow> ('h \<times> 'p) option"
    and de :: "'p \<Rightarrow> 'h \<Rightarrow> 'p res"
    and sl :: "'p \<Rightarrow> 'h \<Rightarrow> bytes res"
    and st :: "'p \<Rightarrow> 'h \<Rightarrow> bytes \<Rightarrow> 'p res"
    and live :: "'p \<Rightarrow> 'h set"
    and cap :: "'p \<Rightarrow> usize"
    and bsize :: "'p \<Rightarrow> usize"
    and inv :: "'p \<Rightarrow> bool"
  assumes live_finite: "inv p \<Longrightarrow> finite (live p)"
    and live_le_cap: "inv p \<Longrightarrow> card (live p) \<le> cap p"
    and al_None: "inv p \<Longrightarrow> al p = None \<longleftrightarrow> card (live p) = cap p"
    and al_Some: "inv p \<Longrightarrow> al p = Some (h, p') \<Longrightarrow>
      inv p' \<and> h \<notin> live p \<and> live p' = insert h (live p) \<and> cap p' = cap p \<and> bsize p' = bsize p"
    and al_frame: "inv p \<Longrightarrow> al p = Some (h, p') \<Longrightarrow> sl p' h' = sl p h'"
    and de_total: "inv p \<Longrightarrow> h \<in> live p \<Longrightarrow> \<exists>p'. de p h = Inr p'"
    and de_Inr: "inv p \<Longrightarrow> h \<in> live p \<Longrightarrow> de p h = Inr p' \<Longrightarrow>
      inv p' \<and> live p' = live p - {h} \<and> cap p' = cap p \<and> bsize p' = bsize p"
    and de_frame: "inv p \<Longrightarrow> h \<in> live p \<Longrightarrow> de p h = Inr p' \<Longrightarrow> sl p' h' = sl p h'"
    and sl_total: "inv p \<Longrightarrow> h \<in> live p \<Longrightarrow> \<exists>bs. sl p h = Inr bs \<and> length bs = bsize p"
    and st_total: "inv p \<Longrightarrow> h \<in> live p \<Longrightarrow> length bs = bsize p \<Longrightarrow> \<exists>p'. st p h bs = Inr p'"
    and st_Inr: "inv p \<Longrightarrow> h \<in> live p \<Longrightarrow> length bs = bsize p \<Longrightarrow> st p h bs = Inr p' \<Longrightarrow>
      inv p' \<and> live p' = live p \<and> cap p' = cap p \<and> bsize p' = bsize p \<and> sl p' h = Inr bs"
    and st_frame: "inv p \<Longrightarrow> h \<in> live p \<Longrightarrow> length bs = bsize p \<Longrightarrow> st p h bs = Inr p' \<Longrightarrow>
      h' \<in> live p \<Longrightarrow> h' \<noteq> h \<Longrightarrow> sl p' h' = sl p h'"
begin

lemma foreign_step_keeps:
  assumes "foreign_step al de st live bsize h p p'" and "inv p" and "h \<in> live p"
  shows "inv p' \<and> h \<in> live p' \<and> sl p' h = sl p h"
  using assms
proof (induction rule: foreign_step.induct)
  case (foreign_alloc p h' p')
  then show ?case using al_Some al_frame by blast
next
  case (foreign_free h' p p')
  then show ?case using de_Inr de_frame by blast
next
  case (foreign_store h' p bs p')
  then show ?case using st_Inr st_frame by metis
qed

lemma foreign_steps_keep:
  assumes "(foreign_step al de st live bsize h)\<^sup>*\<^sup>* p p'" and "inv p" and "h \<in> live p"
  shows "inv p' \<and> h \<in> live p' \<and> sl p' h = sl p h"
  using assms by (induction rule: rtranclp_induct) (auto dest: foreign_step_keeps)

lemma alloc_n_enough:
  "inv p \<Longrightarrow> n + card (live p) \<le> cap p \<Longrightarrow>
     \<exists>hs p'. alloc_n al n p = Some (hs, p') \<and> inv p' \<and> length hs = n \<and> distinct hs \<and>
             set hs \<inter> live p = {} \<and> live p' = live p \<union> set hs \<and> cap p' = cap p"
proof (induction n arbitrary: p)
  case 0
  then show ?case by simp
next
  case (Suc n)
  then obtain h p1 where a: "al p = Some (h, p1)"
    using al_None by (cases "al p") fastforce+
  note p1 = al_Some [OF Suc.prems(1) a]
  have "n + card (live p1) \<le> cap p1"
    using p1 Suc.prems live_finite by (simp add: card_insert_if)
  then obtain hs p' where hs: "alloc_n al n p1 = Some (hs, p')" "inv p'" "length hs = n" "distinct hs"
      "set hs \<inter> live p1 = {}" "live p' = live p1 \<union> set hs" "cap p' = cap p1"
    using Suc.IH p1 by blast
  then show ?case using a p1 by auto
qed

lemma alloc_n_exhausted: "inv p \<Longrightarrow> cap p < n + card (live p) \<Longrightarrow> alloc_n al n p = None"
proof (induction n arbitrary: p)
  case 0
  then show ?case using live_le_cap by fastforce
next
  case (Suc n)
  show ?case
  proof (cases "al p")
    case None
    then show ?thesis by simp
  next
    case (Some hp)
    obtain h p1 where a: "al p = Some (h, p1)" using Some by (cases hp) auto
    note p1 = al_Some [OF Suc.prems(1) a]
    have "cap p1 < n + card (live p1)"
      using p1 Suc.prems live_finite by (simp add: card_insert_if)
    then show ?thesis using Suc.IH p1 a by simp
  qed
qed

end

section \<open>The code keeps the contract\<close>

lemma handle_of_inj:
  assumes "pool_wf p" and "handle_of p i = handle_of p j"
  shows "i = j"
  using assms by (auto simp: handle_of_def pool_wf_def)

lemma unat_handle_index:
  "pool_wf p \<Longrightarrow> i < mp_total_blocks p \<Longrightarrow> unat (bh_block_index (handle_of p i)) = i"
  by (simp add: handle_of_def pool_wf_def unat_of_nat)

lemma live_handles_finite [simp]: "finite (live_handles p)"
  by (simp add: live_handles_def live_indices_def)

lemma card_live_indices: "pool_inv p \<Longrightarrow> card (live_indices p) = mp_total_blocks p - length (mp_free_list p)"
  by (simp add: live_indices_def pool_inv_def card_Diff_subset distinct_card)

lemma free_length_le: "pool_inv p \<Longrightarrow> length (mp_free_list p) \<le> mp_total_blocks p"
  by (metis card_lessThan card_mono distinct_card finite_lessThan pool_inv_def)

lemma card_live_handles: "pool_inv p \<Longrightarrow> card (live_handles p) = mp_total_blocks p - length (mp_free_list p)"
  by (metis card_image card_live_indices handle_of_inj inj_onI live_handles_def pool_inv_def)

lemma handle_of_upd [simp]:
  "handle_of (p\<lparr>mp_free_list := f\<rparr>) = handle_of p"
  "handle_of (p\<lparr>mp_region := r\<rparr>) = handle_of p"
  by (auto simp: handle_of_def fun_eq_iff)

lemma block_in_region:
  assumes "pool_wf p" and "i < mp_total_blocks p"
  shows "i * mp_block_size p + mp_block_size p \<le> mp_total_size p"
proof -
  have "Suc i * mp_block_size p \<le> mp_total_blocks p * mp_block_size p"
    using assms by (intro mult_le_mono1) simp
  then show ?thesis using assms by (simp add: pool_wf_def)
qed

lemma get_slice_handle:
  assumes "pool_wf p" and "i < mp_total_blocks p"
  shows "get_slice p (handle_of p i) = Inr (seg (i * mp_block_size p) (mp_block_size p) (mp_region p))"
  using block_in_region [OF assms] assms
  by (simp add: get_slice_def get_ptr_def handle_of_def pool_wf_def)

lemma get_slice_free_list [simp]: "get_slice (p\<lparr>mp_free_list := f\<rparr>) h = get_slice p h"
  by (simp add: get_slice_def get_ptr_def)

lemma pool_store_handle:
  assumes "pool_wf p" and "i < mp_total_blocks p"
  shows "pool_store p (handle_of p i) bs = Inr (p\<lparr>mp_region := seg_write (i * mp_block_size p) bs (mp_region p)\<rparr>)"
  using block_in_region [OF assms] assms
  by (simp add: pool_store_def get_slice_mut_def get_ptr_def handle_of_def pool_wf_def)

lemma pool_wf_store:
  assumes "pool_wf p" and "i < mp_total_blocks p" and "length bs = mp_block_size p"
  shows "pool_wf (p\<lparr>mp_region := seg_write (i * mp_block_size p) bs (mp_region p)\<rparr>)"
  using block_in_region [OF assms(1,2)] assms by (simp add: pool_wf_def)

lemma blocks_disjoint:
  fixes i j b :: nat
  assumes "i \<noteq> j"
  shows "i * b + b \<le> j * b \<or> j * b + b \<le> i * b"
proof (cases "i < j")
  case True
  then have "Suc i * b \<le> j * b" by (intro mult_le_mono1) simp
  then show ?thesis by simp
next
  case False
  with assms have "Suc j * b \<le> i * b" by (intro mult_le_mono1) simp
  then show ?thesis by simp
qed

lemma allocate_Some:
  assumes "allocate p = Some (h, p')"
  obtains i free where "mp_free_list p = free @ [i]" and "h = handle_of p i"
    and "p' = p\<lparr>mp_free_list := free\<rparr>"
  using assms by (auto simp: allocate_def handle_of_def split: option.splits)

lemma allocate_inv:
  assumes "pool_inv p" and "allocate p = Some (h, p')"
  shows "pool_inv p' \<and> h \<notin> live_handles p \<and> live_handles p' = insert h (live_handles p)"
proof -
  obtain i free where f: "mp_free_list p = free @ [i]" and h: "h = handle_of p i"
    and p': "p' = p\<lparr>mp_free_list := free\<rparr>"
    using assms(2) by (rule allocate_Some)
  have i: "i < mp_total_blocks p" "i \<notin> set free" using assms(1) f by (auto simp: pool_inv_def)
  have "live_indices p' = insert i (live_indices p)" and "i \<notin> live_indices p"
    using i f by (auto simp: live_indices_def p')
  moreover have "pool_inv p'" using assms(1) f by (auto simp: pool_inv_def pool_wf_def p')
  moreover have "h \<notin> live_handles p"
    using assms(1) \<open>i \<notin> live_indices p\<close> by (auto simp: live_handles_def h pool_inv_def dest: handle_of_inj)
  ultimately show ?thesis by (simp add: live_handles_def h p')
qed

lemma deallocate_handle:
  assumes "pool_wf p" and "i < mp_total_blocks p"
  shows "deallocate p (handle_of p i) = Inr (p\<lparr>mp_free_list := mp_free_list p @ [i]\<rparr>)"
  using assms unat_handle_index [OF assms] by (simp add: deallocate_def handle_of_def)

lemma deallocate_inv:
  assumes "pool_inv p" and "h \<in> live_handles p" and "deallocate p h = Inr p'"
  shows "pool_inv p' \<and> live_handles p' = live_handles p - {h}"
proof -
  obtain i where h: "h = handle_of p i" and i: "i \<in> live_indices p"
    using assms(2) by (auto simp: live_handles_def)
  then have p': "p' = p\<lparr>mp_free_list := mp_free_list p @ [i]\<rparr>"
    using assms by (simp add: deallocate_handle live_indices_def pool_inv_def)
  have wf: "pool_wf p" using assms(1) by (simp add: pool_inv_def)
  have "live_indices p' = live_indices p - {i}" by (auto simp: live_indices_def p')
  then have "live_handles p' = live_handles p - {h}"
    using wf by (auto simp: live_handles_def p' h dest: handle_of_inj)
  moreover have "pool_inv p'"
    using assms(1) i by (auto simp: pool_inv_def pool_wf_def live_indices_def p')
  ultimately show ?thesis by simp
qed

lemma pool_store_inv:
  assumes "pool_inv p" and "h \<in> live_handles p" and "length bs = mp_block_size p"
    and "pool_store p h bs = Inr p'"
  shows "pool_inv p' \<and> live_handles p' = live_handles p \<and> get_slice p' h = Inr bs"
proof -
  obtain i where h: "h = handle_of p i" and i: "i < mp_total_blocks p" "i \<in> live_indices p"
    using assms(2) by (auto simp: live_handles_def live_indices_def)
  have wf: "pool_wf p" using assms(1) by (simp add: pool_inv_def)
  have p': "p' = p\<lparr>mp_region := seg_write (i * mp_block_size p) bs (mp_region p)\<rparr>"
    using assms(4) i wf by (simp add: h pool_store_handle)
  have "pool_wf p'" using pool_wf_store [OF wf i(1) assms(3)] by (simp add: p')
  moreover have "get_slice p' h = Inr bs"
    using get_slice_handle [OF \<open>pool_wf p'\<close>, of i] i block_in_region [OF wf i(1)] wf assms(3)
    by (simp add: h p' pool_wf_def)
  ultimately show ?thesis
    using assms(1) by (simp add: pool_inv_def live_handles_def live_indices_def p')
qed

lemma pool_store_frame:
  assumes "pool_inv p" and "h \<in> live_handles p" and "length bs = mp_block_size p"
    and "pool_store p h bs = Inr p'" and "h' \<in> live_handles p" and "h' \<noteq> h"
  shows "get_slice p' h' = get_slice p h'"
proof -
  obtain i j where h: "h = handle_of p i" "i < mp_total_blocks p"
    and h': "h' = handle_of p j" "j < mp_total_blocks p"
    using assms(2,5) by (auto simp: live_handles_def live_indices_def)
  have wf: "pool_wf p" using assms(1) by (simp add: pool_inv_def)
  have p': "p' = p\<lparr>mp_region := seg_write (i * mp_block_size p) bs (mp_region p)\<rparr>"
    using assms(4) h wf by (simp add: pool_store_handle)
  have "pool_wf p'" using pool_wf_store [OF wf h(2) assms(3)] by (simp add: p')
  have "i \<noteq> j" using assms(6) h h' by auto
  then have "seg (j * mp_block_size p) (mp_block_size p) (mp_region p') =
             seg (j * mp_block_size p) (mp_block_size p) (mp_region p)"
    using blocks_disjoint [of j i "mp_block_size p"] block_in_region [OF wf h(2)]
      block_in_region [OF wf h'(2)] wf assms(3)
    by (simp add: p') (rule seg_seg_write_disjoint; simp add: pool_wf_def)
  then show ?thesis
    using get_slice_handle [OF wf h'(2)] get_slice_handle [OF \<open>pool_wf p'\<close>, of j] h'
    by (simp add: p')
qed

interpretation mp: block_pool allocate deallocate get_slice pool_store live_handles
  mp_total_blocks mp_block_size pool_inv
proof unfold_locales
  fix p
  assume "pool_inv p"
  then show "finite (live_handles p)" by simp
next
  fix p
  assume "pool_inv p"
  then show "card (live_handles p) \<le> mp_total_blocks p" by (simp add: card_live_handles)
next
  fix p
  assume inv: "pool_inv p"
  then have "mp_total_blocks p - length (mp_free_list p) = mp_total_blocks p \<longleftrightarrow> mp_free_list p = []"
    using free_length_le [OF inv] by (cases "mp_free_list p") auto
  then show "allocate p = None \<longleftrightarrow> card (live_handles p) = mp_total_blocks p"
    using inv by (auto simp: card_live_handles allocate_def split: option.splits)
next
  fix p h p'
  assume "pool_inv p" and "allocate p = Some (h, p')"
  then show "pool_inv p' \<and> h \<notin> live_handles p \<and> live_handles p' = insert h (live_handles p) \<and>
      mp_total_blocks p' = mp_total_blocks p \<and> mp_block_size p' = mp_block_size p"
    by (auto dest: allocate_inv elim: allocate_Some)
next
  fix p h p' h'
  assume "pool_inv p" and "allocate p = Some (h, p')"
  then show "get_slice p' h' = get_slice p h'" by (auto elim: allocate_Some)
next
  fix p h
  assume "pool_inv p" and "h \<in> live_handles p"
  then show "\<exists>p'. deallocate p h = Inr p'"
    by (auto simp: live_handles_def live_indices_def pool_inv_def deallocate_handle)
next
  fix p h p'
  assume "pool_inv p" and "h \<in> live_handles p" and "deallocate p h = Inr p'"
  then show "pool_inv p' \<and> live_handles p' = live_handles p - {h} \<and>
      mp_total_blocks p' = mp_total_blocks p \<and> mp_block_size p' = mp_block_size p"
    by (auto simp: deallocate_def dest: deallocate_inv split: if_splits)
next
  fix p h p' h'
  assume "deallocate p h = Inr p'"
  then show "get_slice p' h' = get_slice p h'" by (auto simp: deallocate_def split: if_splits)
next
  fix p h
  assume "pool_inv p" and "h \<in> live_handles p"
  then obtain i where h: "h = handle_of p i" "i < mp_total_blocks p" "pool_wf p"
    by (auto simp: live_handles_def live_indices_def pool_inv_def)
  then show "\<exists>bs. get_slice p h = Inr bs \<and> length bs = mp_block_size p"
    using block_in_region [OF h(3,2)] by (simp add: get_slice_handle pool_wf_def)
next
  fix p h bs
  assume "pool_inv p" and "h \<in> live_handles p"
  then show "\<exists>p'. pool_store p h bs = Inr p'"
    by (auto simp: live_handles_def live_indices_def pool_inv_def pool_store_handle)
next
  fix p h bs p'
  assume a: "pool_inv p" "h \<in> live_handles p" "length bs = mp_block_size p" "pool_store p h bs = Inr p'"
  then have "mp_total_blocks p' = mp_total_blocks p \<and> mp_block_size p' = mp_block_size p"
    by (auto simp: live_handles_def live_indices_def pool_inv_def pool_store_handle)
  then show "pool_inv p' \<and> live_handles p' = live_handles p \<and> mp_total_blocks p' = mp_total_blocks p \<and>
      mp_block_size p' = mp_block_size p \<and> get_slice p' h = Inr bs"
    using pool_store_inv [OF a] by blast
qed (rule pool_store_frame)

section \<open>Properties\<close>

text \<open>A pool of four 32-byte blocks, for the witnesses.\<close>

definition demo_pool :: memory_pool where
  "demo_pool =
     \<lparr>mp_pool_id = 0, mp_base_ptr = 4096, mp_total_size = 128, mp_block_size = 32,
      mp_total_blocks = 4, mp_free_list = [0, 1, 2, 3], mp_region = replicate 128 0\<rparr>"

lemma demo_pool_new: "pool_new (\<lambda>_. Inr 4096) 0 128 32 = (Inr demo_pool, 1)"
  by (simp add: pool_new_def demo_pool_def upt_rec)

lemma demo_pool_inv: "pool_inv demo_pool"
  by (auto simp: pool_inv_def pool_wf_def demo_pool_def)

lemma pool_new_establishes:
  assumes "0 < b" and "0 < t" and "b dvd t" and "t div b \<le> 2 ^ 32" and "mmap t = Inr base"
  obtains p where "pool_new mmap nid t b = (Inr p, nid + 1)" and "pool_inv p" and "live_handles p = {}"
    and "mp_total_blocks p = t div b" and "mp_block_size p = b" and "mp_total_size p = t"
    and "mp_pool_id p = nid"
proof -
  have "0 < t div b" using assms by (auto elim!: dvdE)
  then show ?thesis
    using assms that
    by (simp add: pool_new_def pool_inv_def pool_wf_def live_handles_def live_indices_def Let_def
        lessThan_atLeast0 dvd_eq_mod_eq_0)
qed

text \<open>\<open>MemoryPool::new\<close> succeeds exactly when the block size is positive, the total size is
  a positive multiple of it and \<open>mmap\<close> succeeds. With at most \<open>2 ^ 32\<close> blocks the new pool
  satisfies the pool invariant and owns no block, every block is free, and the next pool gets
  another identifier.\<close>

lemma pool_new_spec:
  assumes "t div b \<le> 2 ^ 32"
  shows "((\<exists>p. fst (pool_new mmap nid t b) = Inr p) \<longleftrightarrow>
            0 < b \<and> 0 < t \<and> b dvd t \<and> (\<exists>base. mmap t = Inr base)) \<and>
         (\<forall>p. fst (pool_new mmap nid t b) = Inr p \<longrightarrow>
            pool_inv p \<and> live_handles p = {} \<and> ps_free_blocks (stats p) = t div b \<and>
            ps_used_bytes (stats p) = 0 \<and> snd (pool_new mmap nid t b) \<noteq> mp_pool_id p)"
proof (cases "0 < b \<and> 0 < t \<and> b dvd t \<and> (\<exists>base. mmap t = Inr base)")
  case True
  then obtain base where "mmap t = Inr base" by blast
  then obtain p where p: "pool_new mmap nid t b = (Inr p, nid + 1)" "pool_inv p" "live_handles p = {}"
      "mp_total_blocks p = t div b" "mp_pool_id p = nid"
    using True assms pool_new_establishes [of b t mmap base nid] by metis
  have "length (mp_free_list p) = t div b"
    using card_live_handles [OF p(2)] free_length_le [OF p(2)] p by simp
  then show ?thesis using True p by (simp add: stats_def Let_def)
next
  case False
  then show ?thesis
    by (auto simp: pool_new_def Let_def dvd_eq_mod_eq_0 split: sum.splits)
qed

text \<open>From a pool with no owned block exactly \<open>total_blocks\<close> allocations in a row succeed. They
  return pairwise different blocks, each of which lies inside the mapped region and can be
  read; one further allocation returns \<open>None\<close>.\<close>

lemma pool_exact_capacity:
  assumes "pool_inv p" and "live_handles p = {}"
  shows "(\<exists>hs p'. alloc_n allocate (mp_total_blocks p) p = Some (hs, p') \<and> pool_inv p' \<and>
            length hs = mp_total_blocks p \<and> distinct hs \<and>
            (\<forall>h \<in> set hs. bh_offset h + mp_block_size p' \<le> mp_total_size p' \<and>
               (\<exists>bs. get_slice p' h = Inr bs \<and> length bs = mp_block_size p')) \<and>
            allocate p' = None) \<and>
         alloc_n allocate (Suc (mp_total_blocks p)) p = None"
proof -
  obtain hs p' where r: "alloc_n allocate (mp_total_blocks p) p = Some (hs, p')" "pool_inv p'"
      "length hs = mp_total_blocks p" "distinct hs" "live_handles p' = set hs"
      "mp_total_blocks p' = mp_total_blocks p"
    using mp.alloc_n_enough [OF assms(1), of "mp_total_blocks p"] assms(2) by auto
  have n: "alloc_n allocate (Suc (mp_total_blocks p)) p = None"
    by (rule mp.alloc_n_exhausted) (use assms in auto)
  have in_region: "bh_offset h + mp_block_size p' \<le> mp_total_size p'" if "h \<in> live_handles p'" for h
    using that block_in_region [of p'] r(2)
    by (auto simp: live_handles_def live_indices_def pool_inv_def handle_of_def)
  have "allocate p' = None"
    using mp.al_None [OF r(2)] r by (simp add: distinct_card)
  then show ?thesis using r n in_region mp.sl_total [OF r(2)] by blast
qed

definition handles_disjoint :: "block_handle \<Rightarrow> block_handle \<Rightarrow> bool" where
  "handles_disjoint h h' \<longleftrightarrow> bh_offset h + bh_size h \<le> bh_offset h' \<or> bh_offset h' + bh_size h' \<le> bh_offset h"

lemma live_disjoint:
  assumes "h \<in> live_handles p" and "h' \<in> live_handles p" and "h \<noteq> h'"
  shows "handles_disjoint h h'"
proof -
  obtain i j where "h = handle_of p i" "h' = handle_of p j" "i \<noteq> j" using assms by (auto simp: live_handles_def)
  then show ?thesis using blocks_disjoint [of i j "mp_block_size p"] by (simp add: handles_disjoint_def handle_of_def)
qed

text \<open>C29: Whoever has allocated a block owns it until returning it. The block was free before, and whatever the other users of
  the pool do meanwhile (allocating, returning and overwriting the blocks they own, in any order and number), its
  contents do not change, no allocation hands it out again, and its bytes do not overlap those of any other block that is
  handed out or owned.\<close>

theorem pool_owned_block_stable:
  assumes "pool_inv p0" and "allocate p0 = Some (h, p)"
    and "(foreign_step allocate deallocate pool_store live_handles mp_block_size h)\<^sup>*\<^sup>* p p'"
  shows "pool_inv p' \<and> h \<notin> live_handles p0 \<and> h \<in> live_handles p' \<and> get_slice p' h = get_slice p0 h \<and>
    (\<forall>h' p''. allocate p' = Some (h', p'') \<longrightarrow> h' \<noteq> h \<and> handles_disjoint h' h) \<and>
    (\<forall>h' \<in> live_handles p'. h' \<noteq> h \<longrightarrow> handles_disjoint h' h)"
proof -
  note al = mp.al_Some [OF assms(1,2)]
  have "h \<in> live_handles p" using al by simp
  note keep = mp.foreign_steps_keep [OF assms(3) _ this]
  have p': "pool_inv p'" "h \<in> live_handles p'" "get_slice p' h = get_slice p0 h"
    using keep al mp.al_frame [OF assms(1,2), of h] by simp_all
  have disj: "handles_disjoint h' h" if "h' \<in> live_handles q" "h \<in> live_handles q" "h' \<noteq> h" for h' q
    using that by (rule live_disjoint)
  have "h' \<noteq> h \<and> handles_disjoint h' h" if "allocate p' = Some (h', p'')" for h' p''
    using mp.al_Some [OF p'(1) that] p'(2) disj [of h' p''] by auto
  then show ?thesis using p' al disj by blast
qed

theorem pool_owned_block_stable_witness:
  "\<exists>p0 p p' h. pool_inv p0 \<and> allocate p0 = Some (h, p) \<and>
     (foreign_step allocate deallocate pool_store live_handles mp_block_size h)\<^sup>*\<^sup>* p p' \<and> p \<noteq> p' \<and>
     h \<in> live_handles p' \<and> get_slice p' h = get_slice p0 h"
proof -
  define p0 where "p0 = demo_pool\<lparr>mp_free_list := [0, 1, 2]\<rparr>"
  define p where "p = demo_pool\<lparr>mp_free_list := [0, 1]\<rparr>"
  define p' where "p' = demo_pool\<lparr>mp_free_list := [0]\<rparr>"
  have inv: "pool_inv p0" by (auto simp: p0_def pool_inv_def pool_wf_def demo_pool_def)
  have a: "allocate p0 = Some (handle_of p0 2, p)"
    by (simp add: allocate_def vec_pop_def handle_of_def p0_def p_def demo_pool_def)
  have "allocate p = Some (handle_of p 1, p')"
    by (simp add: allocate_def vec_pop_def handle_of_def p_def p'_def demo_pool_def)
  then have "(foreign_step allocate deallocate pool_store live_handles mp_block_size (handle_of p0 2))\<^sup>*\<^sup>* p p'"
    by (intro r_into_rtranclp foreign_step.foreign_alloc)
  moreover have "p \<noteq> p'" by (simp add: p_def p'_def demo_pool_def)
  ultimately show ?thesis using pool_owned_block_stable [OF inv a] inv a by blast
qed

text \<open>Under the invariant the statistics are exact: used and free blocks add up to the total,
  the used blocks are the owned ones, and the byte counts are the block counts times the
  block size.\<close>

lemma pool_stats_accurate:
  assumes "pool_inv p"
  shows "ps_used_blocks (stats p) = card (live_handles p) \<and>
         ps_used_blocks (stats p) + ps_free_blocks (stats p) = ps_total_blocks (stats p) \<and>
         ps_used_bytes (stats p) + ps_free_blocks (stats p) * mp_block_size p = ps_total_bytes (stats p)"
proof -
  have le: "length (mp_free_list p) \<le> mp_total_blocks p" using assms by (rule free_length_le)
  then have "(mp_total_blocks p - length (mp_free_list p)) * mp_block_size p +
      length (mp_free_list p) * mp_block_size p = mp_total_blocks p * mp_block_size p"
    by (simp add: diff_mult_distrib)
  then show ?thesis
    using assms le by (simp add: stats_def Let_def card_live_handles pool_inv_def pool_wf_def)
qed

text \<open>Returning an owned block never panics and is undone by the next allocation, which hands out
  exactly that block again (the free list is a stack): the pool is back in the state before
  the return.\<close>

lemma dealloc_then_alloc:
  assumes "pool_inv p" and "h \<in> live_handles p"
  shows "\<exists>p'. deallocate p h = Inr p' \<and> pool_inv p' \<and> h \<notin> live_handles p' \<and> allocate p' = Some (h, p)"
proof -
  obtain i where h: "h = handle_of p i" and i: "i < mp_total_blocks p" and wf: "pool_wf p"
    using assms by (auto simp: live_handles_def live_indices_def pool_inv_def)
  have d: "deallocate p h = Inr (p\<lparr>mp_free_list := mp_free_list p @ [i]\<rparr>)"
    using deallocate_handle [OF wf i] h by simp
  then show ?thesis
    using deallocate_inv [OF assms d] by (simp add: allocate_def h handle_of_def Let_def)
qed

text \<open>Double free, as the documentation of \<open>deallocate\<close> warns: returning a block twice panics on
  neither call, the free count exceeds the truth by one, and the next two allocations hand
  out the same block to both callers.\<close>

lemma double_dealloc_aliases:
  assumes "pool_inv p" and "h \<in> live_handles p"
  shows "\<exists>p1 p2 q1 q2. deallocate p h = Inr p1 \<and> deallocate p1 h = Inr p2 \<and>
           ps_free_blocks (stats p2) = ps_free_blocks (stats p) + 2 \<and>
           allocate p2 = Some (h, q1) \<and> allocate q1 = Some (h, q2)"
proof -
  obtain i where h: "h = handle_of p i" and i: "i < mp_total_blocks p" and wf: "pool_wf p"
    using assms by (auto simp: live_handles_def live_indices_def pool_inv_def)
  define p1 where "p1 = p\<lparr>mp_free_list := mp_free_list p @ [i]\<rparr>"
  have wf1: "pool_wf p1" using wf by (simp add: p1_def pool_wf_def)
  have "deallocate p h = Inr p1" using deallocate_handle [OF wf i] h by (simp add: p1_def)
  moreover have "deallocate p1 h = Inr (p1\<lparr>mp_free_list := mp_free_list p1 @ [i]\<rparr>)"
    using deallocate_handle [OF wf1, of i] i h by (simp add: p1_def)
  ultimately show ?thesis
    by (simp add: allocate_def stats_def h handle_of_def Let_def p1_def vec_pop_def butlast_append)
qed

text \<open>Block indices are truncated to 32 bits in a handle: returning the block with index \<open>i\<close>
  that was just allocated pushes \<open>i mod 2 ^ 32\<close> on the free list. A pool of more than
  \<open>2 ^ 32\<close> blocks gives a different block back than the one it handed out.\<close>

lemma handle_index_truncated:
  assumes "mp_free_list p = free @ [i]" and "i < mp_total_blocks p"
  shows "\<exists>h p1 p2. allocate p = Some (h, p1) \<and> deallocate p1 h = Inr p2 \<and>
           bh_offset h = i * mp_block_size p \<and> mp_free_list p2 = free @ [i mod 2 ^ 32]"
proof -
  have "i mod 2 ^ 32 < mp_total_blocks p" using assms(2) by (rule le_less_trans [OF mod_less_eq_dividend])
  then show ?thesis
    using assms by (simp add: allocate_def deallocate_def unat_of_nat Let_def)
qed

end
