(* ===== verification/BlockHeader.thy ===== *)
theory BlockHeader
  imports CmxPrelude
begin

text \<open>
  Block header and block location of \<^verbatim>\<open>crates/cmx-block-store/src/block.rs\<close>.

  The struct is \<open>repr(C)\<close>: \<open>crc32\<close> at offset 0, four bytes of padding, \<open>generation\<close> at 8,
  \<open>data_size\<close> at 16 and \<open>_reserved\<close> at 20, 24 bytes in all, little-endian. Two things are
  not determined by the source and are fields of \<open>platform\<close>: the checksum of the
  \<open>crc32fast\<close> crate and the contents of the padding bytes that \<open>write_to\<close> copies out of
  the struct. \<open>platform\<close> also holds the digest of the \<open>sha2\<close> crate, the two functions of the
  \<open>hex\<close> crate and the build profile (whether integer overflow is checked), which other
  components use.
\<close>

definition TOKENS_PER_BLOCK :: u32 where
  "TOKENS_PER_BLOCK = 16"

record block_header =
  hdr_crc32 :: u32
  hdr_generation :: u64
  hdr_data_size :: u32
  hdr_reserved :: u32

record platform =
  crc32_of :: "bytes \<Rightarrow> u32"
  sha256_of :: "bytes \<Rightarrow> bytes"
  padding_of :: "block_header \<Rightarrow> bytes"
  hex_encode_of :: "bytes \<Rightarrow> string"
  hex_decode_of :: "string \<Rightarrow> bytes option"
  overflow_checks :: bool

record block_location =
  loc_node_id :: u32
  loc_block_index :: u32
  loc_offset :: u64
  loc_block_size :: u64
  loc_generation :: u64

definition HEADER_SIZE :: usize where
  "HEADER_SIZE = 24"

definition header_new :: "platform \<Rightarrow> bytes \<Rightarrow> u64 \<Rightarrow> block_header" where
  "header_new pf data gen =
     \<lparr>hdr_crc32 = crc32_of pf data, hdr_generation = gen,
      hdr_data_size = of_nat (length data), hdr_reserved = 0\<rparr>"

definition header_verify :: "platform \<Rightarrow> block_header \<Rightarrow> bytes \<Rightarrow> bool" where
  "header_verify pf h data \<longleftrightarrow> crc32_of pf data = hdr_crc32 h"

text \<open>The bytes of the struct in memory.\<close>

definition header_bytes :: "platform \<Rightarrow> block_header \<Rightarrow> bytes" where
  "header_bytes pf h =
     le_encode 4 (hdr_crc32 h) @ take 4 (padding_of pf h @ replicate 4 0) @
     le_encode 8 (hdr_generation h) @ le_encode 4 (hdr_data_size h) @ le_encode 4 (hdr_reserved h)"

definition write_to :: "platform \<Rightarrow> block_header \<Rightarrow> bytes \<Rightarrow> bytes res" where
  "write_to pf h dst =
     (if length dst < HEADER_SIZE then Inl AssertFailed
      else Inr (header_bytes pf h @ drop HEADER_SIZE dst))"

definition read_from :: "bytes \<Rightarrow> block_header option" where
  "read_from src =
     (if length src < HEADER_SIZE then None
      else Some \<lparr>hdr_crc32 = le_decode (seg 0 4 src),
                 hdr_generation = le_decode (seg 8 8 src),
                 hdr_data_size = le_decode (seg 16 4 src),
                 hdr_reserved = le_decode (seg 20 4 src)\<rparr>)"

section \<open>Lemmas\<close>

lemma length_header_bytes [simp]: "length (header_bytes pf h) = HEADER_SIZE"
  by (simp add: header_bytes_def HEADER_SIZE_def)

lemma read_from_header_bytes [simp]: "read_from (header_bytes pf h @ rest) = Some h"
proof -
  define q where "q = take 4 (padding_of pf h @ replicate 4 0)"
  have "length q = 4" by (simp add: q_def)
  then show ?thesis
    by (simp add: read_from_def header_bytes_def seg_def HEADER_SIZE_def flip: q_def)
qed

lemma header_new_sel [simp]:
  "hdr_crc32 (header_new pf data gen) = crc32_of pf data"
  "hdr_generation (header_new pf data gen) = gen"
  "hdr_data_size (header_new pf data gen) = of_nat (length data)"
  by (simp_all add: header_new_def)

section \<open>Properties\<close>

text \<open>Serialisation round trip: writing a header into any buffer of at least 24 bytes succeeds,
  keeps the length of the buffer and everything after the header, and reading it back gives
  all fields again, whatever the struct padding holds. A shorter buffer makes the write panic
  and the read return \<open>None\<close>.\<close>

lemma header_roundtrip:
  "(HEADER_SIZE \<le> length dst \<longrightarrow>
      (\<exists>buf. write_to pf h dst = Inr buf \<and> length buf = length dst \<and>
             drop HEADER_SIZE buf = drop HEADER_SIZE dst \<and> read_from buf = Some h)) \<and>
   (length dst < HEADER_SIZE \<longrightarrow> write_to pf h dst = Inl AssertFailed \<and> read_from dst = None)"
  by (simp add: write_to_def read_from_def [of dst])

text \<open>A checksum, a digest and padding for the witnesses.\<close>

definition demo_crc :: "bytes \<Rightarrow> u32" where
  "demo_crc bs = fold (\<lambda>b acc. 31 * acc + ucast b) bs 7"

definition demo_sha :: "bytes \<Rightarrow> bytes" where
  "demo_sha bs = sum_list bs # replicate 31 0"

text \<open>An encoding with two characters per byte, as \<open>hex\<close> has, and its partial inverse.\<close>

definition demo_digits :: string where
  "demo_digits = ''0123456789abcdef''"

definition demo_nibble :: "u8 \<Rightarrow> char" where
  "demo_nibble n = demo_digits ! unat n"

definition demo_unnibble :: "char \<Rightarrow> u8 option" where
  "demo_unnibble c = map_of (zip demo_digits (map of_nat [0..<16])) c"

fun demo_hex :: "bytes \<Rightarrow> string" where
  "demo_hex [] = []"
| "demo_hex (b # bs) = demo_nibble (drop_bit 4 b) # demo_nibble (b AND 15) # demo_hex bs"

fun demo_unhex :: "string \<Rightarrow> bytes option" where
  "demo_unhex [] = Some []"
| "demo_unhex [c] = None"
| "demo_unhex (c # d # cs) =
     (case (demo_unnibble c, demo_unnibble d, demo_unhex cs) of
        (Some h, Some l, Some bs) \<Rightarrow> Some ((push_bit 4 h OR l) # bs)
      | _ \<Rightarrow> None)"

definition demo_pf :: platform where
  "demo_pf = \<lparr>crc32_of = demo_crc, sha256_of = demo_sha, padding_of = (\<lambda>_. [1, 2, 3, 4]),
              hex_encode_of = demo_hex, hex_decode_of = demo_unhex, overflow_checks = True\<rparr>"

end
