(* ===== verification/BlockAllocator.thy ===== *)
theory BlockAllocator
  imports MemoryPool BlockHeader
begin

text \<open>
  The block allocator of \<^verbatim>\<open>crates/cmx-block-store/src/allocator.rs\<close>: a memory pool plus the
  generation counter. \<open>allocate_and_write\<close> returns the location and the handle, or \<open>None\<close>,
  with the new allocator state; the atomic \<open>generation\<close> is a 64-bit word, so
  \<open>fetch_add\<close> wraps. Tracing output is not modelled.
\<close>

section \<open>State and operations\<close>

record block_allocator =
  ba_pool :: memory_pool
  ba_node_id :: u32
  ba_generation :: u64

definition allocator_new :: "memory_pool \<Rightarrow> u32 \<Rightarrow> block_allocator" where
  "allocator_new pool node_id = \<lparr>ba_pool = pool, ba_node_id = node_id, ba_generation = 1\<rparr>"

definition allocate_and_write ::
    "platform \<Rightarrow> block_allocator \<Rightarrow> bytes \<Rightarrow>
     ((block_location \<times> block_handle) option \<times> block_allocator) res" where
  "allocate_and_write pf A data =
     rbind (usize_sub (overflow_checks pf) (pool_block_size (ba_pool A)) HEADER_SIZE) (\<lambda>max_data.
     if length data > max_data then Inr (None, A)
     else
       case allocate (ba_pool A) of
         None \<Rightarrow> Inr (None, A)
       | Some (handle, pool1) \<Rightarrow>
           let gen = ba_generation A in
           rbind (get_slice_mut pool1 handle) (\<lambda>(block_slice, put).
           let header = header_new pf data gen in
           if length block_slice < HEADER_SIZE then Inl SliceOutOfRange
           else
             rbind (write_to pf header (take HEADER_SIZE block_slice)) (\<lambda>hdr.
             let block_slice1 = hdr @ drop HEADER_SIZE block_slice in
             if length block_slice1 < HEADER_SIZE + length data then Inl SliceOutOfRange
             else
               let block_slice2 = seg_write HEADER_SIZE data block_slice1;
                   location = \<lparr>loc_node_id = ba_node_id A,
                               loc_block_index = bh_block_index handle,
                               loc_offset = of_nat (bh_offset handle),
                               loc_block_size = of_nat (pool_block_size pool1),
                               loc_generation = gen\<rparr>
               in Inr (Some (location, handle),
                       A\<lparr>ba_pool := put block_slice2, ba_generation := gen + 1\<rparr>))))"

definition read_verified :: "platform \<Rightarrow> block_allocator \<Rightarrow> block_handle \<Rightarrow> (bytes option) res" where
  "read_verified pf A handle =
     rbind (get_slice (ba_pool A) handle) (\<lambda>block_slice.
     case read_from block_slice of
       None \<Rightarrow> Inr None
     | Some header \<Rightarrow>
         let data_start = HEADER_SIZE;
             data_end = data_start + unat (hdr_data_size header)
         in if data_end > length block_slice then Inr None
            else
              let data = seg data_start (data_end - data_start) block_slice in
              if \<not> header_verify pf header data then Inr None
              else Inr (Some data))"

definition ba_deallocate :: "block_allocator \<Rightarrow> block_handle \<Rightarrow> block_allocator res" where
  "ba_deallocate A handle =
     rbind (deallocate (ba_pool A) handle) (\<lambda>pool. Inr (A\<lparr>ba_pool := pool\<rparr>))"

definition ba_stats :: "block_allocator \<Rightarrow> pool_stats" where
  "ba_stats A = stats (ba_pool A)"

definition block_ptr :: "block_allocator \<Rightarrow> block_handle \<Rightarrow> usize res" where
  "block_ptr A handle = get_ptr (ba_pool A) handle"

definition current_generation :: "block_allocator \<Rightarrow> u64" where
  "current_generation A = ba_generation A"

section \<open>Invariant\<close>

definition alloc_inv :: "block_allocator \<Rightarrow> bool" where
  "alloc_inv A \<longleftrightarrow> pool_inv (ba_pool A) \<and> HEADER_SIZE \<le> mp_block_size (ba_pool A)"

abbreviation ba_live :: "block_allocator \<Rightarrow> block_handle set" where
  "ba_live A \<equiv> live_handles (ba_pool A)"

abbreviation ba_max_data :: "block_allocator \<Rightarrow> usize" where
  "ba_max_data A \<equiv> mp_block_size (ba_pool A) - HEADER_SIZE"

text \<open>The bytes of a block after a write: header, data, and what the block held behind them.\<close>

definition block_image :: "platform \<Rightarrow> bytes \<Rightarrow> u64 \<Rightarrow> bytes \<Rightarrow> bytes" where
  "block_image pf data gen old =
     header_bytes pf (header_new pf data gen) @ data @ drop (HEADER_SIZE + length data) old"

definition location_of :: "block_allocator \<Rightarrow> block_handle \<Rightarrow> u64 \<Rightarrow> block_location" where
  "location_of A h gen =
     \<lparr>loc_node_id = ba_node_id A, loc_block_index = bh_block_index h,
      loc_offset = of_nat (bh_offset h), loc_block_size = of_nat (mp_block_size (ba_pool A)),
      loc_generation = gen\<rparr>"

text \<open>
  What happens to an allocator while somebody relies on block \<open>h\<close>: writes into newly
  allocated blocks, and returns of other owned blocks.
\<close>

inductive alloc_step :: "platform \<Rightarrow> block_handle \<Rightarrow> block_allocator \<Rightarrow> block_allocator \<Rightarrow> bool"
  for pf h where
  step_write: "allocate_and_write pf A data = Inr (r, A') \<Longrightarrow> alloc_step pf h A A'"
| step_dealloc: "h' \<in> ba_live A \<Longrightarrow> h' \<noteq> h \<Longrightarrow> ba_deallocate A h' = Inr A' \<Longrightarrow> alloc_step pf h A A'"

inductive_cases alloc_stepE: "alloc_step pf h A A'"

text \<open>A sequence of writes, with the generations of those that succeed.\<close>

fun write_all :: "platform \<Rightarrow> block_allocator \<Rightarrow> bytes list \<Rightarrow> (u64 list \<times> block_allocator) res" where
  "write_all pf A [] = Inr ([], A)"
| "write_all pf A (d # ds) =
     rbind (allocate_and_write pf A d) (\<lambda>(r, A1).
     rbind (write_all pf A1 ds) (\<lambda>(gs, A2).
     Inr ((case r of None \<Rightarrow> gs | Some (loc, _) \<Rightarrow> loc_generation loc # gs), A2)))"

section \<open>What a write does\<close>

lemma get_slice_mut_Inr:
  assumes "get_slice_mut p h = Inr (cur, put)"
  shows "get_slice p h = Inr cur" and "pool_store p h bs = Inr (put bs)"
  using assms by (auto simp: get_slice_mut_def get_slice_def pool_store_def split: if_splits)

lemma get_slice_mut_live:
  assumes "pool_inv p" and "h \<in> live_handles p"
  obtains cur put where "get_slice_mut p h = Inr (cur, put)" and "length cur = mp_block_size p"
proof -
  obtain bs p' where "get_slice p h = Inr bs" "length bs = mp_block_size p" "pool_store p h bs = Inr p'"
    using mp.sl_total [OF assms] mp.st_total [OF assms] by blast
  then obtain c put where "get_slice_mut p h = Inr (c, put)" by (auto simp: pool_store_def)
  with that \<open>get_slice p h = Inr bs\<close> \<open>length bs = mp_block_size p\<close> get_slice_mut_Inr(1) show ?thesis
    by fastforce
qed

lemma length_block_image:
  "HEADER_SIZE + length data \<le> length old \<Longrightarrow> length (block_image pf data gen old) = length old"
  by (simp add: block_image_def)

lemma allocate_and_write_too_large:
  assumes "alloc_inv A" and "ba_max_data A < length data"
  shows "allocate_and_write pf A data = Inr (None, A)"
  using assms by (simp add: allocate_and_write_def alloc_inv_def pool_block_size_def)

lemma allocate_and_write_exhausted:
  assumes "alloc_inv A" and "allocate (ba_pool A) = None"
  shows "allocate_and_write pf A data = Inr (None, A)"
  using assms by (simp add: allocate_and_write_def alloc_inv_def pool_block_size_def)

lemma allocate_and_write_fits:
  assumes "alloc_inv A" and "length data \<le> ba_max_data A" and "allocate (ba_pool A) = Some (h, p1)"
  obtains old p2 where "get_slice p1 h = Inr old" and "length old = mp_block_size (ba_pool A)"
    and "pool_store p1 h (block_image pf data (ba_generation A) old) = Inr p2"
    and "allocate_and_write pf A data =
      Inr (Some (location_of A h (ba_generation A), h), A\<lparr>ba_pool := p2, ba_generation := ba_generation A + 1\<rparr>)"
proof -
  have inv: "pool_inv (ba_pool A)" and hs: "HEADER_SIZE \<le> mp_block_size (ba_pool A)"
    using assms(1) by (auto simp: alloc_inv_def)
  note p1 = mp.al_Some [OF inv assms(3)]
  then obtain old put where m: "get_slice_mut p1 h = Inr (old, put)" and l: "length old = mp_block_size p1"
    using get_slice_mut_live [of p1 h] by blast
  define img where "img = block_image pf data (ba_generation A) old"
  have "HEADER_SIZE + length data \<le> length old" using assms(2) hs l p1 by simp
  then have img: "seg_write HEADER_SIZE data (header_bytes pf (header_new pf data (ba_generation A)) @
      drop HEADER_SIZE old) = img"
    by (simp add: img_def block_image_def seg_write_def add.commute)
  have "allocate_and_write pf A data =
      Inr (Some (location_of A h (ba_generation A), h), A\<lparr>ba_pool := put img, ba_generation := ba_generation A + 1\<rparr>)"
    using assms hs l p1 m img
    by (simp add: allocate_and_write_def pool_block_size_def write_to_def Let_def location_of_def)
  then show ?thesis
    using that get_slice_mut_Inr [OF m] l p1 by (simp add: img_def)
qed

lemma read_verified_image:
  assumes "get_slice (ba_pool A) h = Inr (block_image pf data gen old)"
    and "HEADER_SIZE + length data \<le> length old"
  shows "read_verified pf A h =
    (let d = take (length data mod 2 ^ 32) data
     in Inr (if crc32_of pf d = crc32_of pf data then Some d else None))"
proof -
  define k where "k = length data mod 2 ^ 32"
  have k: "k \<le> length data" by (simp add: k_def)
  have u: "unat (of_nat (length data) :: u32) = k" by (simp add: unat_of_nat k_def)
  have rd: "read_from (block_image pf data gen old) = Some (header_new pf data gen)"
    by (simp add: block_image_def)
  have sg: "seg HEADER_SIZE k (block_image pf data gen old) = take k data"
    using k by (simp add: block_image_def seg_def)
  show ?thesis
    unfolding Let_def k_def [symmetric]
    using assms k length_block_image [OF assms(2), of pf gen]
    by (simp add: read_verified_def rd u sg header_verify_def Let_def)
qed

lemma allocate_and_write_inv:
  assumes "alloc_inv A" and "allocate_and_write pf A data = Inr (r, A')"
  shows "alloc_inv A' \<and> ba_live A' = ba_live A \<union> (case r of None \<Rightarrow> {} | Some (_, h) \<Rightarrow> {h}) \<and>
         (\<forall>h \<in> ba_live A. get_slice (ba_pool A') h = get_slice (ba_pool A) h)"
proof (cases "length data \<le> ba_max_data A \<and> allocate (ba_pool A) \<noteq> None")
  case False
  then have "allocate_and_write pf A data = Inr (None, A)"
    using allocate_and_write_too_large [OF assms(1)] allocate_and_write_exhausted [OF assms(1)]
    by (metis not_le)
  then show ?thesis using assms by simp
next
  case True
  then obtain h p1 where al: "allocate (ba_pool A) = Some (h, p1)" by auto
  obtain old p2 where w: "get_slice p1 h = Inr old" "length old = mp_block_size (ba_pool A)"
      "pool_store p1 h (block_image pf data (ba_generation A) old) = Inr p2"
      "allocate_and_write pf A data =
        Inr (Some (location_of A h (ba_generation A), h), A\<lparr>ba_pool := p2, ba_generation := ba_generation A + 1\<rparr>)"
    using allocate_and_write_fits [OF assms(1) _ al] True by blast
  have inv: "pool_inv (ba_pool A)" and hs: "HEADER_SIZE \<le> mp_block_size (ba_pool A)"
    using assms(1) by (auto simp: alloc_inv_def)
  note p1 = mp.al_Some [OF inv al]
  have len: "length (block_image pf data (ba_generation A) old) = mp_block_size p1"
    using True hs w(2) p1 by (subst length_block_image) auto
  note p2 = mp.st_Inr [OF _ _ len w(3)]
  have "get_slice p2 h' = get_slice (ba_pool A) h'" if "h' \<in> ba_live A" for h'
    using mp.st_frame [OF _ _ len w(3), of h'] mp.al_frame [OF inv al, of h'] p1 that by auto
  moreover have "A' = A\<lparr>ba_pool := p2, ba_generation := ba_generation A + 1\<rparr>" "r = Some (location_of A h (ba_generation A), h)"
    using assms(2) w(4) by auto
  ultimately show ?thesis using p1 p2 hs by (auto simp: alloc_inv_def)
qed

lemma allocate_and_write_outcome:
  assumes "alloc_inv A"
  obtains (none) "allocate_and_write pf A data = Inr (None, A)"
      "ba_max_data A < length data \<or> card (ba_live A) = mp_total_blocks (ba_pool A)"
    | (some) h A' where "allocate_and_write pf A data = Inr (Some (location_of A h (ba_generation A), h), A')"
      "ba_generation A' = ba_generation A + 1" "length data \<le> ba_max_data A"
      "card (ba_live A) \<noteq> mp_total_blocks (ba_pool A)"
proof (cases "length data \<le> ba_max_data A \<and> allocate (ba_pool A) \<noteq> None")
  case False
  have "allocate_and_write pf A data = Inr (None, A)"
    using False allocate_and_write_too_large [OF assms] allocate_and_write_exhausted [OF assms]
    by (metis not_le)
  then show ?thesis
    using none False mp.al_None [of "ba_pool A"] assms by (auto simp: alloc_inv_def not_le)
next
  case True
  then obtain h p1 where "allocate (ba_pool A) = Some (h, p1)" by auto
  from allocate_and_write_fits [OF assms _ this, of data pf] True obtain p2 where
    "allocate_and_write pf A data =
      Inr (Some (location_of A h (ba_generation A), h), A\<lparr>ba_pool := p2, ba_generation := ba_generation A + 1\<rparr>)"
    by blast
  then show ?thesis
    using some True mp.al_None [of "ba_pool A"] assms by (auto simp: alloc_inv_def)
qed

lemma write_all_generations:
  assumes "alloc_inv A"
  shows "\<exists>gs A'. write_all pf A ds = Inr (gs, A') \<and> alloc_inv A' \<and>
           gs = map (\<lambda>k. ba_generation A + of_nat k) [0..<length gs] \<and>
           ba_generation A' = ba_generation A + of_nat (length gs)"
  using assms
proof (induction ds arbitrary: A)
  case Nil
  then show ?case by simp
next
  case (Cons d ds)
  from Cons.prems show ?case
  proof (cases rule: allocate_and_write_outcome [of A pf d])
    case none
    then show ?thesis using Cons by simp
  next
    case (some h A1)
    have A1: "alloc_inv A1" using allocate_and_write_inv [OF Cons.prems some(1)] by simp
    obtain gs A' where gs: "write_all pf A1 ds = Inr (gs, A')" "alloc_inv A'"
        "gs = map (\<lambda>k. ba_generation A1 + of_nat k) [0..<length gs]"
        "ba_generation A' = ba_generation A1 + of_nat (length gs)"
      using Cons.IH [OF A1] by blast
    have "gs = map (\<lambda>k. ba_generation A + of_nat (Suc k)) [0..<length gs]"
      using gs(3) some(2) by (simp add: add.assoc)
    then have "ba_generation A # gs =
        map (\<lambda>k. ba_generation A + of_nat k) [0..<length (ba_generation A # gs)]"
      by (simp add: map_upt_Suc del: upt_Suc)
    then show ?thesis using gs some(1,2) by (auto simp: location_of_def)
  qed
qed

lemma distinct_word_range:
  "n \<le> 2 ^ LENGTH('a) \<Longrightarrow> distinct (map (\<lambda>k. g + (of_nat k :: 'a::len word)) [0..<n])"
  by (auto simp: distinct_map inj_on_def word_of_nat_eq_iff take_bit_nat_eq_self)

lemma ba_deallocate_Inr:
  "ba_deallocate A h = Inr A' \<longleftrightarrow> (\<exists>p. deallocate (ba_pool A) h = Inr p \<and> A' = A\<lparr>ba_pool := p\<rparr>)"
  by (auto simp: ba_deallocate_def)

lemma ba_deallocate_inv:
  assumes "alloc_inv A" and "h \<in> ba_live A" and "ba_deallocate A h = Inr A'"
  shows "alloc_inv A' \<and> ba_live A' = ba_live A - {h} \<and> ba_generation A' = ba_generation A \<and>
         get_slice (ba_pool A') h' = get_slice (ba_pool A) h'"
proof -
  obtain p where p: "deallocate (ba_pool A) h = Inr p" "A' = A\<lparr>ba_pool := p\<rparr>"
    using assms(3) by (auto simp: ba_deallocate_Inr)
  have inv: "pool_inv (ba_pool A)" using assms(1) by (simp add: alloc_inv_def)
  show ?thesis
    using mp.de_Inr [OF inv assms(2) p(1)] mp.de_frame [OF inv assms(2) p(1)] assms(1) p(2)
    by (simp add: alloc_inv_def)
qed

lemma ba_deallocate_total: "alloc_inv A \<Longrightarrow> h \<in> ba_live A \<Longrightarrow> \<exists>A'. ba_deallocate A h = Inr A'"
  using mp.de_total [of "ba_pool A" h] by (auto simp: ba_deallocate_def alloc_inv_def)

lemma read_verified_cong:
  "get_slice (ba_pool A') h = get_slice (ba_pool A) h \<Longrightarrow> read_verified pf A' h = read_verified pf A h"
  by (simp add: read_verified_def)

lemma alloc_step_keeps:
  assumes "alloc_step pf h A A'" and "alloc_inv A" and "h \<in> ba_live A"
  shows "alloc_inv A' \<and> h \<in> ba_live A' \<and> read_verified pf A' h = read_verified pf A h"
  using assms(1)
proof (rule alloc_stepE)
  fix data r
  assume "allocate_and_write pf A data = Inr (r, A')"
  from allocate_and_write_inv [OF assms(2) this] assms(3) show ?thesis
    by (auto intro: read_verified_cong)
next
  fix h'
  assume "h' \<in> ba_live A" and "h' \<noteq> h" and "ba_deallocate A h' = Inr A'"
  with ba_deallocate_inv [OF assms(2)] assms(3) show ?thesis
    by (auto intro: read_verified_cong)
qed

lemma alloc_steps_keep:
  assumes "(alloc_step pf h)\<^sup>*\<^sup>* A A'" and "alloc_inv A" and "h \<in> ba_live A"
  shows "alloc_inv A' \<and> h \<in> ba_live A' \<and> read_verified pf A' h = read_verified pf A h"
  using assms by (induction rule: rtranclp_induct) (auto dest: alloc_step_keeps)

section \<open>The contract of a store of verified blocks\<close>

text \<open>What never changes about an allocator: its node, and identity and geometry of its pool.\<close>

definition geometry :: "block_allocator \<Rightarrow> u32 \<times> u32 \<times> usize \<times> usize \<times> usize" where
  "geometry A =
     (ba_node_id A, mp_pool_id (ba_pool A), mp_block_size (ba_pool A), mp_total_blocks (ba_pool A),
      mp_total_size (ba_pool A))"

text \<open>Blocks whose data length fits the 32-bit field of the header.\<close>

definition store_inv :: "block_allocator \<Rightarrow> bool" where
  "store_inv A \<longleftrightarrow> alloc_inv A \<and> ba_max_data A < 2 ^ 32"

locale verified_store =
  fixes wr :: "'a \<Rightarrow> bytes \<Rightarrow> (('l \<times> 'h) option \<times> 'a) res"
    and rd :: "'a \<Rightarrow> 'h \<Rightarrow> (bytes option) res"
    and de :: "'a \<Rightarrow> 'h \<Rightarrow> 'a res"
    and live :: "'a \<Rightarrow> 'h set"
    and cap :: "'a \<Rightarrow> usize"
    and room :: "'a \<Rightarrow> usize"
    and geom :: "'a \<Rightarrow> 'g"
    and loc :: "'a \<Rightarrow> 'h \<Rightarrow> 'l"
    and gen :: "'a \<Rightarrow> u64"
    and inv :: "'a \<Rightarrow> bool"
  assumes live_ok: "inv a \<Longrightarrow> finite (live a) \<and> card (live a) \<le> cap a"
    and wr_None: "inv a \<Longrightarrow> room a < length d \<or> card (live a) = cap a \<Longrightarrow> wr a d = Inr (None, a)"
    and wr_Some: "inv a \<Longrightarrow> length d \<le> room a \<Longrightarrow> card (live a) < cap a \<Longrightarrow>
      \<exists>h a'. wr a d = Inr (Some (loc a h, h), a') \<and> inv a' \<and> h \<notin> live a \<and> live a' = insert h (live a) \<and>
        geom a' = geom a \<and> gen a' = gen a + 1 \<and> rd a' h = Inr (Some d) \<and> (\<forall>h' \<in> live a. rd a' h' = rd a h')"
    and de_ok: "inv a \<Longrightarrow> h \<in> live a \<Longrightarrow>
      \<exists>a'. de a h = Inr a' \<and> inv a' \<and> live a' = live a - {h} \<and> geom a' = geom a \<and> gen a' = gen a \<and>
        (\<forall>h'. rd a' h' = rd a h')"
    and cap_geom: "geom a = geom a' \<Longrightarrow> cap a = cap a'"
begin

lemma wr_cases:
  assumes "inv a"
  obtains (full) "wr a d = Inr (None, a)" "room a < length d \<or> card (live a) = cap a"
    | (stored) h a' where "wr a d = Inr (Some (loc a h, h), a')" "length d \<le> room a" "card (live a) < cap a" "inv a'"
        "h \<notin> live a" "live a' = insert h (live a)" "geom a' = geom a" "gen a' = gen a + 1" "rd a' h = Inr (Some d)"
        "\<forall>h' \<in> live a. rd a' h' = rd a h'"
proof (cases "room a < length d \<or> card (live a) = cap a")
  case True
  then show ?thesis using full wr_None [OF assms] by blast
next
  case False
  then have "length d \<le> room a" "card (live a) < cap a" using live_ok [OF assms] by auto
  from wr_Some [OF assms this] show ?thesis using stored [OF _ \<open>length d \<le> room a\<close> \<open>card (live a) < cap a\<close>] by blast
qed

text \<open>A write followed by the release of the block leaves all other blocks as they were.\<close>

lemma wr_de:
  assumes "inv a" and "wr a d = Inr (Some (l, h), a1)"
  shows "\<exists>a2. de a1 h = Inr a2 \<and> inv a2 \<and> live a2 = live a \<and> (\<forall>h' \<in> live a. rd a2 h' = rd a h')"
proof -
  obtain h1 a1' where w: "wr a d = Inr (Some (loc a h1, h1), a1')" "inv a1'" "h1 \<notin> live a"
      "live a1' = insert h1 (live a)" "\<forall>h' \<in> live a. rd a1' h' = rd a h'"
    using wr_cases [OF assms(1), of d] assms(2) by (metis Inr_inject Pair_inject option.distinct(1))
  have eq: "h1 = h" "a1' = a1" using w(1) assms(2) by simp_all
  obtain a2 where "de a1 h = Inr a2" "inv a2" "live a2 = live a1 - {h}" "\<forall>h'. rd a2 h' = rd a1 h'"
    using de_ok [of a1 h] w(2,4) eq by auto
  then show ?thesis using w(3,4,5) eq by auto
qed

end

lemma allocate_geometry: "allocate p = Some (h, p') \<Longrightarrow> geometry (A\<lparr>ba_pool := p'\<rparr>) = geometry (A\<lparr>ba_pool := p\<rparr>)"
  by (auto simp: allocate_def geometry_def Let_def split: option.splits)

lemma pool_store_geometry: "pool_store p h bs = Inr p' \<Longrightarrow> geometry (A\<lparr>ba_pool := p'\<rparr>) = geometry (A\<lparr>ba_pool := p\<rparr>)"
  by (auto simp: pool_store_def get_slice_mut_def geometry_def split: if_splits)

lemma deallocate_geometry: "ba_deallocate A h = Inr A' \<Longrightarrow> geometry A' = geometry A"
  by (auto simp: ba_deallocate_def deallocate_def geometry_def split: if_splits)

lemma store_inv_geometry: "geometry A' = geometry A \<Longrightarrow> alloc_inv A' \<Longrightarrow> store_inv A \<Longrightarrow> store_inv A'"
  by (simp add: store_inv_def geometry_def)

lemma allocate_and_write_readable:
  assumes "alloc_inv A" and "length data \<le> ba_max_data A" and "length data < 2 ^ 32"
    and "allocate (ba_pool A) \<noteq> None"
  obtains h A' where "allocate_and_write pf A data = Inr (Some (location_of A h (ba_generation A), h), A')"
    and "alloc_inv A'" and "h \<notin> ba_live A" and "ba_live A' = insert h (ba_live A)" and "geometry A' = geometry A"
    and "ba_generation A' = ba_generation A + 1" and "read_verified pf A' h = Inr (Some data)"
    and "\<forall>h' \<in> ba_live A. read_verified pf A' h' = read_verified pf A h'"
proof -
  obtain h p1 where al: "allocate (ba_pool A) = Some (h, p1)" using assms(4) by auto
  obtain old p2 where w: "get_slice p1 h = Inr old" "length old = mp_block_size (ba_pool A)"
      "pool_store p1 h (block_image pf data (ba_generation A) old) = Inr p2"
      "allocate_and_write pf A data =
        Inr (Some (location_of A h (ba_generation A), h), A\<lparr>ba_pool := p2, ba_generation := ba_generation A + 1\<rparr>)"
    using allocate_and_write_fits [OF assms(1,2) al] by blast
  define A' where "A' = A\<lparr>ba_pool := p2, ba_generation := ba_generation A + 1\<rparr>"
  have inv: "pool_inv (ba_pool A)" and hs: "HEADER_SIZE \<le> mp_block_size (ba_pool A)"
    using assms(1) by (auto simp: alloc_inv_def)
  note p1 = mp.al_Some [OF inv al]
  have len: "HEADER_SIZE + length data \<le> length old" using assms(2) hs w(2) by simp
  have "get_slice p2 h = Inr (block_image pf data (ba_generation A) old)"
    using mp.st_Inr [OF _ _ _ w(3)] length_block_image [OF len] w(2) p1 by simp
  then have rd: "read_verified pf A' h = Inr (Some data)"
    using read_verified_image [of A' h pf data "ba_generation A" old] len assms(3)
    by (simp add: A'_def Let_def)
  have "geometry A' = geometry A"
    using allocate_geometry [OF al, of A] pool_store_geometry [OF w(3), of A] by (simp add: A'_def geometry_def)
  moreover have inv': "alloc_inv A'" "ba_live A' = insert h (ba_live A)"
      "\<forall>h' \<in> ba_live A. get_slice (ba_pool A') h' = get_slice (ba_pool A) h'"
    using allocate_and_write_inv [OF assms(1) w(4) [folded A'_def]] by simp_all
  moreover have "\<forall>h' \<in> ba_live A. read_verified pf A' h' = read_verified pf A h'"
    using inv'(3) read_verified_cong by blast
  moreover have "h \<notin> ba_live A" using p1 by simp
  moreover have "ba_generation A' = ba_generation A + 1" by (simp add: A'_def)
  ultimately show ?thesis using that [OF w(4) [folded A'_def]] rd by blast
qed

interpretation ba: verified_store "allocate_and_write pf" "read_verified pf" ba_deallocate "\<lambda>A. ba_live A"
  "\<lambda>A. mp_total_blocks (ba_pool A)" "\<lambda>A. ba_max_data A" geometry "\<lambda>A h. location_of A h (ba_generation A)"
  ba_generation store_inv
  for pf
proof unfold_locales
  fix A d
  assume inv: "store_inv A"
  then have ai: "alloc_inv A" and pi: "pool_inv (ba_pool A)" by (simp_all add: store_inv_def alloc_inv_def)
  show "finite (ba_live A) \<and> card (ba_live A) \<le> mp_total_blocks (ba_pool A)"
    using mp.live_le_cap [OF pi] by simp
  show "allocate_and_write pf A d = Inr (None, A)"
    if "ba_max_data A < length d \<or> card (ba_live A) = mp_total_blocks (ba_pool A)"
    using that allocate_and_write_too_large [OF ai] allocate_and_write_exhausted [OF ai] mp.al_None [OF pi] by blast
  show "\<exists>h A'. allocate_and_write pf A d = Inr (Some (location_of A h (ba_generation A), h), A') \<and> store_inv A' \<and>
      h \<notin> ba_live A \<and> ba_live A' = insert h (ba_live A) \<and> geometry A' = geometry A \<and>
      ba_generation A' = ba_generation A + 1 \<and> read_verified pf A' h = Inr (Some d) \<and> (\<forall>h' \<in> ba_live A. read_verified pf A' h' = read_verified pf A h')"
    if "length d \<le> ba_max_data A" "card (ba_live A) < mp_total_blocks (ba_pool A)"
  proof -
    have d: "length d < 2 ^ 32" using that(1) inv by (simp add: store_inv_def)
    have av: "allocate (ba_pool A) \<noteq> None" using mp.al_None [OF pi] that(2) by simp
    note fits = that(1)
    obtain h A' where "allocate_and_write pf A d = Inr (Some (location_of A h (ba_generation A), h), A')"
        "alloc_inv A'" "h \<notin> ba_live A" "ba_live A' = insert h (ba_live A)" "geometry A' = geometry A"
        "ba_generation A' = ba_generation A + 1" "read_verified pf A' h = Inr (Some d)" "\<forall>h' \<in> ba_live A. read_verified pf A' h' = read_verified pf A h'"
      using allocate_and_write_readable [OF ai fits d av] by metis
    then show ?thesis using store_inv_geometry inv by blast
  qed
  show "\<exists>A'. ba_deallocate A h = Inr A' \<and> store_inv A' \<and> ba_live A' = ba_live A - {h} \<and> geometry A' = geometry A \<and>
      ba_generation A' = ba_generation A \<and> (\<forall>h'. read_verified pf A' h' = read_verified pf A h')" if "h \<in> ba_live A" for h
  proof -
    note h = that
    obtain A' where A': "ba_deallocate A h = Inr A'" using ba_deallocate_total [OF ai h] by blast
    then show ?thesis
      using ba_deallocate_inv [OF ai h A'] deallocate_geometry [OF A'] store_inv_geometry inv
        read_verified_cong by metis
  qed
qed (simp add: geometry_def)

section \<open>Properties\<close>

definition demo_alloc :: block_allocator where
  "demo_alloc = allocator_new demo_pool 7"

lemma demo_alloc_inv: "alloc_inv demo_alloc"
  using demo_pool_inv
  by (simp add: alloc_inv_def demo_alloc_def allocator_new_def HEADER_SIZE_def demo_pool_def)

lemma demo_alloc_ready: "allocate (ba_pool demo_alloc) \<noteq> None"
  by (simp add: demo_alloc_def allocator_new_def allocate_def demo_pool_def vec_pop_def)

text \<open>C27: Write-then-read round trip. If the data fits a block and is shorter than 4 GiB and a block is
  free, \<open>allocate_and_write\<close> succeeds: it takes a block nobody owned, stamps it with the current
  generation, counts the generation up, and the returned location describes the returned
  handle. Reading the block back returns the data, and goes on doing so after any sequence of
  further writes and of returns of other blocks.\<close>

theorem write_then_read:
  assumes "alloc_inv A" and "length data \<le> ba_max_data A" and "length data < 2 ^ 32"
    and "allocate (ba_pool A) \<noteq> None"
  shows "\<exists>loc h A'. allocate_and_write pf A data = Inr (Some (loc, h), A') \<and> alloc_inv A' \<and>
           h \<notin> ba_live A \<and> ba_live A' = insert h (ba_live A) \<and>
           loc = location_of A h (ba_generation A) \<and> ba_generation A' = ba_generation A + 1 \<and>
           (\<forall>A''. (alloc_step pf h)\<^sup>*\<^sup>* A' A'' \<longrightarrow> read_verified pf A'' h = Inr (Some data))"
proof -
  obtain h A' where w: "allocate_and_write pf A data = Inr (Some (location_of A h (ba_generation A), h), A')"
      "alloc_inv A'" "h \<notin> ba_live A" "ba_live A' = insert h (ba_live A)" "ba_generation A' = ba_generation A + 1"
      "read_verified pf A' h = Inr (Some data)"
    using allocate_and_write_readable [OF assms] by metis
  have "read_verified pf A'' h = Inr (Some data)" if "(alloc_step pf h)\<^sup>*\<^sup>* A' A''" for A''
    using alloc_steps_keep [OF that] w by simp
  then show ?thesis using w by blast
qed

theorem write_then_read_witness:
  "\<exists>loc h A'. allocate_and_write demo_pf demo_alloc [1, 2, 3] = Inr (Some (loc, h), A') \<and>
     read_verified demo_pf A' h = Inr (Some [1, 2, 3])"
proof -
  have "length [1, 2, 3 :: u8] \<le> ba_max_data demo_alloc"
    by (simp add: demo_alloc_def allocator_new_def demo_pool_def HEADER_SIZE_def)
  from write_then_read [OF demo_alloc_inv this _ demo_alloc_ready, of demo_pf] show ?thesis
    by fastforce
qed

text \<open>With blocks large enough for a header, \<open>allocate_and_write\<close> never panics. It returns
  \<open>None\<close> exactly when the data does not fit behind the header or every block is owned, and
  then nothing has changed, the generation counter included. In every case blocks owned
  before stay owned and keep their contents.\<close>

lemma write_total:
  assumes "alloc_inv A"
  shows "\<exists>r A'. allocate_and_write pf A data = Inr (r, A') \<and> alloc_inv A' \<and>
           (r = None \<longleftrightarrow> ba_max_data A < length data \<or> card (ba_live A) = mp_total_blocks (ba_pool A)) \<and>
           (r = None \<longrightarrow> A' = A) \<and>
           (\<forall>h \<in> ba_live A. h \<in> ba_live A' \<and> read_verified pf A' h = read_verified pf A h)"
proof -
  have keeps: "h \<in> ba_live A' \<and> read_verified pf A' h = read_verified pf A h"
    if "allocate_and_write pf A data = Inr (r, A')" "h \<in> ba_live A" for r A' h
    using allocate_and_write_inv [OF assms that(1)] that(2) by (auto intro: read_verified_cong)
  from assms show ?thesis
  proof (cases rule: allocate_and_write_outcome [of A pf data])
    case none
    then show ?thesis using assms by auto
  next
    case (some h A')
    then show ?thesis using allocate_and_write_inv [OF assms some(1)] keeps [OF some(1)] by auto
  qed
qed

text \<open>Reading an owned block never panics, and data is returned only if it passes the checksum in
  the block's header: the bytes behind the header, as many as the header says, never reaching
  over the end of the block.\<close>

lemma read_verified_sound:
  assumes "alloc_inv A" and "h \<in> ba_live A"
  shows "\<exists>r slice hdr. read_verified pf A h = Inr r \<and> get_slice (ba_pool A) h = Inr slice \<and>
           read_from slice = Some hdr \<and>
           (\<forall>d. r = Some d \<longleftrightarrow>
              HEADER_SIZE + unat (hdr_data_size hdr) \<le> length slice \<and>
              d = seg HEADER_SIZE (unat (hdr_data_size hdr)) slice \<and> crc32_of pf d = hdr_crc32 hdr)"
proof -
  obtain slice where s: "get_slice (ba_pool A) h = Inr slice" "length slice = mp_block_size (ba_pool A)"
    using mp.sl_total [OF _ assms(2)] assms(1) by (auto simp: alloc_inv_def)
  then obtain hdr where "read_from slice = Some hdr"
    using assms(1) by (auto simp: read_from_def alloc_inv_def)
  with s show ?thesis by (auto simp: read_verified_def header_verify_def Let_def)
qed

text \<open>Generations identify writes: in any sequence of writes the successful ones are numbered
  consecutively from the current counter, so no generation repeats within \<open>2 ^ 64\<close>
  successful writes.\<close>

lemma generations_unique:
  assumes "alloc_inv A"
  shows "\<exists>gs A'. write_all pf A ds = Inr (gs, A') \<and> alloc_inv A' \<and>
           gs = map (\<lambda>k. ba_generation A + of_nat k) [0..<length gs] \<and>
           ba_generation A' = ba_generation A + of_nat (length gs) \<and>
           (length gs \<le> 2 ^ 64 \<longrightarrow> distinct gs)"
proof -
  obtain gs A' where "write_all pf A ds = Inr (gs, A')" "alloc_inv A'"
      and gs: "gs = map (\<lambda>k. ba_generation A + of_nat k) [0..<length gs]"
      and "ba_generation A' = ba_generation A + of_nat (length gs)"
    using write_all_generations [OF assms] by blast
  moreover have "length gs \<le> 2 ^ 64 \<longrightarrow> distinct gs"
    by (subst (2) gs) (rule impI, rule distinct_word_range, simp)
  ultimately show ?thesis by blast
qed

text \<open>Blocks smaller than the 24-byte header, which the configuration accepts, make every write
  fail: with overflow checks the capacity computation panics; without them it wraps around, a
  free block is taken and the header slice panics. No write ever succeeds.\<close>

lemma tiny_blocks_never_write:
  assumes "pool_inv (ba_pool A)" and "mp_block_size (ba_pool A) < HEADER_SIZE"
  shows "(\<nexists>x A'. allocate_and_write pf A data = Inr (Some x, A')) \<and>
         (overflow_checks pf \<longrightarrow> allocate_and_write pf A data = Inl SubtractOverflow) \<and>
         (\<not> overflow_checks pf \<and> allocate (ba_pool A) \<noteq> None \<and> length data < 2 ^ 63 \<longrightarrow>
            allocate_and_write pf A data = Inl SliceOutOfRange)"
proof (cases "overflow_checks pf")
  case True
  then show ?thesis
    using assms(2) by (simp add: allocate_and_write_def usize_sub_def pool_block_size_def)
next
  case False
  have sz: "usize_sub False (mp_block_size (ba_pool A)) HEADER_SIZE =
      Inr (mp_block_size (ba_pool A) + 2 ^ 64 - HEADER_SIZE)"
    using assms(2) by (simp add: usize_sub_def)
  have fails: "allocate_and_write pf A data = Inl SliceOutOfRange"
    if "allocate (ba_pool A) = Some (h, p1)"
      "length data \<le> mp_block_size (ba_pool A) + 2 ^ 64 - HEADER_SIZE" for h p1
  proof -
    note p1 = mp.al_Some [OF assms(1) that(1)]
    then obtain cur put where "get_slice_mut p1 h = Inr (cur, put)" "length cur = mp_block_size p1"
      using get_slice_mut_live [of p1 h] by blast
    then show ?thesis
      using False that sz assms(2) p1
      by (simp add: allocate_and_write_def pool_block_size_def Let_def)
  qed
  show ?thesis
  proof (cases "allocate (ba_pool A)")
    case None
    then show ?thesis
      using False sz by (simp add: allocate_and_write_def pool_block_size_def)
  next
    case (Some hp)
    then show ?thesis
      using False sz fails [of "fst hp" "snd hp"]
      by (cases "length data \<le> mp_block_size (ba_pool A) + 2 ^ 64 - HEADER_SIZE")
        (auto simp: allocate_and_write_def pool_block_size_def HEADER_SIZE_def)
  qed
qed

end
