(* ===== verification/LruPolicy.thy ===== *)
theory LruPolicy
  imports CmxPrelude
begin

text \<open>
  The LRU eviction tracker of \<^verbatim>\<open>crates/cmx-block-store/src/eviction.rs\<close>: a doubly linked list
  threaded through a slab (\<open>Vec\<close>) of entries by slab indices, with a stack of free slots and
  a hash map from key to slot. Every operation runs under one mutex, so one definition is
  one atomic step. Slab accesses that would panic are faults.

  The abstract view of a tracker is \<open>lru_order\<close>: the tracked keys, most recently used first.
  \<open>recency_policy\<close> is the contract the block index relies on, stated on that view; the
  interpretation \<open>lru\<close> shows that the linked slab implements it.
\<close>

section \<open>State and operations\<close>

record lru_entry =
  le_prefix_hash :: hash16
  le_prev :: "usize option"
  le_next :: "usize option"

record lru_inner =
  lru_entries :: "lru_entry list"
  lru_free_indices :: "usize list"
  lru_index :: "(hash16, usize) hmap"
  lru_head :: "usize option"
  lru_tail :: "usize option"

definition lru_new :: lru_inner where
  "lru_new = \<lparr>lru_entries = [], lru_free_indices = [], lru_index = fmempty,
              lru_head = None, lru_tail = None\<rparr>"

definition set_prev :: "usize \<Rightarrow> usize option \<Rightarrow> lru_inner \<Rightarrow> lru_inner res" where
  "set_prev i v s =
     rbind (vec_get (lru_entries s) i) (\<lambda>e.
     Inr (s\<lparr>lru_entries := (lru_entries s)[i := e\<lparr>le_prev := v\<rparr>]\<rparr>))"

definition set_next :: "usize \<Rightarrow> usize option \<Rightarrow> lru_inner \<Rightarrow> lru_inner res" where
  "set_next i v s =
     rbind (vec_get (lru_entries s) i) (\<lambda>e.
     Inr (s\<lparr>lru_entries := (lru_entries s)[i := e\<lparr>le_next := v\<rparr>]\<rparr>))"

definition alloc_entry :: "hash16 \<Rightarrow> lru_inner \<Rightarrow> (usize \<times> lru_inner) res" where
  "alloc_entry prefix_hash s =
     (let entry = \<lparr>le_prefix_hash = prefix_hash, le_prev = None, le_next = None\<rparr> in
      case vec_pop (lru_free_indices s) of
        Some (idx, free) \<Rightarrow>
          rbind (vec_set (lru_entries s) idx entry) (\<lambda>es.
          Inr (idx, s\<lparr>lru_free_indices := free, lru_entries := es\<rparr>))
      | None \<Rightarrow>
          let idx = length (lru_entries s)
          in Inr (idx, s\<lparr>lru_entries := lru_entries s @ [entry]\<rparr>))"

definition unlink :: "usize \<Rightarrow> lru_inner \<Rightarrow> lru_inner res" where
  "unlink idx s =
     rbind (vec_get (lru_entries s) idx) (\<lambda>e.
     let prev = le_prev e; nxt = le_next e in
     rbind (case prev of
              Some p \<Rightarrow> set_next p nxt s
            | None \<Rightarrow> Inr (s\<lparr>lru_head := nxt\<rparr>)) (\<lambda>s1.
     rbind (case nxt of
              Some n \<Rightarrow> set_prev n prev s1
            | None \<Rightarrow> Inr (s1\<lparr>lru_tail := prev\<rparr>)) (\<lambda>s2.
     rbind (set_prev idx None s2) (\<lambda>s3.
     set_next idx None s3))))"

definition push_front :: "usize \<Rightarrow> lru_inner \<Rightarrow> lru_inner res" where
  "push_front idx s =
     rbind (set_prev idx None s) (\<lambda>s1.
     rbind (set_next idx (lru_head s1) s1) (\<lambda>s2.
     rbind (case lru_head s2 of
              Some old_head \<Rightarrow> set_prev old_head (Some idx) s2
            | None \<Rightarrow> Inr s2) (\<lambda>s3.
     let s4 = s3\<lparr>lru_head := Some idx\<rparr> in
     Inr (if lru_tail s4 = None then s4\<lparr>lru_tail := Some idx\<rparr> else s4))))"

definition touch :: "hash16 \<Rightarrow> lru_inner \<Rightarrow> lru_inner res" where
  "touch prefix_hash s =
     (case fmlookup (lru_index s) prefix_hash of
        Some idx \<Rightarrow> rbind (unlink idx s) (\<lambda>s1. push_front idx s1)
      | None \<Rightarrow>
          rbind (alloc_entry prefix_hash s) (\<lambda>(idx, s1).
          rbind (push_front idx s1) (\<lambda>s2.
          Inr (s2\<lparr>lru_index := fmupd prefix_hash idx (lru_index s2)\<rparr>))))"

definition lru_remove :: "hash16 \<Rightarrow> lru_inner \<Rightarrow> lru_inner res" where
  "lru_remove prefix_hash s =
     (case fmlookup (lru_index s) prefix_hash of
        Some idx \<Rightarrow>
          rbind (unlink idx (s\<lparr>lru_index := fmdrop prefix_hash (lru_index s)\<rparr>)) (\<lambda>s1.
          Inr (s1\<lparr>lru_free_indices := lru_free_indices s1 @ [idx]\<rparr>))
      | None \<Rightarrow> Inr s)"

definition evict_lru :: "lru_inner \<Rightarrow> (hash16 option \<times> lru_inner) res" where
  "evict_lru s =
     (case lru_tail s of
        None \<Rightarrow> Inr (None, s)
      | Some tail_idx \<Rightarrow>
          rbind (vec_get (lru_entries s) tail_idx) (\<lambda>e.
          let hash = le_prefix_hash e in
          rbind (unlink tail_idx (s\<lparr>lru_index := fmdrop hash (lru_index s)\<rparr>)) (\<lambda>s1.
          Inr (Some hash, s1\<lparr>lru_free_indices := lru_free_indices s1 @ [tail_idx]\<rparr>))))"

definition lru_len :: "lru_inner \<Rightarrow> usize" where
  "lru_len s = hm_len (lru_index s)"

definition lru_is_empty :: "lru_inner \<Rightarrow> bool" where
  "lru_is_empty s \<longleftrightarrow> lru_len s = 0"

section \<open>Abstract view and invariant\<close>

text \<open>The slots reached from a slot through \<open>next\<close>; the first argument bounds the walk.\<close>

fun walk :: "usize \<Rightarrow> lru_entry list \<Rightarrow> usize option \<Rightarrow> usize list" where
  "walk 0 es c = []"
| "walk (Suc n) es None = []"
| "walk (Suc n) es (Some i) = (if i < length es then i # walk n es (le_next (es ! i)) else [])"

definition lru_order :: "lru_inner \<Rightarrow> hash16 list" where
  "lru_order s =
     map (\<lambda>i. le_prefix_hash (lru_entries s ! i))
       (walk (length (lru_entries s)) (lru_entries s) (lru_head s))"

definition ohd :: "'a list \<Rightarrow> 'a option \<Rightarrow> 'a option" where
  "ohd xs d = (case xs of [] \<Rightarrow> d | x # _ \<Rightarrow> Some x)"

definition olast :: "'a list \<Rightarrow> 'a option \<Rightarrow> 'a option" where
  "olast xs d = (if xs = [] then d else Some (last xs))"

text \<open>
  \<open>chain es p is q\<close>: the slots \<open>is\<close> are linked to each other in this order, in both
  directions, the first one's \<open>prev\<close> being \<open>p\<close> and the last one's \<open>next\<close> being \<open>q\<close>.
\<close>

fun chain :: "lru_entry list \<Rightarrow> usize option \<Rightarrow> usize list \<Rightarrow> usize option \<Rightarrow> bool" where
  "chain es p [] q \<longleftrightarrow> True"
| "chain es p (i # is) q \<longleftrightarrow>
     i < length es \<and> le_prev (es ! i) = p \<and> le_next (es ! i) = ohd is q \<and> chain es (Some i) is q"

definition linked :: "lru_inner \<Rightarrow> usize list \<Rightarrow> bool" where
  "linked s is \<longleftrightarrow>
     distinct is \<and> chain (lru_entries s) None is None \<and>
     lru_head s = ohd is None \<and> lru_tail s = olast is None"

definition lru_wf :: "lru_inner \<Rightarrow> usize list \<Rightarrow> bool" where
  "lru_wf s is \<longleftrightarrow>
     linked s is \<and> distinct (lru_free_indices s) \<and> set is \<inter> set (lru_free_indices s) = {} \<and>
     set is \<union> set (lru_free_indices s) = {..<length (lru_entries s)} \<and>
     (\<forall>k i. fmlookup (lru_index s) k = Some i \<longleftrightarrow> i \<in> set is \<and> le_prefix_hash (lru_entries s ! i) = k)"

definition lru_inv :: "lru_inner \<Rightarrow> bool" where
  "lru_inv s \<longleftrightarrow> (\<exists>is. lru_wf s is)"

text \<open>
  For the termination of the eviction loop, on any state: how many links the slab holds,
  whether the tail entry has links, and whether there is a tail.
\<close>

definition link_count :: "lru_inner \<Rightarrow> nat" where
  "link_count s =
     length (filter (\<lambda>e. le_prev e \<noteq> None) (lru_entries s)) +
     length (filter (\<lambda>e. le_next e \<noteq> None) (lru_entries s))"

definition tail_linked :: "lru_inner \<Rightarrow> nat" where
  "tail_linked s =
     (case lru_tail s of
        None \<Rightarrow> 0
      | Some t \<Rightarrow> of_bool (t < length (lru_entries s) \<and>
          (le_prev (lru_entries s ! t) \<noteq> None \<or> le_next (lru_entries s ! t) \<noteq> None)))"

definition has_tail :: "lru_inner \<Rightarrow> nat" where
  "has_tail s = of_bool (lru_tail s \<noteq> None)"

section \<open>The contract of a recency policy\<close>

datatype 'k policy_op = Touch 'k | Remove 'k | Evict

fun spec_op :: "'k list \<Rightarrow> 'k policy_op \<Rightarrow> 'k option \<times> 'k list" where
  "spec_op ks (Touch k) = (None, k # remove1 k ks)"
| "spec_op ks (Remove k) = (None, remove1 k ks)"
| "spec_op ks Evict = (if ks = [] then (None, []) else (Some (last ks), butlast ks))"

fun spec_run :: "'k list \<Rightarrow> 'k policy_op list \<Rightarrow> 'k option list \<times> 'k list" where
  "spec_run ks [] = ([], ks)"
| "spec_run ks (x # xs) =
     (let (o1, ks1) = spec_op ks x; (os, ks2) = spec_run ks1 xs in (o1 # os, ks2))"

fun policy_op_run ::
    "('k \<Rightarrow> 's \<Rightarrow> 's res) \<Rightarrow> ('k \<Rightarrow> 's \<Rightarrow> 's res) \<Rightarrow> ('s \<Rightarrow> ('k option \<times> 's) res) \<Rightarrow>
     's \<Rightarrow> 'k policy_op \<Rightarrow> ('k option \<times> 's) res" where
  "policy_op_run tc rm ev s (Touch k) = rbind (tc k s) (\<lambda>s1. Inr (None, s1))"
| "policy_op_run tc rm ev s (Remove k) = rbind (rm k s) (\<lambda>s1. Inr (None, s1))"
| "policy_op_run tc rm ev s Evict = ev s"

fun policy_run ::
    "('k \<Rightarrow> 's \<Rightarrow> 's res) \<Rightarrow> ('k \<Rightarrow> 's \<Rightarrow> 's res) \<Rightarrow> ('s \<Rightarrow> ('k option \<times> 's) res) \<Rightarrow>
     's \<Rightarrow> 'k policy_op list \<Rightarrow> ('k option list \<times> 's) res" where
  "policy_run tc rm ev s [] = Inr ([], s)"
| "policy_run tc rm ev s (x # xs) =
     rbind (policy_op_run tc rm ev s x) (\<lambda>(o1, s1).
     rbind (policy_run tc rm ev s1 xs) (\<lambda>(os, s2). Inr (o1 # os, s2)))"

locale recency_policy =
  fixes tc :: "'k \<Rightarrow> 's \<Rightarrow> 's res"
    and rm :: "'k \<Rightarrow> 's \<Rightarrow> 's res"
    and ev :: "'s \<Rightarrow> ('k option \<times> 's) res"
    and count :: "'s \<Rightarrow> usize"
    and order :: "'s \<Rightarrow> 'k list"
    and inv :: "'s \<Rightarrow> bool"
    and new :: 's
  assumes new_ok: "inv new \<and> order new = []"
    and distinct_order: "inv s \<Longrightarrow> distinct (order s)"
    and count_order: "inv s \<Longrightarrow> count s = length (order s)"
    and tc_ok: "inv s \<Longrightarrow> \<exists>s'. tc k s = Inr s' \<and> inv s' \<and> order s' = k # remove1 k (order s)"
    and rm_ok: "inv s \<Longrightarrow> \<exists>s'. rm k s = Inr s' \<and> inv s' \<and> order s' = remove1 k (order s)"
    and ev_None: "inv s \<Longrightarrow> order s = [] \<Longrightarrow> ev s = Inr (None, s)"
    and ev_Some: "inv s \<Longrightarrow> order s = ks @ [k] \<Longrightarrow> \<exists>s'. ev s = Inr (Some k, s') \<and> inv s' \<and> order s' = ks"
begin

lemma op_refines:
  assumes "inv s"
  shows "\<exists>s'. policy_op_run tc rm ev s x = Inr (fst (spec_op (order s) x), s') \<and> inv s' \<and>
              order s' = snd (spec_op (order s) x)"
proof (cases x)
  case Evict
  show ?thesis
  proof (cases "order s" rule: rev_cases)
    case Nil
    then show ?thesis using Evict assms ev_None by simp
  next
    case (snoc ks k)
    then show ?thesis using Evict ev_Some [OF assms snoc] by simp
  qed
qed (use assms tc_ok rm_ok in force)+

lemma run_refines:
  assumes "inv s"
  shows "\<exists>s'. policy_run tc rm ev s xs = Inr (fst (spec_run (order s) xs), s') \<and> inv s' \<and>
              order s' = snd (spec_run (order s) xs)"
  using assms
proof (induction xs arbitrary: s)
  case Nil
  then show ?case by simp
next
  case (Cons x xs)
  obtain s1 where s1: "policy_op_run tc rm ev s x = Inr (fst (spec_op (order s) x), s1)" "inv s1"
      "order s1 = snd (spec_op (order s) x)"
    using op_refines [OF Cons.prems] by blast
  then show ?case using Cons.IH [OF s1(2)] by (auto simp: split_beta Let_def)
qed

lemma run_from_new:
  "\<exists>s'. policy_run tc rm ev new xs = Inr (fst (spec_run [] xs), s') \<and> inv s' \<and>
        order s' = snd (spec_run [] xs)"
  using run_refines [of new xs] new_ok by simp

end

section \<open>Chains\<close>

lemma ohd_simps [simp]: "ohd [] d = d" "ohd (x # xs) d = Some x"
  by (simp_all add: ohd_def)

lemma olast_simps [simp]: "olast [] d = d" "olast (xs @ [x]) d = Some x"
  by (simp_all add: olast_def)

lemma olast_Cons [simp]: "olast (x # xs) d = olast xs (Some x)"
  by (simp add: olast_def)

lemma ohd_append: "ohd (xs @ ys) d = ohd xs (ohd ys d)"
  by (cases xs) simp_all

lemma olast_append: "olast (xs @ ys) d = olast ys (olast xs d)"
  by (simp add: olast_def)

lemma chain_append:
  "chain es p (xs @ ys) q \<longleftrightarrow> chain es p xs (ohd ys q) \<and> chain es (olast xs p) ys q"
  by (induction xs arbitrary: p) (auto simp: ohd_append)

lemma chain_bound: "chain es p is q \<Longrightarrow> set is \<subseteq> {..<length es}"
  by (induction "is" arbitrary: p) auto

lemma chain_update [simp]: "k \<notin> set is \<Longrightarrow> chain (es[k := e]) p is q = chain es p is q"
  by (induction "is" arbitrary: p) auto

lemma chain_extend: "chain es p is q \<Longrightarrow> chain (es @ [e]) p is q"
  by (induction "is" arbitrary: p) (auto simp: nth_append)

lemma chain_set_last:
  assumes "chain es p (xs @ [l]) q" and "l \<notin> set xs"
  shows "chain (es[l := (es ! l)\<lparr>le_next := q'\<rparr>]) p (xs @ [l]) q'"
  using assms by (auto simp: chain_append)

lemma chain_set_first:
  assumes "chain es p (f # xs) q" and "f \<notin> set xs"
  shows "chain (es[f := (es ! f)\<lparr>le_prev := p'\<rparr>]) p' (f # xs) q"
  using assms by simp

lemma chain_nth: "chain es p (xs @ i # ys) q \<Longrightarrow>
  i < length es \<and> le_prev (es ! i) = olast xs p \<and> le_next (es ! i) = ohd ys q"
  by (simp add: chain_append)

lemma walk_chain: "chain es p is None \<Longrightarrow> length is \<le> n \<Longrightarrow> walk n es (ohd is None) = is"
proof (induction n arbitrary: p "is")
  case 0
  then show ?case by simp
next
  case (Suc n)
  then show ?case by (cases "is") auto
qed

lemma linked_length: "linked s is \<Longrightarrow> length is \<le> length (lru_entries s)"
  by (metis card_lessThan card_mono chain_bound distinct_card finite_lessThan linked_def)

lemma linked_order: "linked s is \<Longrightarrow> lru_order s = map (\<lambda>i. le_prefix_hash (lru_entries s ! i)) is"
  using linked_length [of s "is"] by (auto simp: lru_order_def linked_def walk_chain)

section \<open>Slab operations\<close>

text \<open>What the link operations leave alone.\<close>

definition same_keys :: "lru_inner \<Rightarrow> lru_inner \<Rightarrow> bool" where
  "same_keys s s' \<longleftrightarrow>
     map le_prefix_hash (lru_entries s') = map le_prefix_hash (lru_entries s) \<and>
     lru_free_indices s' = lru_free_indices s \<and> lru_index s' = lru_index s"

lemma same_keys_length: "same_keys s s' \<Longrightarrow> length (lru_entries s') = length (lru_entries s)"
  by (metis length_map same_keys_def)

lemma same_keys_nth:
  "same_keys s s' \<Longrightarrow> i < length (lru_entries s) \<Longrightarrow>
     le_prefix_hash (lru_entries s' ! i) = le_prefix_hash (lru_entries s ! i)"
  by (metis nth_map same_keys_def same_keys_length)

lemma map_update_same: "f x = f (xs ! i) \<Longrightarrow> map f (xs[i := x]) = map f xs"
  by (metis list_update_id map_update)

lemma unlink_linked:
  assumes "linked s (xs @ i # ys)"
  shows "\<exists>s'. unlink i s = Inr s' \<and> linked s' (xs @ ys) \<and> same_keys s s'"
proof -
  let ?es = "lru_entries s"
  have ch: "chain ?es None (xs @ i # ys) None" and d: "distinct (xs @ i # ys)"
    and hd: "lru_head s = ohd (xs @ i # ys) None" and tl: "lru_tail s = olast (xs @ i # ys) None"
    using assms by (auto simp: linked_def)
  have i: "i < length ?es" "le_prev (?es ! i) = olast xs None" "le_next (?es ! i) = ohd ys None"
    using chain_nth [OF ch] by auto
  have cx: "chain ?es None xs (Some i)" and cy: "chain ?es (Some i) ys None"
    using ch by (auto simp: chain_append)
  have "\<exists>s1. (case olast xs None of Some p \<Rightarrow> set_next p (ohd ys None) s
                | None \<Rightarrow> Inr (s\<lparr>lru_head := ohd ys None\<rparr>)) = Inr s1 \<and>
          chain (lru_entries s1) None xs (ohd ys None) \<and> chain (lru_entries s1) (Some i) ys None \<and>
          lru_head s1 = ohd (xs @ ys) None \<and> lru_tail s1 = lru_tail s \<and> same_keys s s1"
  proof (cases xs rule: rev_cases)
    case Nil
    then show ?thesis using cy by (simp add: same_keys_def)
  next
    case (snoc zs l)
    then have "l < length ?es" "l \<notin> set zs" "l \<notin> set ys" using cx d chain_bound [OF cx] by auto
    then show ?thesis
      using chain_set_last [OF cx [unfolded snoc]] cy hd snoc
      by (simp add: set_next_def same_keys_def map_update_same ohd_append)
  qed
  then obtain s1 where s1: "(case olast xs None of Some p \<Rightarrow> set_next p (ohd ys None) s
        | None \<Rightarrow> Inr (s\<lparr>lru_head := ohd ys None\<rparr>)) = Inr s1"
      "chain (lru_entries s1) None xs (ohd ys None)" "chain (lru_entries s1) (Some i) ys None"
      "lru_head s1 = ohd (xs @ ys) None" "lru_tail s1 = lru_tail s" "same_keys s s1" by blast
  have "\<exists>s2. (case ohd ys None of Some n \<Rightarrow> set_prev n (olast xs None) s1
                | None \<Rightarrow> Inr (s1\<lparr>lru_tail := olast xs None\<rparr>)) = Inr s2 \<and>
          chain (lru_entries s2) None xs (ohd ys None) \<and> chain (lru_entries s2) (olast xs None) ys None \<and>
          lru_head s2 = ohd (xs @ ys) None \<and> lru_tail s2 = olast (xs @ ys) None \<and> same_keys s s2"
  proof (cases ys)
    case Nil
    then show ?thesis using s1 by (simp add: same_keys_def)
  next
    case (Cons f zs)
    then have "f < length (lru_entries s1)" "f \<notin> set zs" "f \<notin> set xs"
      using s1(3) d chain_bound [OF s1(3)] by auto
    then show ?thesis
      using chain_set_first [OF s1(3) [unfolded Cons]] s1 tl Cons
      by (simp add: set_prev_def same_keys_def map_update_same olast_append)
  qed
  then obtain s2 where s2: "(case ohd ys None of Some n \<Rightarrow> set_prev n (olast xs None) s1
        | None \<Rightarrow> Inr (s1\<lparr>lru_tail := olast xs None\<rparr>)) = Inr s2"
      "chain (lru_entries s2) None xs (ohd ys None)" "chain (lru_entries s2) (olast xs None) ys None"
      "lru_head s2 = ohd (xs @ ys) None" "lru_tail s2 = olast (xs @ ys) None" "same_keys s s2" by blast
  have "unlink i s = rbind (set_prev i None s2) (\<lambda>s3. set_next i None s3)"
    unfolding unlink_def Let_def vec_get_in [OF i(1)] rbind_Inr i(2,3) s1(1) s2(1) ..
  moreover have "i < length (lru_entries s2)" using i same_keys_length [OF s2(6)] by simp
  ultimately show ?thesis
    using s2 d
    by (simp add: set_prev_def set_next_def linked_def chain_append same_keys_def map_update_same)
qed

lemma push_front_linked:
  assumes "linked s is" and "i \<notin> set is" and "i < length (lru_entries s)"
  shows "\<exists>s'. push_front i s = Inr s' \<and> linked s' (i # is) \<and> same_keys s s'"
proof -
  let ?es = "lru_entries s"
  define es1 where "es1 = ?es[i := (?es ! i)\<lparr>le_prev := None, le_next := ohd is None\<rparr>]"
  have c1: "chain es1 None is None" and i1: "i < length es1" "le_prev (es1 ! i) = None"
      "le_next (es1 ! i) = ohd is None"
    using assms by (auto simp: es1_def linked_def)
  show ?thesis
  proof (cases "is")
    case Nil
    then show ?thesis
      using assms i1
      by (simp add: push_front_def set_prev_def set_next_def linked_def same_keys_def Let_def
          map_update_same)
  next
    case (Cons f zs)
    define es2 where "es2 = es1[f := (es1 ! f)\<lparr>le_prev := Some i\<rparr>]"
    have f: "f < length es1" "f \<noteq> i" "f \<notin> set zs" "i \<notin> set zs"
      using c1 assms Cons by (auto simp: linked_def)
    have "chain es2 (Some i) is None"
      using chain_set_first [OF c1 [unfolded Cons], of "Some i"] f by (simp add: es2_def Cons)
    then have "chain es2 None (i # is) None" using f i1 by (simp add: es2_def)
    moreover have "push_front i s = Inr (s\<lparr>lru_entries := es2, lru_head := Some i\<rparr>)"
      using assms Cons f
      by (simp add: push_front_def set_prev_def set_next_def linked_def Let_def es2_def es1_def
          olast_def)
    moreover have "map le_prefix_hash es2 = map le_prefix_hash ?es"
      by (simp add: es2_def es1_def map_update_same)
    ultimately show ?thesis
      using assms by (simp add: linked_def same_keys_def Cons)
  qed
qed

section \<open>The linked slab implements the contract\<close>

abbreviation slot_key :: "lru_inner \<Rightarrow> usize \<Rightarrow> hash16" where
  "slot_key s i \<equiv> le_prefix_hash (lru_entries s ! i)"

lemma wf_order: "lru_wf s is \<Longrightarrow> lru_order s = map (slot_key s) is"
  by (simp add: lru_wf_def linked_order)

lemma wf_bound: "lru_wf s is \<Longrightarrow> i \<in> set is \<Longrightarrow> i < length (lru_entries s)"
  by (auto simp: lru_wf_def)

lemma wf_lookup: "lru_wf s is \<Longrightarrow> fmlookup (lru_index s) k = Some i \<longleftrightarrow> i \<in> set is \<and> slot_key s i = k"
  by (simp add: lru_wf_def)

lemma wf_inj: "lru_wf s is \<Longrightarrow> inj_on (slot_key s) (set is)"
  by (rule inj_onI) (metis option.inject wf_lookup)

lemma wf_distinct_order: "lru_wf s is \<Longrightarrow> distinct (lru_order s)"
  by (simp add: wf_order distinct_map wf_inj) (simp add: lru_wf_def linked_def)

lemma wf_dom: "lru_wf s is \<Longrightarrow> fmdom' (lru_index s) = set (lru_order s)"
  by (auto simp: wf_order fmlookup_dom'_iff wf_lookup)

lemma wf_relink:
  assumes "lru_wf s is" and "same_keys s s'" and "linked s' is'" and "set is' = set is"
  shows "lru_wf s' is'"
  using assms same_keys_length [OF assms(2)] same_keys_nth [OF assms(2)] wf_bound [OF assms(1)]
  by (auto simp: lru_wf_def same_keys_def)

lemma wf_order_without:
  assumes "lru_wf s (xs @ i # ys)"
  shows "remove1 (slot_key s i) (lru_order s) = map (slot_key s) (xs @ ys)"
  using wf_distinct_order [OF assms] by (simp add: wf_order [OF assms] remove1_append)

lemma same_keys_map:
  "lru_wf s is \<Longrightarrow> same_keys s s' \<Longrightarrow> set js \<subseteq> set is \<Longrightarrow> map (slot_key s') js = map (slot_key s) js"
  by (auto intro: same_keys_nth wf_bound)

lemma touch_known:
  assumes "lru_wf s is" and "fmlookup (lru_index s) k = Some i"
  shows "\<exists>s'. touch k s = Inr s' \<and> lru_inv s' \<and> lru_order s' = k # remove1 k (lru_order s) \<and>
              length (lru_entries s') = length (lru_entries s)"
proof -
  have i: "i \<in> set is" "slot_key s i = k" using assms by (auto simp: wf_lookup)
  then obtain xs ys where s_is: "is = xs @ i # ys" by (meson split_list)
  have d: "distinct is" and l: "linked s is" using assms(1) by (auto simp: lru_wf_def linked_def)
  obtain s1 where s1: "unlink i s = Inr s1" "linked s1 (xs @ ys)" "same_keys s s1"
    using unlink_linked l s_is by blast
  have "i < length (lru_entries s1)"
    using wf_bound [OF assms(1) i(1)] same_keys_length [OF s1(3)] by simp
  then obtain s2 where s2: "push_front i s1 = Inr s2" "linked s2 (i # xs @ ys)" "same_keys s1 s2"
    using push_front_linked [OF s1(2), of i] d s_is by auto
  have k: "same_keys s s2" using s1(3) s2(3) by (simp add: same_keys_def)
  have wf: "lru_wf s2 (i # xs @ ys)"
    using wf_relink [OF assms(1) k s2(2)] s_is by auto
  have "map (slot_key s2) (i # xs @ ys) = map (slot_key s) (i # xs @ ys)"
    by (rule same_keys_map [OF assms(1) k]) (use s_is in auto)
  then have "lru_order s2 = k # remove1 k (lru_order s)"
    using wf_order [OF wf] wf_order_without [of s xs i ys] assms(1) s_is i(2) by simp
  then show ?thesis
    using s1(1) s2(1) assms(2) wf same_keys_length [OF k] by (auto simp: touch_def lru_inv_def)
qed

lemma alloc_entry_wf:
  assumes "lru_wf s is"
  shows "\<exists>i s1. alloc_entry k s = Inr (i, s1) \<and> linked s1 is \<and> i \<notin> set is \<and> slot_key s1 i = k \<and>
     i < length (lru_entries s1) \<and> lru_index s1 = lru_index s \<and> distinct (lru_free_indices s1) \<and>
     set (lru_free_indices s1) \<inter> insert i (set is) = {} \<and>
     insert i (set is) \<union> set (lru_free_indices s1) = {..<length (lru_entries s1)} \<and>
     (\<forall>j \<in> set is. slot_key s1 j = slot_key s j) \<and>
     length (lru_entries s1) \<le> max (length (lru_entries s)) (Suc (length is))"
proof (cases "lru_free_indices s" rule: rev_cases)
  case Nil
  have c: "chain (lru_entries s) None is None" and d: "distinct is"
    and b: "set is = {..<length (lru_entries s)}"
    using assms Nil by (auto simp: lru_wf_def linked_def)
  have "length is = length (lru_entries s)" using b d by (metis card_lessThan distinct_card)
  then show ?thesis
    using assms Nil chain_extend [OF c] b
    by (auto simp: alloc_entry_def Let_def lru_wf_def linked_def nth_append)
next
  case (snoc free i)
  have i: "i < length (lru_entries s)" "i \<notin> set is" "i \<notin> set free"
    using assms snoc by (auto simp: lru_wf_def)
  have "alloc_entry k s = Inr (i, s\<lparr>lru_free_indices := free, lru_entries := (lru_entries s)
      [i := \<lparr>le_prefix_hash = k, le_prev = None, le_next = None\<rparr>]\<rparr>)"
    using snoc i by (simp add: alloc_entry_def Let_def)
  then show ?thesis
    using assms snoc i by (auto simp: lru_wf_def linked_def nth_list_update)
qed

lemma touch_fresh:
  assumes "lru_wf s is" and "fmlookup (lru_index s) k = None"
  shows "\<exists>s'. touch k s = Inr s' \<and> lru_inv s' \<and> lru_order s' = k # remove1 k (lru_order s) \<and>
              length (lru_entries s') \<le> max (length (lru_entries s)) (length (lru_order s'))"
proof -
  obtain i s1 where a: "alloc_entry k s = Inr (i, s1)" "linked s1 is" "i \<notin> set is" "slot_key s1 i = k"
      "i < length (lru_entries s1)" "lru_index s1 = lru_index s" "distinct (lru_free_indices s1)"
      "set (lru_free_indices s1) \<inter> insert i (set is) = {}"
      "insert i (set is) \<union> set (lru_free_indices s1) = {..<length (lru_entries s1)}"
      "\<forall>j \<in> set is. slot_key s1 j = slot_key s j"
      "length (lru_entries s1) \<le> max (length (lru_entries s)) (Suc (length is))"
    using alloc_entry_wf [OF assms(1)] by blast
  obtain s2 where s2: "push_front i s1 = Inr s2" "linked s2 (i # is)" "same_keys s1 s2"
    using push_front_linked [OF a(2,3,5)] by blast
  define s' where "s' = s2\<lparr>lru_index := fmupd k i (lru_index s2)\<rparr>"
  have keys: "slot_key s' j = (if j = i then k else slot_key s j)" if "j \<in> set (i # is)" for j
  proof -
    have "j < length (lru_entries s1)" using that a(9) by auto
    then have "slot_key s' j = slot_key s1 j" using same_keys_nth [OF s2(3)] by (simp add: s'_def)
    then show ?thesis using that a(4,10) by auto
  qed
  have k: "slot_key s j \<noteq> k" if "j \<in> set is" for j
    using wf_lookup [OF assms(1), of k j] assms(2) that by auto
  have wf: "lru_wf s' (i # is)"
    unfolding lru_wf_def
  proof (intro conjI allI)
    show "linked s' (i # is)" using s2(2) by (simp add: s'_def linked_def)
    show "distinct (lru_free_indices s')" "set (i # is) \<inter> set (lru_free_indices s') = {}"
      "set (i # is) \<union> set (lru_free_indices s') = {..<length (lru_entries s')}"
      using a s2(3) same_keys_length [OF s2(3)] by (auto simp: s'_def same_keys_def)
  next
    fix q j
    have "lru_index s' = fmupd k i (lru_index s)" using s2(3) a(6) by (simp add: s'_def same_keys_def)
    then show "fmlookup (lru_index s') q = Some j \<longleftrightarrow> j \<in> set (i # is) \<and> slot_key s' j = q"
      using keys [of j] keys [of i] wf_lookup [OF assms(1), of q j] a(3) k [of j] by (cases "j = i") auto
  qed
  have "map (slot_key s') is = map (slot_key s) is" using keys a(3) by auto
  then have o: "lru_order s' = k # lru_order s"
    using wf_order [OF wf] wf_order [OF assms(1)] keys [of i] by simp
  have "remove1 k (lru_order s) = lru_order s"
    using k wf_order [OF assms(1)] by (intro remove1_idem) auto
  moreover have "touch k s = Inr s'" using assms(2) a(1) s2(1) by (simp add: touch_def s'_def)
  moreover have "length (lru_entries s') \<le> max (length (lru_entries s)) (length (lru_order s'))"
    using a(11) o wf_order [OF assms(1)] same_keys_length [OF s2(3)] by (simp add: s'_def)
  ultimately show ?thesis using wf o by (auto simp: lru_inv_def)
qed

lemma release_slot:
  assumes "lru_wf s (xs @ i # ys)"
  shows "\<exists>s1. unlink i (s\<lparr>lru_index := fmdrop (slot_key s i) (lru_index s)\<rparr>) = Inr s1 \<and>
     (let s' = s1\<lparr>lru_free_indices := lru_free_indices s1 @ [i]\<rparr>
      in lru_wf s' (xs @ ys) \<and> lru_order s' = map (slot_key s) (xs @ ys) \<and>
         length (lru_entries s') = length (lru_entries s))"
proof -
  define s0 where "s0 = s\<lparr>lru_index := fmdrop (slot_key s i) (lru_index s)\<rparr>"
  have l: "linked s0 (xs @ i # ys)" using assms by (simp add: lru_wf_def s0_def linked_def)
  obtain s1 where s1: "unlink i s0 = Inr s1" "linked s1 (xs @ ys)" "same_keys s0 s1"
    using unlink_linked [OF l] by blast
  define s' where "s' = s1\<lparr>lru_free_indices := lru_free_indices s1 @ [i]\<rparr>"
  have len: "length (lru_entries s') = length (lru_entries s)"
    using same_keys_length [OF s1(3)] by (simp add: s'_def s0_def)
  have idx: "lru_index s' = fmdrop (slot_key s i) (lru_index s)"
    and fr: "lru_free_indices s' = lru_free_indices s @ [i]"
    using s1(3) by (simp_all add: same_keys_def s'_def s0_def)
  have keys: "slot_key s' j = slot_key s j" if "j \<in> set (xs @ i # ys)" for j
    using same_keys_nth [OF s1(3)] wf_bound [OF assms that] by (simp add: s'_def s0_def)
  have d: "distinct (xs @ i # ys)" using l by (simp add: linked_def)
  have uniq: "slot_key s j \<noteq> slot_key s i" if "j \<in> set (xs @ ys)" for j
    using wf_inj [OF assms] that d by (auto simp: inj_on_def)
  have wf: "lru_wf s' (xs @ ys)"
    unfolding lru_wf_def
  proof (intro conjI allI)
    show "linked s' (xs @ ys)" using s1(2) by (simp add: s'_def linked_def)
    show "distinct (lru_free_indices s')" "set (xs @ ys) \<inter> set (lru_free_indices s') = {}"
      "set (xs @ ys) \<union> set (lru_free_indices s') = {..<length (lru_entries s')}"
      using assms d by (auto simp: lru_wf_def fr len)
  next
    fix k j
    show "fmlookup (lru_index s') k = Some j \<longleftrightarrow> j \<in> set (xs @ ys) \<and> slot_key s' j = k"
      using wf_lookup [OF assms, of k j] keys [of j] uniq [of j] by (cases "j = i") (auto simp: idx)
  qed
  have "map (slot_key s') (xs @ ys) = map (slot_key s) (xs @ ys)" using keys by auto
  then show ?thesis
    using s1(1) wf wf_order [OF wf] len by (simp add: Let_def s'_def s0_def)
qed

lemma lru_remove_known:
  assumes "lru_wf s is" and "fmlookup (lru_index s) k = Some i"
  shows "\<exists>s'. lru_remove k s = Inr s' \<and> lru_inv s' \<and> lru_order s' = remove1 k (lru_order s) \<and>
              length (lru_entries s') = length (lru_entries s)"
proof -
  have i: "i \<in> set is" "slot_key s i = k" using assms by (auto simp: wf_lookup)
  then obtain xs ys where s_is: "is = xs @ i # ys" by (meson split_list)
  show ?thesis
    using release_slot [of s xs i ys] wf_order_without [of s xs i ys] assms s_is i(2)
    by (auto simp: lru_remove_def lru_inv_def Let_def)
qed

lemma lru_remove_unknown:
  assumes "lru_wf s is" and "fmlookup (lru_index s) k = None"
  shows "lru_remove k s = Inr s \<and> lru_order s = remove1 k (lru_order s)"
proof -
  have "k \<notin> set (lru_order s)" using wf_dom [OF assms(1)] assms(2) by (metis fmdom'_notI)
  then show ?thesis using assms(2) by (simp add: lru_remove_def remove1_idem)
qed

lemma evict_lru_Some:
  assumes "lru_wf s is" and "lru_order s = ks @ [k]"
  shows "\<exists>s'. evict_lru s = Inr (Some k, s') \<and> lru_inv s' \<and> lru_order s' = ks \<and>
              length (lru_entries s') = length (lru_entries s)"
proof -
  have m: "map (slot_key s) is = ks @ [k]" using wf_order [OF assms(1)] assms(2) by simp
  obtain xs i where s_is: "is = xs @ [i]" using m by (cases "is" rule: rev_cases) auto
  have ks: "ks = map (slot_key s) xs" "k = slot_key s i" using m s_is by auto
  have "lru_tail s = Some i" "i < length (lru_entries s)"
    using assms(1) s_is by (auto simp: lru_wf_def linked_def)
  then show ?thesis
    using release_slot [of s xs i "[]"] assms(1) s_is ks
    by (auto simp: evict_lru_def lru_inv_def Let_def)
qed

lemma evict_lru_None:
  assumes "lru_inv s" and "lru_order s = []"
  shows "evict_lru s = Inr (None, s)"
proof -
  obtain "is" where wf: "lru_wf s is" using assms(1) by (auto simp: lru_inv_def)
  then have "is = []" using wf_order [OF wf] assms(2) by simp
  then show ?thesis using wf by (simp add: lru_wf_def linked_def evict_lru_def)
qed

lemma lru_distinct: "lru_inv s \<Longrightarrow> distinct (lru_order s)"
  unfolding lru_inv_def using wf_distinct_order by blast

lemma lru_new_wf: "lru_wf lru_new []"
  by (simp add: lru_wf_def linked_def lru_new_def)

lemma lru_count: "lru_inv s \<Longrightarrow> lru_len s = length (lru_order s)"
  by (auto simp: lru_inv_def lru_len_def hm_len_eq_card wf_dom distinct_card wf_distinct_order)

lemma touch_slab:
  assumes "lru_inv s"
  shows "\<exists>s'. touch k s = Inr s' \<and> lru_inv s' \<and> lru_order s' = k # remove1 k (lru_order s) \<and>
              length (lru_entries s') \<le> max (length (lru_entries s)) (length (lru_order s'))"
proof -
  obtain "is" where wf: "lru_wf s is" using assms unfolding lru_inv_def by blast
  show ?thesis
  proof (cases "fmlookup (lru_index s) k")
    case None
    from touch_fresh [OF wf None] show ?thesis .
  next
    case (Some i)
    from touch_known [OF wf Some] obtain s' where s': "touch k s = Inr s'" "lru_inv s'"
      "lru_order s' = k # remove1 k (lru_order s)" "length (lru_entries s') = length (lru_entries s)"
      by blast
    then show ?thesis by (intro exI [of _ s']) simp
  qed
qed

lemma remove_slab:
  assumes "lru_inv s"
  shows "\<exists>s'. lru_remove k s = Inr s' \<and> lru_inv s' \<and> lru_order s' = remove1 k (lru_order s) \<and>
              length (lru_entries s') = length (lru_entries s)"
proof -
  obtain "is" where wf: "lru_wf s is" using assms unfolding lru_inv_def by blast
  show ?thesis
  proof (cases "fmlookup (lru_index s) k")
    case None
    from lru_remove_unknown [OF wf None] assms show ?thesis by (intro exI [of _ s]) simp
  next
    case (Some i)
    from lru_remove_known [OF wf Some] show ?thesis .
  qed
qed

lemma evict_slab:
  assumes "lru_inv s" and "lru_order s = ks @ [k]"
  shows "\<exists>s'. evict_lru s = Inr (Some k, s') \<and> lru_inv s' \<and> lru_order s' = ks \<and>
              length (lru_entries s') = length (lru_entries s)"
proof -
  obtain "is" where wf: "lru_wf s is" using assms(1) unfolding lru_inv_def by blast
  from evict_lru_Some [OF wf assms(2)] show ?thesis .
qed

interpretation lru: recency_policy touch lru_remove evict_lru lru_len lru_order lru_inv lru_new
proof unfold_locales
  show "lru_inv lru_new \<and> lru_order lru_new = []"
    using wf_order [OF lru_new_wf] lru_new_wf unfolding lru_inv_def by auto
next
  fix s
  assume "lru_inv s"
  then show "distinct (lru_order s)" by (rule lru_distinct)
next
  fix s
  assume "lru_inv s"
  then show "lru_len s = length (lru_order s)" by (rule lru_count)
next
  fix s k
  assume "lru_inv s"
  then show "\<exists>s'. touch k s = Inr s' \<and> lru_inv s' \<and> lru_order s' = k # remove1 k (lru_order s)"
    using touch_slab by blast
next
  fix s k
  assume "lru_inv s"
  then show "\<exists>s'. lru_remove k s = Inr s' \<and> lru_inv s' \<and> lru_order s' = remove1 k (lru_order s)"
    using remove_slab by blast
next
  fix s
  assume "lru_inv s" and "lru_order s = []"
  then show "evict_lru s = Inr (None, s)" by (rule evict_lru_None)
next
  fix s ks k
  assume "lru_inv s" and "lru_order s = ks @ [k]"
  from evict_slab [OF this]
  show "\<exists>s'. evict_lru s = Inr (Some k, s') \<and> lru_inv s' \<and> lru_order s' = ks" by blast
qed

section \<open>Evicting makes progress on every state\<close>

lemma length_filter_update:
  assumes "i < length xs"
  shows "length (filter P (xs[i := x])) + of_bool (P (xs ! i)) = length (filter P xs) + of_bool (P x)"
proof -
  have "filter P xs = filter P (take i xs) @ (if P (xs ! i) then [xs ! i] else []) @ filter P (drop (Suc i) xs)"
    by (subst id_take_nth_drop [OF assms]) simp
  then show ?thesis using assms by (simp add: upd_conv_take_nth_drop)
qed

lemma set_next_counts:
  assumes "set_next i v s = Inr s'"
  shows "i < length (lru_entries s)" and "length (lru_entries s') = length (lru_entries s)"
    and "lru_tail s' = lru_tail s"
    and "lru_entries s' = (lru_entries s)[i := (lru_entries s ! i)\<lparr>le_next := v\<rparr>]"
    and "link_count s' + of_bool (le_next (lru_entries s ! i) \<noteq> None) = link_count s + of_bool (v \<noteq> None)"
proof -
  let ?e = "lru_entries s ! i"
  show i: "i < length (lru_entries s)" and "length (lru_entries s') = length (lru_entries s)"
    and "lru_tail s' = lru_tail s"
    and es: "lru_entries s' = (lru_entries s)[i := ?e\<lparr>le_next := v\<rparr>]"
    using assms by (auto simp: set_next_def vec_get_def split: if_splits)
  show "link_count s' + of_bool (le_next ?e \<noteq> None) = link_count s + of_bool (v \<noteq> None)"
    using length_filter_update [OF i, of "\<lambda>e. le_next e \<noteq> None" "?e\<lparr>le_next := v\<rparr>"]
      length_filter_update [OF i, of "\<lambda>e. le_prev e \<noteq> None" "?e\<lparr>le_next := v\<rparr>"]
    by (simp add: link_count_def es)
qed

lemma set_prev_counts:
  assumes "set_prev i v s = Inr s'"
  shows "i < length (lru_entries s)" and "length (lru_entries s') = length (lru_entries s)"
    and "lru_tail s' = lru_tail s"
    and "lru_entries s' = (lru_entries s)[i := (lru_entries s ! i)\<lparr>le_prev := v\<rparr>]"
    and "link_count s' + of_bool (le_prev (lru_entries s ! i) \<noteq> None) = link_count s + of_bool (v \<noteq> None)"
proof -
  let ?e = "lru_entries s ! i"
  show i: "i < length (lru_entries s)" and "length (lru_entries s') = length (lru_entries s)"
    and "lru_tail s' = lru_tail s"
    and es: "lru_entries s' = (lru_entries s)[i := ?e\<lparr>le_prev := v\<rparr>]"
    using assms by (auto simp: set_prev_def vec_get_def split: if_splits)
  show "link_count s' + of_bool (le_prev ?e \<noteq> None) = link_count s + of_bool (v \<noteq> None)"
    using length_filter_update [OF i, of "\<lambda>e. le_next e \<noteq> None" "?e\<lparr>le_prev := v\<rparr>"]
      length_filter_update [OF i, of "\<lambda>e. le_prev e \<noteq> None" "?e\<lparr>le_prev := v\<rparr>"]
    by (simp add: link_count_def es)
qed

lemma link_count_upd [simp]:
  "link_count (s\<lparr>lru_head := h\<rparr>) = link_count s"
  "link_count (s\<lparr>lru_tail := h\<rparr>) = link_count s"
  "link_count (s\<lparr>lru_index := m\<rparr>) = link_count s"
  "link_count (s\<lparr>lru_free_indices := f\<rparr>) = link_count s"
  by (simp_all add: link_count_def)

text \<open>Unlinking an entry \<open>t\<close> clears its two links, and adds at most as many elsewhere.\<close>

lemma unlink_counts:
  assumes "unlink t s = Inr s'"
  defines "e \<equiv> lru_entries s ! t"
  shows "t < length (lru_entries s)" and "length (lru_entries s') = length (lru_entries s)"
    and "le_prev (lru_entries s' ! t) = None" and "le_next (lru_entries s' ! t) = None"
    and "lru_tail s' = (if le_next e = None then le_prev e else lru_tail s)"
    and "link_count s' + of_bool (le_prev e \<noteq> None) + of_bool (le_next e \<noteq> None) \<le>
         link_count s + 2 * of_bool (le_prev e \<noteq> None \<and> le_next e \<noteq> None)"
proof -
  obtain s1 s2 s3 where t: "t < length (lru_entries s)"
    and s1: "(case le_prev e of Some p \<Rightarrow> set_next p (le_next e) s
             | None \<Rightarrow> Inr (s\<lparr>lru_head := le_next e\<rparr>)) = Inr s1"
    and s2: "(case le_next e of Some n \<Rightarrow> set_prev n (le_prev e) s1
             | None \<Rightarrow> Inr (s1\<lparr>lru_tail := le_prev e\<rparr>)) = Inr s2"
    and s3: "set_prev t None s2 = Inr s3" and s': "set_next t None s3 = Inr s'"
    using assms by (auto simp: unlink_def Let_def vec_get_def split: if_splits)
  have one: "length (lru_entries s1) = length (lru_entries s) \<and> lru_tail s1 = lru_tail s \<and>
      le_prev (lru_entries s1 ! t) = le_prev e \<and> le_next (lru_entries s1 ! t) = le_next e \<and>
      link_count s1 \<le> link_count s + of_bool (le_prev e \<noteq> None \<and> le_next e \<noteq> None)"
    using s1 set_next_counts [of _ "le_next e" s s1]
    by (cases "le_prev e") (fastforce simp: e_def nth_list_update t)+
  have two: "length (lru_entries s2) = length (lru_entries s) \<and>
      lru_tail s2 = (if le_next e = None then le_prev e else lru_tail s) \<and>
      le_prev (lru_entries s2 ! t) = le_prev e \<and> le_next (lru_entries s2 ! t) = le_next e \<and>
      link_count s2 \<le> link_count s1 + of_bool (le_prev e \<noteq> None \<and> le_next e \<noteq> None)"
    using s2 one set_prev_counts [of _ "le_prev e" s1 s2]
    by (cases "le_next e") (fastforce simp: nth_list_update t)+
  note three = set_prev_counts [OF s3] and four = set_next_counts [OF s']
  show "t < length (lru_entries s)" by (rule t)
  show "length (lru_entries s') = length (lru_entries s)" using two three(2) four(2) by simp
  show "le_prev (lru_entries s' ! t) = None" "le_next (lru_entries s' ! t) = None"
    using three(1,2,4) four(1,4) by simp_all
  show "lru_tail s' = (if le_next e = None then le_prev e else lru_tail s)"
    using two three(3) four(3) by simp
  have "le_next (lru_entries s3 ! t) = le_next e" using two three(1,4) by simp
  then show "link_count s' + of_bool (le_prev e \<noteq> None) + of_bool (le_next e \<noteq> None) \<le>
         link_count s + 2 * of_bool (le_prev e \<noteq> None \<and> le_next e \<noteq> None)"
    using one two three(5) four(5) by (auto split: if_splits)
qed

lemma evict_lru_decreases:
  assumes "evict_lru s = Inr (Some k, s')"
  shows "(s', s) \<in> measures [link_count, tail_linked, has_tail]"
proof -
  obtain t s1 where t: "lru_tail s = Some t"
    and u: "unlink t (s\<lparr>lru_index := fmdrop k (lru_index s)\<rparr>) = Inr s1"
    and s': "s' = s1\<lparr>lru_free_indices := lru_free_indices s1 @ [t]\<rparr>"
    using assms by (auto simp: evict_lru_def Let_def vec_get_def split: option.splits if_splits)
  let ?e = "lru_entries s ! t"
  note c = unlink_counts [OF u, simplified]
  show ?thesis
  proof (cases "le_next ?e")
    case None
    then show ?thesis
      using c t by (cases "le_prev ?e") (auto simp: s' tail_linked_def has_tail_def)
  next
    case (Some n)
    then have "tail_linked s' = 0" "tail_linked s = 1"
      using c t by (simp_all add: s' tail_linked_def)
    then show ?thesis using c Some by (cases "le_prev ?e") (auto simp: s')
  qed
qed

section \<open>Properties\<close>

lemma spec_run_append:
  "spec_run ks (xs @ ys) =
     (let (os1, ks1) = spec_run ks xs; (os2, ks2) = spec_run ks1 ys in (os1 @ os2, ks2))"
  by (induction xs arbitrary: ks) (auto simp: split_beta Let_def)

lemma remdups_snoc: "remdups (xs @ [x]) = filter (\<lambda>y. y \<noteq> x) (remdups xs) @ [x]"
  by (induction xs) auto

lemma remove1_rev_distinct: "distinct xs \<Longrightarrow> remove1 x (rev xs) = rev (filter (\<lambda>y. y \<noteq> x) xs)"
proof -
  assume "distinct xs"
  then have "remove1 x (rev xs) = removeAll x (rev xs)" by (simp add: distinct_remove1_removeAll)
  also have "\<dots> = rev (filter (\<lambda>y. y \<noteq> x) xs)"
    by (simp add: removeAll_filter_not_eq rev_filter) (metis (mono_tags, lifting))
  finally show ?thesis .
qed

lemma spec_run_touches:
  "spec_run [] (map Touch ks) = (replicate (length ks) None, rev (remdups ks))"
proof (induction ks rule: rev_induct)
  case Nil
  then show ?case by simp
next
  case (snoc k ks)
  then show ?case
    by (simp add: spec_run_append remdups_snoc remove1_rev_distinct replicate_append_same)
qed

lemma spec_run_evicts:
  "n \<le> length ks \<Longrightarrow>
     spec_run ks (replicate n Evict) = (map Some (take n (rev ks)), take (length ks - n) ks)"
proof (induction n arbitrary: ks)
  case 0
  then show ?case by simp
next
  case (Suc n)
  then obtain ys y where ks: "ks = ys @ [y]" by (cases ks rule: rev_cases) auto
  then show ?case using Suc.IH [of ys] Suc.prems by simp
qed

lemma slab_step:
  assumes "lru_inv s" and "policy_op_run touch lru_remove evict_lru s x = Inr (r, s')"
  shows "length (lru_entries s') \<le> max (length (lru_entries s)) (length (lru_order s'))"
proof (cases x)
  case (Touch k)
  then show ?thesis using assms touch_slab [OF assms(1), of k] by auto
next
  case (Remove k)
  then show ?thesis using assms remove_slab [OF assms(1), of k] by auto
next
  case Evict
  then show ?thesis
    using assms evict_slab [OF assms(1)] evict_lru_None [OF assms(1)]
    by (cases "lru_order s" rule: rev_cases) auto
qed

lemma slab_run:
  assumes "lru_inv s" and "policy_run touch lru_remove evict_lru s xs = Inr (rs, s')"
    and "\<forall>i \<le> length xs. length (snd (spec_run (lru_order s) (take i xs))) \<le> n"
    and "length (lru_entries s) \<le> n"
  shows "length (lru_entries s') \<le> n"
  using assms
proof (induction xs arbitrary: s rs)
  case Nil
  then show ?case by simp
next
  case (Cons x xs)
  obtain s1 where s1: "policy_op_run touch lru_remove evict_lru s x = Inr (fst (spec_op (lru_order s) x), s1)"
      "lru_inv s1" "lru_order s1 = snd (spec_op (lru_order s) x)"
    using lru.op_refines [OF Cons.prems(1)] by blast
  have peak: "length (snd (spec_run (lru_order s1) (take i xs))) \<le> n" if "i \<le> length xs" for i
    using Cons.prems(3)[rule_format, of "Suc i"] that s1(3) by (simp add: split_beta Let_def)
  have "length (lru_entries s1) \<le> n"
    using slab_step [OF Cons.prems(1) s1(1)] Cons.prems(4) peak [of 0] by simp
  then show ?case using Cons.IH [OF s1(2)] Cons.prems(2) s1(1) peak by auto
qed

text \<open>C28: The slab-threaded LRU tracker refines a plain list of keys, most recent first. For every
  sequence of touches, removals and evictions from a new tracker no slab access panics, every
  eviction returns what the list specification says (the last key of the list), and the
  tracked keys, their order and their number agree with the list afterwards.\<close>

theorem lru_refines_list:
  "\<exists>s. policy_run touch lru_remove evict_lru lru_new ops = Inr (fst (spec_run [] ops), s) \<and>
       lru_inv s \<and> lru_order s = snd (spec_run [] ops) \<and>
       lru_len s = length (snd (spec_run [] ops)) \<and> distinct (lru_order s)"
  using lru.run_from_new [of ops] lru.count_order lru.distinct_order by metis

text \<open>Eviction order: after touching the keys \<open>ks\<close> in this order, evicting returns the distinct keys
  in the order of their last touch, oldest first.\<close>

lemma lru_evicts_oldest_first:
  assumes "n \<le> length (remdups ks)"
  shows "\<exists>s. policy_run touch lru_remove evict_lru lru_new (map Touch ks @ replicate n Evict) =
           Inr (replicate (length ks) None @ map Some (take n (remdups ks)), s) \<and>
         lru_order s = rev (drop n (remdups ks))"
proof -
  have "spec_run [] (map Touch ks @ replicate n Evict) =
      (replicate (length ks) None @ map Some (take n (remdups ks)), rev (drop n (remdups ks)))"
    using assms by (simp add: spec_run_append spec_run_touches spec_run_evicts rev_drop)
  then show ?thesis using lru.run_from_new [of "map Touch ks @ replicate n Evict"] by auto
qed

text \<open>Slots are reused: over any sequence of operations the slab never holds more entries than the
  largest number of keys tracked at one time.\<close>

lemma lru_slab_bounded:
  assumes "\<forall>i \<le> length ops. length (snd (spec_run [] (take i ops))) \<le> n"
  shows "\<exists>r s. policy_run touch lru_remove evict_lru lru_new ops = Inr (r, s) \<and>
               length (lru_entries s) \<le> n"
proof -
  obtain r s where rs: "policy_run touch lru_remove evict_lru lru_new ops = Inr (r, s)"
    using lru.run_from_new [of ops] by blast
  have "length (lru_entries s) \<le> n"
    by (rule slab_run [OF _ rs]) (use lru.new_ok assms in \<open>simp_all add: lru_new_def\<close>)
  with rs show ?thesis by blast
qed

end
