(* ===== verification/BlockIndex.thy ===== *)
theory BlockIndex
  imports LruPolicy BlockHeader
begin

text \<open>
  The prefix-hash index of \<^verbatim>\<open>crates/cmx-block-store/src/index.rs\<close>: a concurrent map from key
  to the block locations of a prefix, and the LRU tracker that decides what is evicted. The
  operations are one atomic definition each here; \<open>ServiceThreads\<close> interleaves their single accesses.

  The abstract view of an index is \<open>index_view\<close>: the entries with their keys, most recently
  used first. \<open>lru_cache\<close> is the contract the cache service relies on, a bounded LRU cache
  stated on that view; the interpretation \<open>idx\<close> shows that the index implements it. The
  eviction loop of \<open>insert\<close> terminates on every state, well-formed or not.
\<close>

section \<open>State and operations\<close>

record index_entry =
  ie_blocks :: "block_location list"
  ie_created_at :: u64

record block_index =
  bi_map :: "(hash16, index_entry) hmap"
  bi_lru :: lru_inner
  bi_capacity :: usize

definition index_new :: "usize \<Rightarrow> block_index" where
  "index_new capacity = \<lparr>bi_map = fmempty, bi_lru = lru_new, bi_capacity = capacity\<rparr>"

definition index_lookup :: "hash16 \<Rightarrow> block_index \<Rightarrow> (index_entry option \<times> block_index) res" where
  "index_lookup prefix_hash I =
     (case fmlookup (bi_map I) prefix_hash of
        None \<Rightarrow> Inr (None, I)
      | Some entry \<Rightarrow>
          rbind (touch prefix_hash (bi_lru I)) (\<lambda>l. Inr (Some entry, I\<lparr>bi_lru := l\<rparr>)))"

text \<open>The \<open>while\<close> loop of \<open>insert\<close>: evict until there is room or nothing left to evict.\<close>

function evict_while ::
    "usize \<Rightarrow> (hash16, index_entry) hmap \<Rightarrow> lru_inner \<Rightarrow> hash16 list \<Rightarrow>
     ((hash16, index_entry) hmap \<times> lru_inner \<times> hash16 list) res" where
  "evict_while capacity m l evicted =
     (if hm_len m \<ge> capacity then
        rbind (evict_lru l) (\<lambda>(victim, l1).
        case victim of
          Some v \<Rightarrow> evict_while capacity (fmdrop v m) l1 (evicted @ [v])
        | None \<Rightarrow> Inr (m, l1, evicted))
      else Inr (m, l, evicted))"
  by pat_completeness auto
termination
proof (relation "inv_image (measures [link_count, tail_linked, has_tail]) (\<lambda>(c, m, l, e). l)")
  show "wf (inv_image (measures [link_count, tail_linked, has_tail]) (\<lambda>(c, m, l, e). l))"
    by (rule wf_inv_image) (rule wf_measures)
qed (auto intro: evict_lru_decreases simp del: in_measures)

declare evict_while.simps [simp del]

definition index_insert ::
    "hash16 \<Rightarrow> block_location list \<Rightarrow> u64 \<Rightarrow> block_index \<Rightarrow> (hash16 list \<times> block_index) res" where
  "index_insert prefix_hash blocks created_at I =
     rbind (if prefix_hash |\<notin>| fmdom (bi_map I)
            then evict_while (bi_capacity I) (bi_map I) (bi_lru I) []
            else Inr (bi_map I, bi_lru I, [])) (\<lambda>(m, l, evicted).
     let entry = \<lparr>ie_blocks = blocks, ie_created_at = created_at\<rparr>;
         m1 = fmupd prefix_hash entry m in
     rbind (touch prefix_hash l) (\<lambda>l1.
     Inr (evicted, I\<lparr>bi_map := m1, bi_lru := l1\<rparr>)))"

definition index_remove :: "hash16 \<Rightarrow> block_index \<Rightarrow> (index_entry option \<times> block_index) res" where
  "index_remove prefix_hash I =
     (case fmlookup (bi_map I) prefix_hash of
        None \<Rightarrow> Inr (None, I)
      | Some entry \<Rightarrow>
          rbind (lru_remove prefix_hash (bi_lru I)) (\<lambda>l.
          Inr (Some entry, I\<lparr>bi_map := fmdrop prefix_hash (bi_map I), bi_lru := l\<rparr>)))"

definition index_len :: "block_index \<Rightarrow> usize" where
  "index_len I = hm_len (bi_map I)"

definition index_is_empty :: "block_index \<Rightarrow> bool" where
  "index_is_empty I \<longleftrightarrow> hm_len (bi_map I) = 0"

definition index_contains :: "hash16 \<Rightarrow> block_index \<Rightarrow> bool" where
  "index_contains prefix_hash I \<longleftrightarrow> prefix_hash |\<in>| fmdom (bi_map I)"

section \<open>Abstract view, invariant, specification\<close>

definition index_inv :: "block_index \<Rightarrow> bool" where
  "index_inv I \<longleftrightarrow> lru_inv (bi_lru I) \<and> fmdom' (bi_map I) = set (lru_order (bi_lru I))"

definition index_view :: "block_index \<Rightarrow> (hash16 \<times> index_entry) list" where
  "index_view I = map (\<lambda>k. (k, the (fmlookup (bi_map I) k))) (lru_order (bi_lru I))"

text \<open>A bounded LRU cache as a list of bindings, most recently used first.\<close>

definition drop_key :: "'k \<Rightarrow> ('k \<times> 'e) list \<Rightarrow> ('k \<times> 'e) list" where
  "drop_key k xs = filter (\<lambda>x. fst x \<noteq> k) xs"

definition cache_lookup :: "'k \<Rightarrow> ('k \<times> 'e) list \<Rightarrow> 'e option \<times> ('k \<times> 'e) list" where
  "cache_lookup k xs =
     (case map_of xs k of None \<Rightarrow> (None, xs) | Some e \<Rightarrow> (Some e, (k, e) # drop_key k xs))"

definition cache_insert ::
    "usize \<Rightarrow> 'k \<Rightarrow> 'e \<Rightarrow> ('k \<times> 'e) list \<Rightarrow> 'k list \<times> ('k \<times> 'e) list" where
  "cache_insert c k e xs =
     (if k \<in> fst ` set xs then ([], (k, e) # drop_key k xs)
      else (rev (map fst (drop (c - 1) xs)), (k, e) # take (c - 1) xs))"

definition cache_remove :: "'k \<Rightarrow> ('k \<times> 'e) list \<Rightarrow> 'e option \<times> ('k \<times> 'e) list" where
  "cache_remove k xs = (map_of xs k, drop_key k xs)"

datatype ('k, 'e) cache_op = LookupOp 'k | InsertOp 'k 'e | RemoveOp 'k

datatype ('k, 'e) cache_out = Found "'e option" | Evicted "'k list" | Removed "'e option"

fun cache_step :: "usize \<Rightarrow> ('k \<times> 'e) list \<Rightarrow> ('k, 'e) cache_op \<Rightarrow> ('k, 'e) cache_out \<times> ('k \<times> 'e) list" where
  "cache_step c xs (LookupOp k) = map_prod Found id (cache_lookup k xs)"
| "cache_step c xs (InsertOp k e) = map_prod Evicted id (cache_insert c k e xs)"
| "cache_step c xs (RemoveOp k) = map_prod Removed id (cache_remove k xs)"

fun cache_run :: "usize \<Rightarrow> ('k \<times> 'e) list \<Rightarrow> ('k, 'e) cache_op list \<Rightarrow> ('k, 'e) cache_out list \<times> ('k \<times> 'e) list" where
  "cache_run c xs [] = ([], xs)"
| "cache_run c xs (x # ys) =
     (let (o1, xs1) = cache_step c xs x; (os, xs2) = cache_run c xs1 ys in (o1 # os, xs2))"

text \<open>The same operations on a concrete index, given by its three methods.\<close>

fun cache_op_run ::
    "('k \<Rightarrow> 's \<Rightarrow> ('e option \<times> 's) res) \<Rightarrow> ('k \<Rightarrow> 'e \<Rightarrow> 's \<Rightarrow> ('k list \<times> 's) res) \<Rightarrow>
     ('k \<Rightarrow> 's \<Rightarrow> ('e option \<times> 's) res) \<Rightarrow> 's \<Rightarrow> ('k, 'e) cache_op \<Rightarrow> (('k, 'e) cache_out \<times> 's) res" where
  "cache_op_run lk ins rm s (LookupOp k) = rbind (lk k s) (\<lambda>(r, s1). Inr (Found r, s1))"
| "cache_op_run lk ins rm s (InsertOp k e) = rbind (ins k e s) (\<lambda>(r, s1). Inr (Evicted r, s1))"
| "cache_op_run lk ins rm s (RemoveOp k) = rbind (rm k s) (\<lambda>(r, s1). Inr (Removed r, s1))"

fun cache_ops_run ::
    "('s \<Rightarrow> ('k, 'e) cache_op \<Rightarrow> (('k, 'e) cache_out \<times> 's) res) \<Rightarrow> 's \<Rightarrow> ('k, 'e) cache_op list \<Rightarrow>
     (('k, 'e) cache_out list \<times> 's) res" where
  "cache_ops_run step s [] = Inr ([], s)"
| "cache_ops_run step s (x # xs) =
     rbind (step s x) (\<lambda>(o1, s1). rbind (cache_ops_run step s1 xs) (\<lambda>(os, s2). Inr (o1 # os, s2)))"

definition index_put :: "hash16 \<Rightarrow> index_entry \<Rightarrow> block_index \<Rightarrow> (hash16 list \<times> block_index) res" where
  "index_put k e I = index_insert k (ie_blocks e) (ie_created_at e) I"

definition index_step ::
    "block_index \<Rightarrow> (hash16, index_entry) cache_op \<Rightarrow> ((hash16, index_entry) cache_out \<times> block_index) res" where
  "index_step = cache_op_run index_lookup index_put index_remove"

definition index_run ::
    "block_index \<Rightarrow> (hash16, index_entry) cache_op list \<Rightarrow>
     ((hash16, index_entry) cache_out list \<times> block_index) res" where
  "index_run = cache_ops_run index_step"

section \<open>Facts about the specification\<close>

lemma drop_key_simps [simp]:
  "drop_key k [] = []" "drop_key k ((k', e) # xs) = (if k' = k then drop_key k xs else (k', e) # drop_key k xs)"
  by (simp_all add: drop_key_def)

lemma set_drop_key [simp]: "set (drop_key k xs) = {x \<in> set xs. fst x \<noteq> k}"
  by (simp add: drop_key_def)

lemma map_of_drop_key [simp]: "map_of (drop_key k xs) = (map_of xs)(k := None)"
  by (induction xs) (auto simp: fun_eq_iff)

lemma drop_key_id: "k \<notin> fst ` set xs \<Longrightarrow> drop_key k xs = xs"
  by (auto simp: drop_key_def filter_id_conv)

lemma length_drop_key:
  "distinct (map fst xs) \<Longrightarrow> length (drop_key k xs) = length xs - of_bool (k \<in> fst ` set xs)"
proof (induction xs)
  case Nil
  then show ?case by simp
next
  case (Cons x xs)
  obtain a b where x: "x = (a, b)" by force
  show ?case
  proof (cases "a = k")
    case True
    then show ?thesis using Cons.prems x by (simp add: drop_key_id)
  next
    case False
    have "k \<in> fst ` set xs \<Longrightarrow> 0 < length xs" by (cases xs) auto
    then show ?thesis using Cons x False by (auto split: if_splits)
  qed
qed

lemma drop_key_map:
  "distinct ks \<Longrightarrow> drop_key k (map (\<lambda>k. (k, f k)) ks) = map (\<lambda>k. (k, f k)) (remove1 k ks)"
  by (induction ks) (auto simp: drop_key_id remove1_idem)

lemma cache_insert_bounded:
  assumes "distinct (map fst xs)" and "length xs \<le> max 1 c"
  shows "length (snd (cache_insert c k e xs)) \<le> max 1 c"
proof (cases "k \<in> fst ` set xs")
  case True
  then have "0 < length xs" by (cases xs) auto
  then show ?thesis using True assms by (simp add: cache_insert_def length_drop_key)
qed (simp add: cache_insert_def)

lemma cache_step_bounded:
  assumes "distinct (map fst xs)" and "length xs \<le> max 1 c"
  shows "length (snd (cache_step c xs x)) \<le> max 1 c"
proof (cases x)
  case (LookupOp k)
  have "0 < length xs" if "map_of xs k = Some e" for e using that by (cases xs) auto
  then show ?thesis
    using LookupOp assms
    by (auto simp: cache_lookup_def length_drop_key split: option.split)
       (metis fst_conv image_eqI map_of_SomeD)
next
  case (RemoveOp k)
  then show ?thesis using assms by (simp add: cache_remove_def length_drop_key)
qed (use assms cache_insert_bounded in simp)

lemma map_of_take:
  assumes "distinct (map fst xs)"
  shows "map_of (take c xs) q = (if q \<in> fst ` set (drop c xs) then None else map_of xs q)"
proof -
  have "distinct (map fst (take c xs @ drop c xs))" using assms by simp
  then have d: "fst ` set (take c xs) \<inter> fst ` set (drop c xs) = {}"
    unfolding map_append distinct_append by simp
  have "map_of xs q = (map_of (drop c xs) ++ map_of (take c xs)) q"
    by (metis append_take_drop_id map_of_append)
  moreover have "q \<notin> fst ` set (take c xs)" if "q \<in> fst ` set (drop c xs)" using that d by blast
  ultimately show ?thesis
    by (cases "q \<in> fst ` set (drop c xs)")
       (simp_all add: map_add_def map_of_eq_None_iff [THEN iffD2] split: option.splits)
qed

lemma cache_insert_lookup:
  assumes "distinct (map fst xs)"
  shows "map_of (snd (cache_insert c k e xs)) q =
    (if q = k then Some e else if q \<in> set (fst (cache_insert c k e xs)) then None else map_of xs q)"
  using map_of_take [OF assms, of "c - 1" q] by (auto simp: cache_insert_def)

section \<open>The contract of a bounded LRU cache\<close>

locale lru_cache =
  fixes lk :: "'k \<Rightarrow> 's \<Rightarrow> ('e option \<times> 's) res"
    and ins :: "'k \<Rightarrow> 'e \<Rightarrow> 's \<Rightarrow> ('k list \<times> 's) res"
    and rm :: "'k \<Rightarrow> 's \<Rightarrow> ('e option \<times> 's) res"
    and cap :: "'s \<Rightarrow> usize"
    and view :: "'s \<Rightarrow> ('k \<times> 'e) list"
    and inv :: "'s \<Rightarrow> bool"
  assumes distinct_view: "inv s \<Longrightarrow> distinct (map fst (view s))"
    and lk_ok: "inv s \<Longrightarrow> \<exists>s'. lk k s = Inr (fst (cache_lookup k (view s)), s') \<and> inv s' \<and>
      cap s' = cap s \<and> view s' = snd (cache_lookup k (view s))"
    and ins_ok: "inv s \<Longrightarrow> \<exists>s'. ins k e s = Inr (fst (cache_insert (cap s) k e (view s)), s') \<and> inv s' \<and>
      cap s' = cap s \<and> view s' = snd (cache_insert (cap s) k e (view s))"
    and rm_ok: "inv s \<Longrightarrow> \<exists>s'. rm k s = Inr (fst (cache_remove k (view s)), s') \<and> inv s' \<and>
      cap s' = cap s \<and> view s' = snd (cache_remove k (view s))"
begin

lemma step_refines:
  assumes "inv s"
  shows "\<exists>s'. cache_op_run lk ins rm s x = Inr (fst (cache_step (cap s) (view s) x), s') \<and> inv s' \<and>
     cap s' = cap s \<and> view s' = snd (cache_step (cap s) (view s) x)"
proof (cases x)
  case (LookupOp k)
  then show ?thesis using lk_ok [OF assms, of k] by auto
next
  case (InsertOp k e)
  then show ?thesis using ins_ok [OF assms, of k e] by auto
next
  case (RemoveOp k)
  then show ?thesis using rm_ok [OF assms, of k] by auto
qed

lemma ops_refine:
  assumes "inv s"
  shows "\<exists>s'. cache_ops_run (cache_op_run lk ins rm) s xs = Inr (fst (cache_run (cap s) (view s) xs), s') \<and>
     inv s' \<and> cap s' = cap s \<and> view s' = snd (cache_run (cap s) (view s) xs)"
  using assms
proof (induction xs arbitrary: s)
  case Nil
  then show ?case by simp
next
  case (Cons x xs)
  obtain s1 where s1: "cache_op_run lk ins rm s x = Inr (fst (cache_step (cap s) (view s) x), s1)" "inv s1"
      "cap s1 = cap s" "view s1 = snd (cache_step (cap s) (view s) x)"
    using step_refines [OF Cons.prems] by blast
  then show ?case using Cons.IH [OF s1(2)] by (auto simp: split_beta Let_def)
qed

lemma ops_bounded:
  assumes "inv s" and "length (view s) \<le> max 1 (cap s)"
    and "cache_ops_run (cache_op_run lk ins rm) s xs = Inr (os, s')"
  shows "inv s' \<and> cap s' = cap s \<and> length (view s') \<le> max 1 (cap s)"
  using assms
proof (induction xs arbitrary: s os)
  case Nil
  then show ?case by simp
next
  case (Cons x xs)
  obtain s1 where s1: "cache_op_run lk ins rm s x = Inr (fst (cache_step (cap s) (view s) x), s1)" "inv s1"
      "cap s1 = cap s" "view s1 = snd (cache_step (cap s) (view s) x)"
    using step_refines [OF Cons.prems(1)] by blast
  have "length (view s1) \<le> max 1 (cap s1)"
    using cache_step_bounded [OF distinct_view [OF Cons.prems(1)] Cons.prems(2)] s1(3,4) by simp
  then show ?case using Cons.IH [OF s1(2)] Cons.prems(3) s1(1,3) by (auto simp: split_beta)
qed

lemma lk_Inr:
  assumes "inv s" and "lk k s = Inr (r, s')"
  shows "r = map_of (view s) k" and "inv s'" and "cap s' = cap s" and "map_of (view s') = map_of (view s)"
    and "length (view s') = length (view s)"
proof -
  obtain s1 where s1: "lk k s = Inr (fst (cache_lookup k (view s)), s1)" "inv s1" "cap s1 = cap s"
      "view s1 = snd (cache_lookup k (view s))"
    using lk_ok [OF assms(1)] by blast
  have s': "s' = s1" and r: "r = fst (cache_lookup k (view s))" using s1(1) assms(2) by simp_all
  show "r = map_of (view s) k" and "inv s'" and "cap s' = cap s"
    using s1 s' r by (auto simp: cache_lookup_def split: option.split)
  show "map_of (view s') = map_of (view s)"
    using s1 s' by (auto simp: cache_lookup_def fun_eq_iff split: option.split)
  have "0 < length xs" if "map_of xs k = Some e" for e and xs :: "('k \<times> 'e) list" using that by (cases xs) auto
  then show "length (view s') = length (view s)"
    using s1(4) s' distinct_view [OF assms(1)]
    by (auto simp: cache_lookup_def length_drop_key split: option.split)
       (force dest: map_of_SomeD)
qed

lemma ins_Inr:
  assumes "inv s" and "ins k e s = Inr (ev, s')"
  shows "inv s'" and "cap s' = cap s" and "ev = fst (cache_insert (cap s) k e (view s))"
    and "view s' = snd (cache_insert (cap s) k e (view s))"
  using ins_ok [OF assms(1), of k e] assms(2) by auto

lemma rm_Inr:
  assumes "inv s" and "rm k s = Inr (r, s')"
  shows "r = map_of (view s) k" and "inv s'" and "cap s' = cap s" and "view s' = drop_key k (view s)"
  using rm_ok [OF assms(1), of k] assms(2) by (auto simp: cache_remove_def)

end

section \<open>The index keeps the contract\<close>

lemma map_of_view:
  assumes "index_inv I"
  shows "map_of (index_view I) k = fmlookup (bi_map I) k"
proof -
  have "map_of (index_view I) k =
      (if k \<in> fmdom' (bi_map I) then Some (the (fmlookup (bi_map I) k)) else None)"
    using assms by (simp add: index_view_def index_inv_def map_of_map_restrict restrict_map_def)
  then show ?thesis by (cases "fmlookup (bi_map I) k") (simp_all add: fmlookup_dom'_iff)
qed

lemma view_keys: "map fst (index_view I) = lru_order (bi_lru I)"
  by (simp add: index_view_def comp_def)

lemma view_len: "index_inv I \<Longrightarrow> length (index_view I) = index_len I"
  using lru.distinct_order [of "bi_lru I"]
  by (simp add: index_view_def index_len_def index_inv_def hm_len_eq_card distinct_card)

lemma index_inv_dom: "index_inv I \<Longrightarrow> fmdom' (bi_map I) = set (lru_order (bi_lru I))"
  by (simp add: index_inv_def)

lemma index_inv_lookup:
  "index_inv I \<Longrightarrow> k \<in> set (lru_order (bi_lru I)) \<longleftrightarrow> fmlookup (bi_map I) k \<noteq> None"
  unfolding index_inv_dom [symmetric] by (auto simp: fmlookup_dom'_iff)

lemma index_lookup_ok:
  assumes "index_inv I"
  shows "\<exists>I'. index_lookup k I = Inr (fst (cache_lookup k (index_view I)), I') \<and> index_inv I' \<and>
     bi_capacity I' = bi_capacity I \<and> index_view I' = snd (cache_lookup k (index_view I))"
proof (cases "fmlookup (bi_map I) k")
  case None
  then show ?thesis using assms map_of_view [OF assms] by (simp add: index_lookup_def cache_lookup_def)
next
  case (Some e)
  have inv: "lru_inv (bi_lru I)" using assms by (simp add: index_inv_def)
  obtain l where l: "touch k (bi_lru I) = Inr l" "lru_inv l" "lru_order l = k # remove1 k (lru_order (bi_lru I))"
    using lru.tc_ok [OF inv] by blast
  have k: "k \<in> set (lru_order (bi_lru I))"
    using Some by (simp add: index_inv_lookup [OF assms])
  note d = lru.distinct_order [OF inv]
  have "fmdom' (bi_map I) = set (lru_order l)"
    unfolding l(3) index_inv_dom [OF assms] using k set_remove1_eq [OF d, of k] by simp blast
  moreover have "index_view (I\<lparr>bi_lru := l\<rparr>) = (k, e) # drop_key k (index_view I)"
    using Some d by (simp add: index_view_def l(3) drop_key_map)
  ultimately show ?thesis
    using Some l assms map_of_view [OF assms, of k]
    by (simp add: index_lookup_def cache_lookup_def index_inv_def)
qed

lemma evict_while_ok:
  assumes "lru_inv l" and "fmdom' m = set (lru_order l)"
  shows "\<exists>m' l'. evict_while c m l ev = Inr (m', l', ev @ rev (drop (c - 1) (lru_order l))) \<and> lru_inv l' \<and>
     lru_order l' = take (c - 1) (lru_order l) \<and> fmdom' m' = set (lru_order l') \<and>
     (\<forall>k \<in> fmdom' m'. fmlookup m' k = fmlookup m k)"
  using assms
proof (induction c m l ev rule: evict_while.induct)
  case (1 c m l ev)
  have d: "distinct (lru_order l)" using "1.prems" lru.distinct_order by simp
  have len: "hm_len m = length (lru_order l)"
    using "1.prems" d by (simp add: hm_len_eq_card distinct_card)
  show ?case
  proof (cases "c \<le> hm_len m")
    case False
    then have "length (lru_order l) \<le> c - 1" using len by simp
    then show ?thesis using False "1.prems" by (simp add: evict_while.simps [of c m l ev])
  next
    case True
    show ?thesis
    proof (cases "lru_order l" rule: rev_cases)
      case Nil
      then show ?thesis
        using True "1.prems" lru.ev_None by (simp add: evict_while.simps [of c m l ev])
    next
      case (snoc ks k)
      obtain l1 where l1: "evict_lru l = Inr (Some k, l1)" "lru_inv l1" "lru_order l1 = ks"
        using lru.ev_Some [OF "1.prems"(1) snoc] by blast
      have dm: "fmdom' (fmdrop k m) = set (lru_order l1)"
        using "1.prems"(2) snoc d l1(3) by auto
      obtain m' l' where r: "evict_while c (fmdrop k m) l1 (ev @ [k]) =
            Inr (m', l', (ev @ [k]) @ rev (drop (c - 1) (lru_order l1)))" "lru_inv l'"
          "lru_order l' = take (c - 1) (lru_order l1)" "fmdom' m' = set (lru_order l')"
          "\<forall>q \<in> fmdom' m'. fmlookup m' q = fmlookup (fmdrop k m) q"
        using "1.IH" [OF True l1(1) _ _ l1(2) dm] by auto
      have c: "c - 1 \<le> length ks" using True len snoc by simp
      have "k \<notin> fmdom' m'" using r(3,4) l1(3) d snoc by (auto dest: in_set_takeD)
      then have "\<forall>q \<in> fmdom' m'. fmlookup m' q = fmlookup m q" using r(5) by auto
      then show ?thesis
        using True l1 r snoc c by (simp add: evict_while.simps [of c m l ev])
    qed
  qed
qed

lemma index_entry_eta [simp]: "\<lparr>ie_blocks = ie_blocks e, ie_created_at = ie_created_at e\<rparr> = e"
  by (cases e) simp

lemma index_put_update:
  assumes "index_inv I" and "fmlookup (bi_map I) k \<noteq> None"
  shows "\<exists>I'. index_put k e I = Inr ([], I') \<and> index_inv I' \<and> bi_capacity I' = bi_capacity I \<and>
     index_view I' = (k, e) # drop_key k (index_view I)"
proof -
  have inv: "lru_inv (bi_lru I)" using assms by (simp add: index_inv_def)
  obtain l where l: "touch k (bi_lru I) = Inr l" "lru_inv l" "lru_order l = k # remove1 k (lru_order (bi_lru I))"
    using lru.tc_ok [OF inv] by blast
  have k: "k \<in> set (lru_order (bi_lru I))" using assms(2) by (simp add: index_inv_lookup [OF assms(1)])
  note d = lru.distinct_order [OF inv]
  have dom: "insert k (fmdom' (bi_map I)) = set (lru_order l)"
    unfolding l(3) index_inv_dom [OF assms(1)] using k set_remove1_eq [OF d, of k] by simp
  have kd: "k |\<in>| fmdom (bi_map I)" using assms(2) by (auto simp: fmlookup_dom_iff)
  let ?I = "I\<lparr>bi_map := fmupd k e (bi_map I), bi_lru := l\<rparr>"
  have "map (\<lambda>q. (q, the (fmlookup (fmupd k e (bi_map I)) q))) (remove1 k (lru_order (bi_lru I))) =
      map (\<lambda>q. (q, the (fmlookup (bi_map I) q))) (remove1 k (lru_order (bi_lru I)))"
    using d by auto
  then have "index_view ?I = (k, e) # drop_key k (index_view I)"
    using d by (simp add: index_view_def l(3) drop_key_map)
  moreover have "index_put k e I = Inr ([], ?I)"
    using kd l(1) by (simp add: index_put_def index_insert_def)
  ultimately show ?thesis using dom l(2) by (simp add: index_inv_def)
qed

lemma index_put_new:
  assumes "index_inv I" and "fmlookup (bi_map I) k = None"
  defines "c \<equiv> bi_capacity I"
  shows "\<exists>I'. index_put k e I = Inr (rev (map fst (drop (c - 1) (index_view I))), I') \<and> index_inv I' \<and>
     bi_capacity I' = c \<and> index_view I' = (k, e) # take (c - 1) (index_view I)"
proof -
  have inv: "lru_inv (bi_lru I)" using assms by (simp add: index_inv_def)
  obtain m l where ml: "evict_while c (bi_map I) (bi_lru I) [] =
        Inr (m, l, [] @ rev (drop (c - 1) (lru_order (bi_lru I))))" "lru_inv l"
      "lru_order l = take (c - 1) (lru_order (bi_lru I))" "fmdom' m = set (lru_order l)"
      "\<forall>q \<in> fmdom' m. fmlookup m q = fmlookup (bi_map I) q"
    using evict_while_ok [OF inv index_inv_dom [OF assms(1)], of c "[]"] by blast
  obtain l' where l': "touch k l = Inr l'" "lru_inv l'" "lru_order l' = k # remove1 k (lru_order l)"
    using lru.tc_ok [OF ml(2)] by blast
  have k: "k \<notin> set (lru_order (bi_lru I))" using assms(2) by (simp add: index_inv_lookup [OF assms(1)])
  then have kl: "k \<notin> set (lru_order l)" unfolding ml(3) by (auto dest: in_set_takeD)
  have o: "lru_order l' = k # lru_order l" using l'(3) kl by (simp add: remove1_idem)
  have kd: "k |\<notin>| fmdom (bi_map I)" using assms(2) by (simp add: fmlookup_dom_iff)
  let ?I = "I\<lparr>bi_map := fmupd k e m, bi_lru := l'\<rparr>"
  have "map (\<lambda>q. (q, the (fmlookup (fmupd k e m) q))) (lru_order l) =
      map (\<lambda>q. (q, the (fmlookup (bi_map I) q))) (lru_order l)"
    using kl ml(4,5) by auto
  then have "index_view ?I = (k, e) # take (c - 1) (index_view I)"
    by (simp add: index_view_def o ml(3) take_map)
  moreover have "index_put k e I = Inr (rev (drop (c - 1) (lru_order (bi_lru I))), ?I)"
    using kd ml(1) l'(1) by (simp add: index_put_def index_insert_def c_def)
  moreover have "rev (drop (c - 1) (lru_order (bi_lru I))) = rev (map fst (drop (c - 1) (index_view I)))"
    by (simp add: drop_map view_keys flip: drop_map)
  ultimately show ?thesis using ml(4) o l'(2) by (simp add: index_inv_def c_def)
qed

lemma index_put_ok:
  assumes "index_inv I"
  shows "\<exists>I'. index_put k e I = Inr (fst (cache_insert (bi_capacity I) k e (index_view I)), I') \<and> index_inv I' \<and>
     bi_capacity I' = bi_capacity I \<and> index_view I' = snd (cache_insert (bi_capacity I) k e (index_view I))"
proof -
  have "k \<in> fst ` set (index_view I) \<longleftrightarrow> fmlookup (bi_map I) k \<noteq> None"
    using index_inv_lookup [OF assms, of k] by (simp flip: set_map add: view_keys)
  then show ?thesis
    using index_put_update [OF assms, of k e] index_put_new [OF assms, of k e]
    by (cases "fmlookup (bi_map I) k = None") (simp_all add: cache_insert_def)
qed

lemma index_remove_ok:
  assumes "index_inv I"
  shows "\<exists>I'. index_remove k I = Inr (fst (cache_remove k (index_view I)), I') \<and> index_inv I' \<and>
     bi_capacity I' = bi_capacity I \<and> index_view I' = snd (cache_remove k (index_view I))"
proof (cases "fmlookup (bi_map I) k")
  case None
  then have "k \<notin> fst ` set (index_view I)"
    using index_inv_lookup [OF assms, of k] by (simp flip: set_map add: view_keys)
  then show ?thesis using None assms map_of_view [OF assms, of k]
    by (simp add: index_remove_def cache_remove_def drop_key_id)
next
  case (Some e)
  have inv: "lru_inv (bi_lru I)" using assms by (simp add: index_inv_def)
  obtain l where l: "lru_remove k (bi_lru I) = Inr l" "lru_inv l" "lru_order l = remove1 k (lru_order (bi_lru I))"
    using lru.rm_ok [OF inv] by blast
  note d = lru.distinct_order [OF inv]
  let ?I = "I\<lparr>bi_map := fmdrop k (bi_map I), bi_lru := l\<rparr>"
  have dom: "fmdom' (fmdrop k (bi_map I)) = set (lru_order l)"
    unfolding l(3) fmdom'_drop index_inv_dom [OF assms] using set_remove1_eq [OF d, of k] by simp
  have "map (\<lambda>q. (q, the (fmlookup (fmdrop k (bi_map I)) q))) (remove1 k (lru_order (bi_lru I))) =
      map (\<lambda>q. (q, the (fmlookup (bi_map I) q))) (remove1 k (lru_order (bi_lru I)))"
    using d by auto
  then have "index_view ?I = drop_key k (index_view I)"
    using d by (simp add: index_view_def l(3) drop_key_map)
  then show ?thesis
    using Some l dom map_of_view [OF assms, of k]
    by (simp add: index_remove_def cache_remove_def index_inv_def)
qed

interpretation idx: lru_cache index_lookup index_put index_remove bi_capacity index_view index_inv
proof unfold_locales
  fix I :: block_index
  assume "index_inv I"
  then show "distinct (map fst (index_view I))"
    unfolding view_keys by (intro lru.distinct_order) (simp add: index_inv_def)
qed (fact index_lookup_ok index_put_ok index_remove_ok)+

lemma index_new_inv: "index_inv (index_new c)" and index_new_view: "index_view (index_new c) = []"
  using lru.new_ok by (simp_all add: index_inv_def index_new_def index_view_def)

lemma index_new_capacity: "bi_capacity (index_new c) = c"
  by (simp add: index_new_def)

section \<open>Properties\<close>

text \<open>C26: The index refines a bounded LRU cache kept as a list of bindings. For every capacity and
  every sequence of lookups, inserts and removals on a new index no slab access panics, every
  lookup and removal returns what the list holds, every insert reports exactly the evictions of
  the list (from the least recently used end, none for an update of a present key), and the final
  entries, their order and the reported number of entries agree with the list.\<close>

theorem index_refines_cache:
  "\<exists>I. index_run (index_new c) ops = Inr (fst (cache_run c [] ops), I) \<and> index_inv I \<and>
     index_view I = snd (cache_run c [] ops) \<and> index_len I = length (snd (cache_run c [] ops))"
  using idx.ops_refine [OF index_new_inv, of c ops] view_len
  by (fastforce simp: index_run_def index_step_def index_new_view index_new_capacity)

text \<open>The index never holds more entries than its capacity, whatever the sequence of
  operations, except that a capacity of zero still admits one entry.\<close>

lemma index_capacity_bound:
  assumes "index_run (index_new c) ops = Inr (os, I)"
  shows "index_len I \<le> max 1 c"
  using idx.ops_bounded [OF index_new_inv, of c ops os I] assms view_len [of I]
  by (simp add: index_run_def index_step_def index_new_view index_new_capacity)

text \<open>After an insert into a well-formed index, a lookup of the inserted key finds exactly what was
  inserted, a lookup of a key that the insert reported as evicted misses, and a lookup of any
  other key gives what it gave before.\<close>

lemma index_insert_then_lookup:
  assumes "index_inv I" and "index_insert k blocks t I = Inr (ev, I1)"
    and "index_lookup q I1 = Inr (r, I2)"
  shows "r = (if q = k then Some \<lparr>ie_blocks = blocks, ie_created_at = t\<rparr>
              else if q \<in> set ev then None else fmlookup (bi_map I) q)"
proof -
  define e where "e = \<lparr>ie_blocks = blocks, ie_created_at = t\<rparr>"
  have put: "index_put k e I = Inr (ev, I1)" using assms(2) by (simp add: index_put_def e_def)
  note ins = idx.ins_Inr [OF assms(1) put]
  have r: "r = map_of (index_view I1) q" by (rule idx.lk_Inr(1) [OF ins(1) assms(3)])
  show ?thesis
    using cache_insert_lookup [OF idx.distinct_view [OF assms(1)], of _ k e q] ins(3,4) r
      map_of_view [OF assms(1), of q]
    by (simp add: e_def)
qed

end
