(* ===== verification/Placement.thy ===== *)
theory Placement
  imports BlockHeader
begin

text \<open>
  The consistent-hash ring of \<^verbatim>\<open>crates/cmx-agent/src/placement.rs\<close>. The ring is a
  \<open>BTreeMap\<close> from a 64-bit position to a node, that is a list of bindings in increasing order
  of position. Positions come from SHA-256 and keys are written in hexadecimal; both functions
  are fields of \<open>platform\<close>.

  \<open>ring_spec\<close> says which node owns a position without reference to the walk over the map: the
  one at the least ring position not before it, or at the least position at all. The locale
  \<open>placement\<close> is the contract of a placement under membership changes; \<open>ring\<close> interprets it.
\<close>

section \<open>State and operations\<close>

record hash_ring =
  hr_ring :: "(u64, string) btree"
  hr_vnodes_per_node :: u32
  hr_nodes :: "string list"

definition ring_new :: "u32 \<Rightarrow> hash_ring" where
  "ring_new vnodes_per_node = \<lparr>hr_ring = [], hr_vnodes_per_node = vnodes_per_node, hr_nodes = []\<rparr>"

definition hash_position :: "platform \<Rightarrow> string \<Rightarrow> u64" where
  "hash_position pf key = be_decode (take 8 (sha256_of pf (str_bytes key)))"

definition vnode_key :: "string \<Rightarrow> nat \<Rightarrow> string" where
  "vnode_key node_id i = node_id @ '':'' @ str_dec i"

definition add_node :: "platform \<Rightarrow> string \<Rightarrow> hash_ring \<Rightarrow> hash_ring" where
  "add_node pf node_id R =
     (if node_id \<in> set (hr_nodes R) then R
      else R\<lparr>hr_ring := fold (\<lambda>i m. bt_insert (hash_position pf (vnode_key node_id i)) node_id m)
                             [0..<unat (hr_vnodes_per_node R)] (hr_ring R),
             hr_nodes := hr_nodes R @ [node_id]\<rparr>)"

definition remove_node :: "string \<Rightarrow> hash_ring \<Rightarrow> hash_ring" where
  "remove_node node_id R =
     R\<lparr>hr_ring := bt_retain (\<lambda>_ v. v \<noteq> node_id) (hr_ring R),
       hr_nodes := filter (\<lambda>n. n \<noteq> node_id) (hr_nodes R)\<rparr>"

definition preferred_node :: "platform \<Rightarrow> hash_ring \<Rightarrow> hash16 \<Rightarrow> string option" where
  "preferred_node pf R prefix_hash =
     (if hr_ring R = [] then None
      else
        let pos = hash_position pf (hex_encode_of pf prefix_hash) in
        map_option snd
          (case bt_from pos (hr_ring R) of
             b # _ \<Rightarrow> Some b
           | [] \<Rightarrow> (case hr_ring R of b # _ \<Rightarrow> Some b | [] \<Rightarrow> None)))"

text \<open>The walk of \<open>preferred_nodes\<close>: \<open>seen\<close> and \<open>result\<close> are the two local collections.\<close>

fun collect_nodes :: "usize \<Rightarrow> (u64 \<times> string) list \<Rightarrow> string set \<Rightarrow> string list \<Rightarrow> string list" where
  "collect_nodes n [] seen result = result"
| "collect_nodes n ((_, node_id) # bs) seen result =
     (if node_id \<notin> seen then
        let result1 = result @ [node_id] in
        if length result1 \<ge> n then result1 else collect_nodes n bs (insert node_id seen) result1
      else collect_nodes n bs seen result)"

definition preferred_nodes :: "platform \<Rightarrow> hash_ring \<Rightarrow> hash16 \<Rightarrow> usize \<Rightarrow> string list" where
  "preferred_nodes pf R prefix_hash n =
     (if hr_ring R = [] then []
      else
        let pos = hash_position pf (hex_encode_of pf prefix_hash) in
        collect_nodes n (bt_from pos (hr_ring R) @ hr_ring R) {} [])"

definition node_count :: "hash_ring \<Rightarrow> usize" where
  "node_count R = length (hr_nodes R)"

section \<open>Invariant and specification\<close>

definition ring_inv :: "hash_ring \<Rightarrow> bool" where
  "ring_inv R \<longleftrightarrow> bt_wf (hr_ring R) \<and> distinct (hr_nodes R) \<and> snd ` set (hr_ring R) \<subseteq> set (hr_nodes R)"

text \<open>Where the virtual nodes of a node lie.\<close>

definition vnode_positions :: "platform \<Rightarrow> hash_ring \<Rightarrow> string \<Rightarrow> u64 set" where
  "vnode_positions pf R n = (\<lambda>i. hash_position pf (vnode_key n i)) ` {..<unat (hr_vnodes_per_node R)}"

text \<open>The owner of a position among a set of bindings.\<close>

definition is_successor :: "u64 \<Rightarrow> (u64 \<times> string) set \<Rightarrow> u64 \<times> string \<Rightarrow> bool" where
  "is_successor pos B b \<longleftrightarrow> b \<in> B \<and>
     (if \<exists>c \<in> B. pos \<le> fst c then pos \<le> fst b \<and> (\<forall>c \<in> B. pos \<le> fst c \<longrightarrow> fst b \<le> fst c)
      else \<forall>c \<in> B. fst b \<le> fst c)"

datatype membership = Join string | Leave string

fun member_step :: "(string \<Rightarrow> 'r \<Rightarrow> 'r) \<Rightarrow> (string \<Rightarrow> 'r \<Rightarrow> 'r) \<Rightarrow> membership \<Rightarrow> 'r \<Rightarrow> 'r" where
  "member_step add rem (Join n) r = add n r"
| "member_step add rem (Leave n) r = rem n r"

definition member_run :: "(string \<Rightarrow> 'r \<Rightarrow> 'r) \<Rightarrow> (string \<Rightarrow> 'r \<Rightarrow> 'r) \<Rightarrow> membership list \<Rightarrow> 'r \<Rightarrow> 'r" where
  "member_run add rem es r = fold (member_step add rem) es r"

fun members_after :: "string list \<Rightarrow> membership list \<Rightarrow> string list" where
  "members_after ns [] = ns"
| "members_after ns (Join n # es) = members_after (if n \<in> set ns then ns else ns @ [n]) es"
| "members_after ns (Leave n # es) = members_after (filter (\<lambda>x. x \<noteq> n) ns) es"

text \<open>The ring after a history of membership changes.\<close>

definition ring_after :: "platform \<Rightarrow> u32 \<Rightarrow> membership list \<Rightarrow> hash_ring" where
  "ring_after pf v es = member_run (add_node pf) remove_node es (ring_new v)"

section \<open>The contract of a placement\<close>

locale placement =
  fixes add :: "string \<Rightarrow> 'r \<Rightarrow> 'r"
    and rem :: "string \<Rightarrow> 'r \<Rightarrow> 'r"
    and pref :: "'r \<Rightarrow> 'k \<Rightarrow> string option"
    and nodes :: "'r \<Rightarrow> string list"
    and inv :: "'r \<Rightarrow> bool"
  assumes add_inv: "inv r \<Longrightarrow> inv (add n r)"
    and rem_inv: "inv r \<Longrightarrow> inv (rem n r)"
    and add_nodes: "nodes (add n r) = (if n \<in> set (nodes r) then nodes r else nodes r @ [n])"
    and rem_nodes: "nodes (rem n r) = filter (\<lambda>x. x \<noteq> n) (nodes r)"
    and pref_member: "inv r \<Longrightarrow> pref r k = Some n \<Longrightarrow> n \<in> set (nodes r)"
    and add_moves: "inv r \<Longrightarrow> pref (add n r) k = pref r k \<or> pref (add n r) k = Some n"
    and rem_keeps: "inv r \<Longrightarrow> pref r k \<noteq> Some n \<Longrightarrow> pref (rem n r) k = pref r k"
begin

lemma run_inv: "inv r \<Longrightarrow> inv (member_run add rem es r)"
proof (induction es arbitrary: r)
  case (Cons e es)
  then show ?case by (cases e) (simp_all add: member_run_def add_inv rem_inv)
qed (simp add: member_run_def)

lemma run_nodes: "nodes (member_run add rem es r) = members_after (nodes r) es"
proof (induction es arbitrary: r)
  case (Cons e es)
  then show ?case by (cases e) (simp_all add: member_run_def add_nodes rem_nodes)
qed (simp add: member_run_def)

lemma run_moves:
  assumes "inv r" and "pref r k = Some n"
    and "\<forall>m. Leave m \<in> set es \<longrightarrow> m \<noteq> n \<and> Join m \<notin> set es"
  shows "pref (member_run add rem es r) k = Some n \<or>
         (\<exists>m. Join m \<in> set es \<and> pref (member_run add rem es r) k = Some m)"
proof -
  have "\<exists>m. (m = n \<or> Join m \<in> set es) \<and> pref (member_run add rem fs r) k = Some m"
    if "inv r" "pref r k = Some m" "m = n \<or> Join m \<in> set es" "set fs \<subseteq> set es" for fs r m
    using that
  proof (induction fs arbitrary: r m)
    case Nil
    then show ?case by (auto simp: member_run_def)
  next
    case (Cons e fs)
    show ?case
    proof (cases e)
      case (Join j)
      have "pref (add j r) k = Some m \<or> pref (add j r) k = Some j"
        using add_moves [OF Cons.prems(1), of j k] Cons.prems(2) by simp
      moreover have "Join j \<in> set es" using Cons.prems(4) Join by simp
      ultimately obtain m' where "pref (add j r) k = Some m'" "m' = n \<or> Join m' \<in> set es"
        using Cons.prems(3) by blast
      then show ?thesis
        using Cons.IH [OF add_inv [OF Cons.prems(1)]] Cons.prems(4) Join by (simp add: member_run_def)
    next
      case (Leave j)
      then have "Leave j \<in> set es" using Cons.prems(4) by simp
      then have "j \<noteq> m" using assms(3) Cons.prems(3) by blast
      then have "pref (rem j r) k = Some m" using rem_keeps [OF Cons.prems(1)] Cons.prems(2) by simp
      then show ?thesis
        using Cons.IH [OF rem_inv [OF Cons.prems(1)]] Cons.prems(3,4) Leave by (simp add: member_run_def)
    qed
  qed
  from this [OF assms(1,2), of es] show ?thesis by auto
qed

end

section \<open>Successors\<close>

lemma successor_mono:
  assumes "is_successor pos B' b" and "b \<in> B" and "fst ` B \<subseteq> fst ` B'"
  shows "is_successor pos B b"
proof -
  have sub: "\<exists>d \<in> B'. fst d = fst c" if "c \<in> B" for c
    using that assms(3) by (metis imageE image_subset_iff)
  show ?thesis
  proof (cases "\<exists>c \<in> B'. pos \<le> fst c")
    case True
    then have "pos \<le> fst b" "\<forall>c \<in> B'. pos \<le> fst c \<longrightarrow> fst b \<le> fst c"
      using assms(1) by (auto simp: is_successor_def)
    then show ?thesis using assms(2) sub unfolding is_successor_def by metis
  next
    case False
    then have "\<forall>c \<in> B'. fst b \<le> fst c" using assms(1) by (auto simp: is_successor_def)
    moreover have "\<not> (\<exists>c \<in> B. pos \<le> fst c)" using False sub by metis
    ultimately show ?thesis using assms(2) sub unfolding is_successor_def by metis
  qed
qed

lemma successor_unique:
  assumes "bt_wf m" and "is_successor pos (set m) b" and "is_successor pos (set m) c"
  shows "b = c"
proof -
  have "fst b \<le> fst c" "fst c \<le> fst b" "b \<in> set m" "c \<in> set m"
    using assms(2,3) by (auto simp: is_successor_def split: if_splits)
  then show ?thesis using bt_wf_distinct [OF assms(1)] by (force simp: distinct_map inj_on_def)
qed

lemma hd_least: "bt_wf (b # m) \<Longrightarrow> c \<in> set (b # m) \<Longrightarrow> fst b \<le> fst c"
  by (auto simp: bt_wf_def less_imp_le)

lemma successor_first:
  assumes "bt_wf m" and "bt_from pos m = b # bs"
  shows "is_successor pos (set m) b"
proof -
  have set: "c \<in> set (b # bs) \<longleftrightarrow> c \<in> set m \<and> pos \<le> fst c" for c
    unfolding assms(2) [symmetric] by (auto simp: bt_from_def)
  have "bt_wf (b # bs)" unfolding assms(2) [symmetric] using assms(1) by (simp add: bt_from_def)
  then have "fst b \<le> fst c" if "c \<in> set m" "pos \<le> fst c" for c using hd_least set that by blast
  moreover have "b \<in> set m \<and> pos \<le> fst b" using set [of b] by simp
  ultimately show ?thesis by (auto simp: is_successor_def)
qed

lemma successor_wraps:
  assumes "bt_wf (b # m)" and "bt_from pos (b # m) = []"
  shows "is_successor pos (set (b # m)) b"
proof -
  have "\<not> (\<exists>c \<in> set (b # m). pos \<le> fst c)" using assms(2) unfolding bt_from_def filter_empty_conv by blast
  then show ?thesis using hd_least [OF assms(1)] by (auto simp: is_successor_def)
qed

abbreviation key_position :: "platform \<Rightarrow> hash16 \<Rightarrow> u64" where
  "key_position pf k \<equiv> hash_position pf (hex_encode_of pf k)"

lemma preferred_node_None: "preferred_node pf R k = None \<longleftrightarrow> hr_ring R = []"
  by (auto simp: preferred_node_def Let_def split: list.split)

lemma preferred_node_iff:
  assumes "bt_wf (hr_ring R)"
  shows "preferred_node pf R k = Some n \<longleftrightarrow>
    (\<exists>b. is_successor (key_position pf k) (set (hr_ring R)) b \<and> snd b = n)"
proof -
  have "\<exists>b. preferred_node pf R k = Some (snd b) \<and> is_successor (key_position pf k) (set (hr_ring R)) b"
    if ne: "hr_ring R \<noteq> []"
  proof (cases "bt_from (key_position pf k) (hr_ring R)")
    case Nil
    obtain b m where R: "hr_ring R = b # m" using ne by (cases "hr_ring R") auto
    have "preferred_node pf R k = Some (snd b)" using Nil R by (simp add: preferred_node_def Let_def)
    moreover have "is_successor (key_position pf k) (set (hr_ring R)) b"
      unfolding R using successor_wraps assms Nil R by simp
    ultimately show ?thesis by blast
  next
    case (Cons b bs)
    then have "preferred_node pf R k = Some (snd b)" using ne by (simp add: preferred_node_def Let_def)
    then show ?thesis using successor_first [OF assms Cons] by blast
  qed
  moreover have "hr_ring R \<noteq> []" if "is_successor (key_position pf k) (set (hr_ring R)) b" for b
    using that by (auto simp: is_successor_def)
  ultimately show ?thesis
    using successor_unique [OF assms] preferred_node_None [of pf R k] by (metis option.inject option.discI)
qed

section \<open>The ring keeps the contract\<close>

lemma fold_insert_ring:
  assumes "bt_wf m"
  shows "bt_wf (fold (\<lambda>i m. bt_insert (f i) v m) is m) \<and>
    set (fold (\<lambda>i m. bt_insert (f i) v m) is m) =
      {(f i, v) |i. i \<in> set is} \<union> {b \<in> set m. fst b \<notin> f ` set is}"
  using assms
proof (induction "is" arbitrary: m)
  case (Cons i "is")
  then show ?case using Cons.IH [of "bt_insert (f i) v m"] by (auto simp: set_bt_insert)
qed auto

lemma add_node_ring:
  assumes "bt_wf (hr_ring R)" and "n \<notin> set (hr_nodes R)"
  shows "bt_wf (hr_ring (add_node pf n R)) \<and>
    set (hr_ring (add_node pf n R)) =
      (\<lambda>p. (p, n)) ` vnode_positions pf R n \<union> {b \<in> set (hr_ring R). fst b \<notin> vnode_positions pf R n}"
proof -
  let ?m = "fold (\<lambda>i m. bt_insert (hash_position pf (vnode_key n i)) n m) [0..<unat (hr_vnodes_per_node R)] (hr_ring R)"
  have "hr_ring (add_node pf n R) = ?m" using assms(2) by (simp add: add_node_def)
  moreover have "{(hash_position pf (vnode_key n i), n) |i. i < unat (hr_vnodes_per_node R)} =
      (\<lambda>p. (p, n)) ` vnode_positions pf R n"
    by (auto simp: vnode_positions_def)
  ultimately show ?thesis
    using fold_insert_ring [OF assms(1), of "\<lambda>i. hash_position pf (vnode_key n i)" n "[0..<unat (hr_vnodes_per_node R)]"]
    by (simp add: vnode_positions_def atLeast0LessThan)
qed

lemma ring_inv_add: "ring_inv R \<Longrightarrow> ring_inv (add_node pf n R)"
proof -
  assume inv: "ring_inv R"
  show ?thesis
  proof (cases "n \<in> set (hr_nodes R)")
    case True
    then show ?thesis using inv by (simp add: add_node_def)
  next
    case False
    then have "hr_nodes (add_node pf n R) = hr_nodes R @ [n]" by (simp add: add_node_def)
    then show ?thesis
      using add_node_ring [of R n pf] inv False by (auto simp: ring_inv_def)
  qed
qed

lemma ring_inv_remove: "ring_inv R \<Longrightarrow> ring_inv (remove_node n R)"
  by (auto simp: ring_inv_def remove_node_def bt_retain_def)

lemma add_node_moves:
  assumes "ring_inv R"
  shows "preferred_node pf (add_node pf n R) k = preferred_node pf R k \<or>
         preferred_node pf (add_node pf n R) k = Some n"
proof (cases "n \<in> set (hr_nodes R) \<or> preferred_node pf (add_node pf n R) k = Some n")
  case True
  then show ?thesis by (auto simp: add_node_def)
next
  case False
  have wf: "bt_wf (hr_ring R)" using assms by (simp add: ring_inv_def)
  note ring = add_node_ring [OF wf, of n pf]
  show ?thesis
  proof (cases "preferred_node pf (add_node pf n R) k")
    case None
    then have "hr_ring (add_node pf n R) = []" by (simp add: preferred_node_None)
    then have none: "b \<notin> set (hr_ring R)" for b using ring False by (cases b) auto
    have "hr_ring R = []" by (cases "hr_ring R") (use none in auto)
    then show ?thesis using None preferred_node_None [of pf R k] by simp
  next
    case (Some m)
    have wf': "bt_wf (hr_ring (add_node pf n R))"
      and set': "set (hr_ring (add_node pf n R)) =
        (\<lambda>p. (p, n)) ` vnode_positions pf R n \<union> {b \<in> set (hr_ring R). fst b \<notin> vnode_positions pf R n}"
      using ring False by simp_all
    obtain b where b: "is_successor (key_position pf k) (set (hr_ring (add_node pf n R))) b" "snd b = m"
      using Some unfolding preferred_node_iff [OF wf'] by blast
    have "m \<noteq> n" using Some False by simp
    then have "b \<in> set (hr_ring R)" using b unfolding is_successor_def set' by auto
    moreover have "fst c \<in> fst ` set (hr_ring (add_node pf n R))" if "c \<in> set (hr_ring R)" for c
      using that unfolding set' by (cases "fst c \<in> vnode_positions pf R n") (simp_all add: image_Un image_image)
    ultimately have "is_successor (key_position pf k) (set (hr_ring R)) b"
      using successor_mono [OF b(1)] by blast
    then have "preferred_node pf R k = Some m" using b(2) unfolding preferred_node_iff [OF wf] by blast
    then show ?thesis using Some by simp
  qed
qed

lemma remove_node_keeps:
  assumes "ring_inv R" and "preferred_node pf R k \<noteq> Some n"
  shows "preferred_node pf (remove_node n R) k = preferred_node pf R k"
proof (cases "preferred_node pf R k")
  case None
  then show ?thesis by (simp add: preferred_node_def remove_node_def bt_retain_def Let_def split: if_splits list.splits)
next
  case (Some m)
  have wf: "bt_wf (hr_ring R)" "bt_wf (hr_ring (remove_node n R))"
    using assms(1) ring_inv_remove by (auto simp: ring_inv_def)
  obtain b where b: "is_successor (key_position pf k) (set (hr_ring R)) b" "snd b = m"
    using Some unfolding preferred_node_iff [OF wf(1)] by blast
  have "b \<in> set (hr_ring (remove_node n R))"
    using b Some assms(2) by (auto simp: is_successor_def remove_node_def bt_retain_def)
  then have "is_successor (key_position pf k) (set (hr_ring (remove_node n R))) b"
    by (rule successor_mono [OF b(1)]) (auto simp: remove_node_def bt_retain_def)
  then have "preferred_node pf (remove_node n R) k = Some m"
    using b(2) unfolding preferred_node_iff [OF wf(2)] by blast
  then show ?thesis using Some by simp
qed

lemma add_node_nodes:
  "hr_nodes (add_node pf n R) = (if n \<in> set (hr_nodes R) then hr_nodes R else hr_nodes R @ [n])"
  by (simp add: add_node_def)

lemma remove_node_nodes: "hr_nodes (remove_node n R) = filter (\<lambda>x. x \<noteq> n) (hr_nodes R)"
  by (simp add: remove_node_def)

lemma preferred_node_member:
  "ring_inv R \<Longrightarrow> preferred_node pf R k = Some n \<Longrightarrow> n \<in> set (hr_nodes R)"
  using preferred_node_iff [of R pf k n] by (auto simp: ring_inv_def is_successor_def)

interpretation ring: placement "add_node pf" remove_node "preferred_node pf" hr_nodes ring_inv for pf
  by unfold_locales
    (fact ring_inv_add ring_inv_remove add_node_nodes remove_node_nodes preferred_node_member
       add_node_moves remove_node_keeps)+

lemma ring_new_inv: "ring_inv (ring_new v)"
  by (simp add: ring_inv_def ring_new_def)

section \<open>The walk of \<open>preferred_nodes\<close>\<close>

fun nub :: "'a list \<Rightarrow> 'a list" where
  "nub [] = []"
| "nub (x # xs) = x # filter (\<lambda>y. y \<noteq> x) (nub xs)"

lemma set_nub [simp]: "set (nub xs) = set xs"
  by (induction xs) auto

lemma distinct_nub [simp]: "distinct (nub xs)"
  by (induction xs) auto

lemma collect_nodes_nub:
  "collect_nodes n bs seen result =
     result @ take (max 1 (n - length result)) (filter (\<lambda>x. x \<notin> seen) (nub (map snd bs)))"
proof (induction n bs seen result rule: collect_nodes.induct)
  case (2 n p x bs seen result)
  show ?case
  proof (cases "x \<in> seen")
    case True
    have "filter (\<lambda>y. y \<notin> seen) (filter (\<lambda>y. y \<noteq> x) ys) = filter (\<lambda>y. y \<notin> seen) ys" for ys
      using True by (auto simp: filter_filter intro!: filter_cong)
    then show ?thesis using 2 True by simp
  next
    case False
    show ?thesis
    proof (cases "n \<le> Suc (length result)")
      case True
      then have "max 1 (n - length result) = 1" by simp
      then show ?thesis using False True by (simp add: Let_def)
    next
      case more: False
      then have m: "max 1 (n - length result) = Suc (max 1 (n - Suc (length result)))" by simp
      have "filter (\<lambda>y. y \<notin> insert x seen) ys = filter (\<lambda>y. y \<notin> seen) (filter (\<lambda>y. y \<noteq> x) ys)" for ys
        by (auto simp: filter_filter intro!: filter_cong)
      then show ?thesis using 2 False more unfolding m by (simp add: Let_def)
    qed
  qed
qed simp

lemma preferred_nodes_nub:
  "preferred_nodes pf R k n =
     take (max 1 n) (nub (map snd (bt_from (key_position pf k) (hr_ring R) @ hr_ring R)))"
  by (simp add: preferred_nodes_def collect_nodes_nub Let_def bt_from_def)

lemma hd_preferred:
  assumes "hr_ring R \<noteq> []"
  shows "preferred_node pf R k = Some (hd (map snd (bt_from (key_position pf k) (hr_ring R) @ hr_ring R)))"
  using assms by (auto simp: preferred_node_def Let_def hd_append hd_map split: list.split)

lemma bt_wf_unique:
  assumes "bt_wf m" and "bt_wf m'" and "set m = set m'"
  shows "m = m'"
proof -
  have "map fst m = map fst m'"
    using assms strict_sorted_equal [of "map fst m" "map fst m'"] by (simp add: bt_wf_def)
  moreover have "inj_on fst (set m \<union> set m')"
    using bt_wf_distinct [OF assms(1)] assms(3) by (simp add: distinct_map)
  ultimately show ?thesis by (rule map_inj_on)
qed

section \<open>Properties\<close>

text \<open>The bindings of the virtual nodes of some nodes, and when no two nodes share a position.\<close>

definition vnode_bindings :: "platform \<Rightarrow> u32 \<Rightarrow> string set \<Rightarrow> (u64 \<times> string) set" where
  "vnode_bindings pf v N = (\<Union>n \<in> N. (\<lambda>i. (hash_position pf (vnode_key n i), n)) ` {..<unat v})"

definition collision_free :: "platform \<Rightarrow> u32 \<Rightarrow> string set \<Rightarrow> bool" where
  "collision_free pf v N \<longleftrightarrow> inj_on fst (vnode_bindings pf v N)"

lemma vnodes_kept [simp]:
  "hr_vnodes_per_node (add_node pf n R) = hr_vnodes_per_node R" "hr_vnodes_per_node (remove_node n R) = hr_vnodes_per_node R"
  by (simp_all add: add_node_def remove_node_def)

lemma add_node_bindings:
  assumes "ring_inv R" and "n \<notin> set (hr_nodes R)"
  shows "set (hr_ring (add_node pf n R)) =
    vnode_bindings pf (hr_vnodes_per_node R) {n} \<union>
    {b \<in> set (hr_ring R). fst b \<notin> fst ` vnode_bindings pf (hr_vnodes_per_node R) {n}}"
  using add_node_ring [of R n pf] assms
  by (simp add: ring_inv_def vnode_bindings_def vnode_positions_def image_image)

lemma remove_node_bindings: "set (hr_ring (remove_node n R)) = {b \<in> set (hr_ring R). snd b \<noteq> n}"
  by (auto simp: remove_node_def bt_retain_def)

lemma bindings_insert: "vnode_bindings pf v (insert n N) = vnode_bindings pf v {n} \<union> vnode_bindings pf v N"
  by (auto simp: vnode_bindings_def)

lemma bindings_remove: "{b \<in> vnode_bindings pf v N. snd b \<noteq> n} = vnode_bindings pf v {m \<in> N. m \<noteq> n}"
  by (auto simp: vnode_bindings_def)

lemma bindings_apart:
  assumes "collision_free pf v J" and "n \<in> J" and "N \<subseteq> J" and "n \<notin> N" and "b \<in> vnode_bindings pf v N"
  shows "fst b \<notin> fst ` vnode_bindings pf v {n}"
proof
  assume "fst b \<in> fst ` vnode_bindings pf v {n}"
  then obtain c where c: "c \<in> vnode_bindings pf v {n}" "fst c = fst b" by force
  have "b \<in> vnode_bindings pf v J" "c \<in> vnode_bindings pf v J" using assms(2,3,5) c(1) by (auto simp: vnode_bindings_def)
  then have "b = c" using assms(1) c(2) by (simp add: collision_free_def inj_onD)
  then show False using assms(4,5) c(1) by (auto simp: vnode_bindings_def)
qed

text \<open>The ring holds virtual nodes of members, and all of them if no two nodes ever share a position.\<close>

definition ring_exact :: "platform \<Rightarrow> string set \<Rightarrow> hash_ring \<Rightarrow> bool" where
  "ring_exact pf J R \<longleftrightarrow> ring_inv R \<and> set (hr_nodes R) \<subseteq> J \<and>
     set (hr_ring R) \<subseteq> vnode_bindings pf (hr_vnodes_per_node R) (set (hr_nodes R)) \<and>
     (collision_free pf (hr_vnodes_per_node R) J \<longrightarrow>
        set (hr_ring R) = vnode_bindings pf (hr_vnodes_per_node R) (set (hr_nodes R)))"

lemma ring_exact_add:
  assumes "ring_exact pf J R" and "n \<in> J"
  shows "ring_exact pf J (add_node pf n R)"
proof (cases "n \<in> set (hr_nodes R)")
  case True
  then show ?thesis using assms(1) by (simp add: add_node_def)
next
  case False
  let ?v = "hr_vnodes_per_node R"
  have inv: "ring_inv R" using assms(1) by (simp add: ring_exact_def)
  have nodes: "set (hr_nodes (add_node pf n R)) = insert n (set (hr_nodes R))" using False by (simp add: add_node_def)
  note add = add_node_bindings [OF inv False, of pf]
  have "{b \<in> set (hr_ring R). fst b \<notin> fst ` vnode_bindings pf ?v {n}} = set (hr_ring R)" if "collision_free pf ?v J"
    using bindings_apart [OF that assms(2) _ False] assms(1) by (auto simp: ring_exact_def)
  then have "set (hr_ring (add_node pf n R)) = vnode_bindings pf ?v (insert n (set (hr_nodes R)))" if "collision_free pf ?v J"
    using that add assms(1) bindings_insert [of pf ?v n "set (hr_nodes R)"] by (simp add: ring_exact_def)
  moreover have "set (hr_ring (add_node pf n R)) \<subseteq> vnode_bindings pf ?v (insert n (set (hr_nodes R)))"
    using add assms(1) bindings_insert [of pf ?v n "set (hr_nodes R)"] by (auto simp: ring_exact_def)
  ultimately show ?thesis using assms inv ring_inv_add [of R pf n] nodes by (simp add: ring_exact_def)
qed

lemma ring_exact_remove:
  assumes "ring_exact pf J R"
  shows "ring_exact pf J (remove_node n R)"
proof -
  have "set (hr_nodes (remove_node n R)) = {m \<in> set (hr_nodes R). m \<noteq> n}" by (auto simp: remove_node_def)
  then show ?thesis
    using assms ring_inv_remove [of R n] bindings_remove [of pf "hr_vnodes_per_node R" "set (hr_nodes R)" n]
    unfolding ring_exact_def remove_node_bindings vnodes_kept by auto
qed

lemma ring_exact_run:
  "ring_exact pf J R \<Longrightarrow> {n. Join n \<in> set es} \<subseteq> J \<Longrightarrow> ring_exact pf J (member_run (add_node pf) remove_node es R) \<and>
     hr_vnodes_per_node (member_run (add_node pf) remove_node es R) = hr_vnodes_per_node R"
proof (induction es arbitrary: R)
  case (Cons e es)
  then show ?case
    by (cases e) (simp_all add: member_run_def ring_exact_add ring_exact_remove subset_iff)
qed (simp add: member_run_def)

lemma ring_exact_after:
  shows "ring_exact pf {n. Join n \<in> set es} (ring_after pf v es)" and "hr_vnodes_per_node (ring_after pf v es) = v"
    and "hr_nodes (ring_after pf v es) = members_after [] es"
proof -
  have "ring_exact pf {n. Join n \<in> set es} (ring_new v)"
    using ring_new_inv [of v] by (simp add: ring_exact_def ring_new_def vnode_bindings_def)
  from ring_exact_run [OF this, of es]
  show "ring_exact pf {n. Join n \<in> set es} (ring_after pf v es)" "hr_vnodes_per_node (ring_after pf v es) = v"
    unfolding ring_after_def by (simp_all add: ring_new_def)
  show "hr_nodes (ring_after pf v es) = members_after [] es"
    unfolding ring_after_def ring.run_nodes by (simp add: ring_new_def)
qed

text \<open>C36: The ring answers by consistent hashing. After any history of joins and leaves the members are
  those of the history, the ring holds virtual nodes of members only, and the preferred node of a key is the successor of its
  position in the ring. If no two virtual nodes of different nodes of the
  history fall on one position, it holds every virtual node of every member; the preferred node of a key is then the
  member whose virtual node is the first at or after the position of the key, or the first of all if there is none, and there
  is one unless there is no member or no virtual node. In any case the preferred node is a member.\<close>

theorem preferred_node_is_successor:
  "hr_nodes (ring_after pf v es) = members_after [] es \<and>
   set (hr_ring (ring_after pf v es)) \<subseteq> vnode_bindings pf v (set (members_after [] es)) \<and>
   (\<forall>n. preferred_node pf (ring_after pf v es) k = Some n \<longleftrightarrow>
      (\<exists>p. is_successor (key_position pf k) (set (hr_ring (ring_after pf v es))) (p, n))) \<and>
   set_option (preferred_node pf (ring_after pf v es) k) \<subseteq> set (members_after [] es) \<and>
   (collision_free pf v {n. Join n \<in> set es} \<longrightarrow>
      set (hr_ring (ring_after pf v es)) = vnode_bindings pf v (set (members_after [] es)) \<and>
      (\<forall>n. preferred_node pf (ring_after pf v es) k = Some n \<longleftrightarrow>
         (\<exists>p. is_successor (key_position pf k) (vnode_bindings pf v (set (members_after [] es))) (p, n))) \<and>
      (preferred_node pf (ring_after pf v es) k = None \<longleftrightarrow> members_after [] es = [] \<or> v = 0))"
proof -
  let ?R = "ring_after pf v es"
  note r = ring_exact_after(1) [of pf es v, unfolded ring_exact_def ring_exact_after(2,3)]
  have wf: "ring_inv ?R" "bt_wf (hr_ring ?R)" using r by (simp_all add: ring_inv_def)
  have "set_option (preferred_node pf ?R k) \<subseteq> set (members_after [] es)"
    using preferred_node_member [OF wf(1), of pf k] ring_exact_after(3) [of pf v es] by (auto simp: elem_set)
  moreover have "vnode_bindings pf v (set (members_after [] es)) = {} \<longleftrightarrow> members_after [] es = [] \<or> v = 0"
    by (auto simp: vnode_bindings_def lessThan_empty_iff unat_eq_zero)
  ultimately show ?thesis
    using r preferred_node_iff [OF wf(2), of pf k] preferred_node_None [of pf ?R k] ring_exact_after(3) [of pf v es] by auto
qed

theorem preferred_node_is_successor_witness:
  "preferred_node demo_pf (ring_after demo_pf 2 [Join ''a'', Join ''m'', Leave ''a'']) [1] = Some ''m'' \<and>
   set (hr_ring (ring_after demo_pf 2 [Join ''a'', Join ''m'', Leave ''a''])) = vnode_bindings demo_pf 2 {''m''}"
proof -
  let ?es = "[Join ''a'', Join ''m'', Leave ''a'']"
  have J: "{n. Join n \<in> set ?es} = {''a'', ''m''}" by auto
  have "{..<unat (2 :: u32)} = {0, 1}" by (auto simp: lessThan_def)
  then have B: "vnode_bindings demo_pf 2 {''a'', ''m''} =
      (\<lambda>(n, i). (hash_position demo_pf (vnode_key n i), n)) ` {(''a'', 0), (''a'', 1), (''m'', 0), (''m'', 1)}"
    by (auto simp: vnode_bindings_def)
  have "distinct (map (\<lambda>(n, i). hash_position demo_pf (vnode_key n i)) [(''a'', 0), (''a'', 1), (''m'', 0), (''m'', 1)])"
    by code_simp
  then have "collision_free demo_pf 2 {n. Join n \<in> set ?es}"
    unfolding collision_free_def J B by (auto simp: inj_on_def)
  moreover have "preferred_node demo_pf (ring_after demo_pf 2 ?es) [1] = Some ''m''" by code_simp
  ultimately show ?thesis using preferred_node_is_successor [of demo_pf 2 ?es "[1]"] by simp
qed

text \<open>C37: Membership changes move only what they must. Over any sequence of joins and leaves in which
  neither the preferred node of a key nor a node that joins in the sequence leaves, the key stays
  where it is or moves to one of the nodes that joined.\<close>

theorem placement_stability:
  assumes "ring_inv R" and "preferred_node pf R k = Some n"
    and "\<forall>m. Leave m \<in> set es \<longrightarrow> m \<noteq> n \<and> Join m \<notin> set es"
  shows "preferred_node pf (member_run (add_node pf) remove_node es R) k = Some n \<or>
    (\<exists>m. Join m \<in> set es \<and> preferred_node pf (member_run (add_node pf) remove_node es R) k = Some m)"
  using assms by (rule ring.run_moves)

lemma ring_after_inv: "ring_inv (ring_after pf v es)"
  unfolding ring_after_def by (rule ring.run_inv [OF ring_new_inv])

theorem placement_stability_witness:
  "preferred_node demo_pf (ring_after demo_pf 2 [Join ''a'']) [1] = Some ''a'' \<and>
   preferred_node demo_pf (ring_after demo_pf 2 [Join ''a'', Join ''b'', Leave ''c'']) [1] \<in> {Some ''a'', Some ''b''}"
proof -
  have 1: "preferred_node demo_pf (ring_after demo_pf 2 [Join ''a'']) [1] = Some ''a''" by code_simp
  have 2: "\<forall>m. Leave m \<in> set [Join ''b'', Leave ''c''] \<longrightarrow> m \<noteq> ''a'' \<and> Join m \<notin> set [Join ''b'', Leave ''c'']"
    by simp
  from 1 placement_stability [OF ring_after_inv 1 2] show ?thesis
    by (auto simp: ring_after_def member_run_def)
qed

text \<open>The replica list has no duplicates, starts with the preferred node, holds only members, and has
  as many nodes as requested as long as the ring has that many with a virtual node. A request
  for no replica is answered with one node all the same.\<close>

lemma preferred_nodes_spec:
  assumes "ring_inv R" and "hr_ring R \<noteq> []"
  shows "distinct (preferred_nodes pf R k n) \<and>
    preferred_node pf R k = Some (hd (preferred_nodes pf R k n)) \<and>
    set (preferred_nodes pf R k n) \<subseteq> set (hr_nodes R) \<and>
    length (preferred_nodes pf R k n) = min (max 1 n) (card (snd ` set (hr_ring R)))"
proof -
  define w where "w = map snd (bt_from (key_position pf k) (hr_ring R) @ hr_ring R)"
  have w: "set w = snd ` set (hr_ring R)" "w \<noteq> []" using assms(2) by (auto simp: w_def bt_from_def)
  have l: "preferred_nodes pf R k n = take (max 1 n) (nub w)" unfolding w_def by (rule preferred_nodes_nub)
  have "card (snd ` set (hr_ring R)) = length (nub w)" using w(1) distinct_card [OF distinct_nub, of w] by simp
  moreover have "hd (take (max 1 n) (nub w)) = hd w" using w(2) by (cases w) auto
  moreover have "set (take (max 1 n) (nub w)) \<subseteq> set (hr_nodes R)"
    using set_take_subset [of "max 1 n" "nub w"] w(1) assms(1) by (auto simp: ring_inv_def)
  ultimately show ?thesis
    using hd_preferred [OF assms(2), of pf k, folded w_def] by (simp add: l min.commute)
qed

text \<open>A node that joins and leaves again takes with it every virtual node of another member whose
  position coincided with one of its own; everything else is as before. Without such a collision
  the ring is restored exactly.\<close>

lemma join_leave_restores:
  assumes "ring_inv R" and "n \<notin> set (hr_nodes R)"
  shows "remove_node n (add_node pf n R) = R\<lparr>hr_ring := bt_retain (\<lambda>p _. p \<notin> vnode_positions pf R n) (hr_ring R)\<rparr> \<and>
    (vnode_positions pf R n \<inter> fst ` set (hr_ring R) = {} \<longrightarrow> remove_node n (add_node pf n R) = R)"
proof -
  have wf: "bt_wf (hr_ring R)" and sub: "snd ` set (hr_ring R) \<subseteq> set (hr_nodes R)"
    using assms(1) by (simp_all add: ring_inv_def)
  note ring = add_node_ring [OF wf assms(2), of pf]
  have "hr_ring (remove_node n (add_node pf n R)) = bt_retain (\<lambda>p _. p \<notin> vnode_positions pf R n) (hr_ring R)"
  proof (rule bt_wf_unique)
    show "bt_wf (hr_ring (remove_node n (add_node pf n R)))" using ring by (simp add: remove_node_def)
    show "bt_wf (bt_retain (\<lambda>p _. p \<notin> vnode_positions pf R n) (hr_ring R))" using wf by simp
    have "snd b \<noteq> n" if "b \<in> set (hr_ring R)" for b using that sub assms(2) by blast
    then show "set (hr_ring (remove_node n (add_node pf n R))) =
        set (bt_retain (\<lambda>p _. p \<notin> vnode_positions pf R n) (hr_ring R))"
      using ring by (auto simp: remove_node_def bt_retain_def)
  qed
  moreover have "filter (\<lambda>x. x \<noteq> n) (hr_nodes R) = hr_nodes R"
    using assms(2) by (auto simp: filter_id_conv)
  ultimately have *: "remove_node n (add_node pf n R) =
      R\<lparr>hr_ring := bt_retain (\<lambda>p _. p \<notin> vnode_positions pf R n) (hr_ring R)\<rparr>"
    using assms(2) by (cases R) (simp add: remove_node_def add_node_def)
  have "bt_retain (\<lambda>p _. p \<notin> vnode_positions pf R n) (hr_ring R) = hr_ring R"
    if "vnode_positions pf R n \<inter> fst ` set (hr_ring R) = {}"
    using that by (auto simp: bt_retain_def filter_id_conv)
  then show ?thesis unfolding * by simp
qed

end
