(* ===== verification/RemoteIndex.thy ===== *)
theory RemoteIndex
  imports CmxPrelude
begin

text \<open>
  The index of blocks on other nodes, \<^verbatim>\<open>crates/cmx-agent/src/remote_index.rs\<close>: for every key a
  vector with one entry per node. The abstract view is a function of key and node; the locale
  \<open>remote_catalog\<close> is the contract the watch tasks and the lookup handler rely on, and \<open>remote\<close>
  shows that the vectors implement it.
\<close>

section \<open>State and operations\<close>

record remote_block_info =
  rb_node_id :: string
  rb_node_addr :: string
  rb_offset :: u64
  rb_size :: u64
  rb_generation :: u64

record remote_index =
  ri_map :: "(hash16, remote_block_info list) hmap"

definition remote_new :: remote_index where
  "remote_new = \<lparr>ri_map = fmempty\<rparr>"

definition remote_lookup :: "hash16 \<Rightarrow> remote_index \<Rightarrow> remote_block_info list option" where
  "remote_lookup prefix_hash ri = fmlookup (ri_map ri) prefix_hash"

text \<open>The closure of \<open>and_modify\<close>: replace the first entry of the same node, or append.\<close>

fun replace_or_push :: "remote_block_info \<Rightarrow> remote_block_info list \<Rightarrow> remote_block_info list" where
  "replace_or_push info [] = [info]"
| "replace_or_push info (e # es) =
     (if rb_node_id e = rb_node_id info then info # es else e # replace_or_push info es)"

definition remote_insert :: "hash16 \<Rightarrow> remote_block_info \<Rightarrow> remote_index \<Rightarrow> remote_index" where
  "remote_insert prefix_hash info ri =
     ri\<lparr>ri_map := fmupd prefix_hash
          (case fmlookup (ri_map ri) prefix_hash of
             Some entries \<Rightarrow> replace_or_push info entries
           | None \<Rightarrow> [info]) (ri_map ri)\<rparr>"

definition remote_remove :: "hash16 \<Rightarrow> remote_index \<Rightarrow> remote_index" where
  "remote_remove prefix_hash ri = ri\<lparr>ri_map := fmdrop prefix_hash (ri_map ri)\<rparr>"

definition retain_entries :: "string \<Rightarrow> remote_block_info list \<Rightarrow> remote_block_info list" where
  "retain_entries node_id es = filter (\<lambda>e. rb_node_id e \<noteq> node_id) es"

definition remote_remove_node :: "string \<Rightarrow> remote_index \<Rightarrow> remote_index" where
  "remote_remove_node node_id ri =
     (let m = fmmap (retain_entries node_id) (ri_map ri)
      in ri\<lparr>ri_map := fmfilter (\<lambda>k. fmlookup m k \<noteq> Some []) m\<rparr>)"

section \<open>Abstract view and specification\<close>

definition remote_view :: "remote_index \<Rightarrow> hash16 \<Rightarrow> string \<Rightarrow> remote_block_info option" where
  "remote_view ri k n =
     (case fmlookup (ri_map ri) k of None \<Rightarrow> None | Some es \<Rightarrow> find (\<lambda>e. rb_node_id e = n) es)"

definition entries_ok :: "remote_block_info list \<Rightarrow> bool" where
  "entries_ok es \<longleftrightarrow> es \<noteq> [] \<and> distinct (map rb_node_id es)"

definition remote_inv :: "remote_index \<Rightarrow> bool" where
  "remote_inv ri \<longleftrightarrow> (\<forall>k es. fmlookup (ri_map ri) k = Some es \<longrightarrow> entries_ok es)"

datatype remote_op = PutBlock hash16 remote_block_info | DropKey hash16 | DropNode string

fun remote_spec :: "remote_op \<Rightarrow> (hash16 \<Rightarrow> string \<Rightarrow> remote_block_info option) \<Rightarrow> hash16 \<Rightarrow> string \<Rightarrow> remote_block_info option" where
  "remote_spec (PutBlock k e) V k' n = (if k' = k \<and> n = rb_node_id e then Some e else V k' n)"
| "remote_spec (DropKey k) V k' n = (if k' = k then None else V k' n)"
| "remote_spec (DropNode m) V k' n = (if n = m then None else V k' n)"

fun remote_step ::
    "(hash16 \<Rightarrow> remote_block_info \<Rightarrow> 's \<Rightarrow> 's) \<Rightarrow> (hash16 \<Rightarrow> 's \<Rightarrow> 's) \<Rightarrow> (string \<Rightarrow> 's \<Rightarrow> 's) \<Rightarrow> remote_op \<Rightarrow> 's \<Rightarrow> 's" where
  "remote_step ins rm rmn (PutBlock k e) s = ins k e s"
| "remote_step ins rm rmn (DropKey k) s = rm k s"
| "remote_step ins rm rmn (DropNode n) s = rmn n s"

definition remote_run :: "remote_op list \<Rightarrow> remote_index" where
  "remote_run ops = fold (remote_step remote_insert remote_remove remote_remove_node) ops remote_new"

section \<open>The contract of a catalog of remote blocks\<close>

locale remote_catalog =
  fixes new :: 's
    and lk :: "hash16 \<Rightarrow> 's \<Rightarrow> remote_block_info list option"
    and ins :: "hash16 \<Rightarrow> remote_block_info \<Rightarrow> 's \<Rightarrow> 's"
    and rm :: "hash16 \<Rightarrow> 's \<Rightarrow> 's"
    and rmn :: "string \<Rightarrow> 's \<Rightarrow> 's"
    and view :: "'s \<Rightarrow> hash16 \<Rightarrow> string \<Rightarrow> remote_block_info option"
    and inv :: "'s \<Rightarrow> bool"
  assumes new_ok: "inv new \<and> view new = (\<lambda>_ _. None)"
    and step_ok: "inv s \<Longrightarrow> inv (remote_step ins rm rmn x s) \<and>
      view (remote_step ins rm rmn x s) = remote_spec x (view s)"
    and lk_None: "inv s \<Longrightarrow> lk k s = None \<longleftrightarrow> view s k = (\<lambda>_. None)"
    and lk_Some: "inv s \<Longrightarrow> lk k s = Some es \<Longrightarrow>
      es \<noteq> [] \<and> distinct (map rb_node_id es) \<and> (\<forall>e. e \<in> set es \<longleftrightarrow> view s k (rb_node_id e) = Some e)"
begin

lemma run_ok:
  "inv s \<Longrightarrow> inv (fold (remote_step ins rm rmn) xs s) \<and>
     view (fold (remote_step ins rm rmn) xs s) = fold remote_spec xs (view s)"
  by (induction xs arbitrary: s) (simp_all add: step_ok)

lemma lk_first: "inv s \<Longrightarrow> lk k s = Some es \<Longrightarrow> \<exists>e es'. es = e # es' \<and> view s k (rb_node_id e) = Some e"
  using lk_Some [of s k es] by (cases es) auto

end

section \<open>The vectors keep the contract\<close>

lemma replace_or_push_ids:
  "set (map rb_node_id (replace_or_push e es)) = insert (rb_node_id e) (set (map rb_node_id es))"
  by (induction es) auto

lemma entries_ok_push: "distinct (map rb_node_id es) \<Longrightarrow> entries_ok (replace_or_push e es)"
  unfolding entries_ok_def
proof (induction es)
  case (Cons x es)
  then show ?case using replace_or_push_ids [of e es] by auto
qed simp

lemma find_push:
  "find (\<lambda>x. rb_node_id x = n) (replace_or_push e es) =
     (if n = rb_node_id e then Some e else find (\<lambda>x. rb_node_id x = n) es)"
  by (induction es) auto

lemma find_retain:
  "find (\<lambda>x. rb_node_id x = n) (retain_entries m es) =
     (if n = m then None else find (\<lambda>x. rb_node_id x = n) es)"
  by (induction es) (auto simp: retain_entries_def)

lemma find_iff_mem:
  "distinct (map rb_node_id es) \<Longrightarrow> find (\<lambda>x. rb_node_id x = rb_node_id e) es = Some e \<longleftrightarrow> e \<in> set es"
  by (induction es) (auto simp: rev_image_eqI)

lemma remote_insert_ok:
  assumes "remote_inv ri"
  shows "remote_inv (remote_insert k e ri) \<and> remote_view (remote_insert k e ri) = remote_spec (PutBlock k e) (remote_view ri)"
proof -
  have "entries_ok (case fmlookup (ri_map ri) k of Some es \<Rightarrow> replace_or_push e es | None \<Rightarrow> [e])"
    using assms entries_ok_push [of _ e]
    by (auto simp: remote_inv_def entries_ok_def split: option.split)
  then have "remote_inv (remote_insert k e ri)"
    using assms unfolding remote_inv_def by (auto simp: remote_insert_def)
  moreover have "remote_view (remote_insert k e ri) k' n = remote_spec (PutBlock k e) (remote_view ri) k' n" for k' n
    by (auto simp: remote_view_def remote_insert_def find_push split: option.splits)
  ultimately show ?thesis by blast
qed

lemma remote_remove_ok:
  assumes "remote_inv ri"
  shows "remote_inv (remote_remove k ri) \<and> remote_view (remote_remove k ri) = remote_spec (DropKey k) (remote_view ri)"
  using assms by (auto simp: remote_inv_def remote_view_def remote_remove_def fun_eq_iff)

lemma remote_remove_node_ok:
  assumes "remote_inv ri"
  shows "remote_inv (remote_remove_node m ri) \<and>
    remote_view (remote_remove_node m ri) = remote_spec (DropNode m) (remote_view ri)"
proof -
  have lk: "fmlookup (ri_map (remote_remove_node m ri)) k =
      (case fmlookup (ri_map ri) k of None \<Rightarrow> None
       | Some es \<Rightarrow> if retain_entries m es = [] then None else Some (retain_entries m es))" for k
    by (auto simp: remote_remove_node_def Let_def split: option.splits)
  have "entries_ok (retain_entries m es)" if "entries_ok es" "retain_entries m es \<noteq> []" for es
    using that by (auto simp: entries_ok_def retain_entries_def distinct_map_filter)
  then have "remote_inv (remote_remove_node m ri)"
    using assms unfolding remote_inv_def lk by (auto split: option.splits if_splits)
  moreover have "remote_view (remote_remove_node m ri) k n = remote_spec (DropNode m) (remote_view ri) k n" for k n
    using find_retain [of n m] unfolding remote_view_def lk by (auto split: option.splits) (metis find.simps(1))+
  ultimately show ?thesis by blast
qed

lemma remote_lookup_None:
  assumes "remote_inv ri"
  shows "remote_lookup k ri = None \<longleftrightarrow> remote_view ri k = (\<lambda>_. None)"
proof (cases "fmlookup (ri_map ri) k")
  case (Some es)
  then obtain e es' where es: "es = e # es'" using assms by (cases es) (auto simp: remote_inv_def entries_ok_def)
  then have "remote_view ri k (rb_node_id e) = Some e" using Some by (simp add: remote_view_def)
  then show ?thesis using Some by (auto simp: remote_lookup_def fun_eq_iff)
qed (simp add: remote_lookup_def remote_view_def fun_eq_iff)

interpretation remote: remote_catalog remote_new remote_lookup remote_insert remote_remove
  remote_remove_node remote_view remote_inv
proof unfold_locales
  show "remote_inv remote_new \<and> remote_view remote_new = (\<lambda>_ _. None)"
    by (simp add: remote_inv_def remote_new_def remote_view_def fun_eq_iff)
  fix ri x k es
  assume inv: "remote_inv ri"
  show "remote_inv (remote_step remote_insert remote_remove remote_remove_node x ri) \<and>
      remote_view (remote_step remote_insert remote_remove remote_remove_node x ri) = remote_spec x (remote_view ri)"
    using inv by (cases x) (simp_all only: remote_step.simps remote_insert_ok remote_remove_ok remote_remove_node_ok)
  show "remote_lookup k ri = None \<longleftrightarrow> remote_view ri k = (\<lambda>_. None)" by (rule remote_lookup_None [OF inv])
  assume "remote_lookup k ri = Some es"
  then show "es \<noteq> [] \<and> distinct (map rb_node_id es) \<and> (\<forall>e. e \<in> set es \<longleftrightarrow> remote_view ri k (rb_node_id e) = Some e)"
    using inv find_iff_mem by (auto simp: remote_lookup_def remote_inv_def remote_view_def entries_ok_def)
qed

section \<open>Properties\<close>

text \<open>C35: The remote index refines a table of at most one block per key and node. After any sequence of
  insertions, removals of a key and removals of a node, a lookup misses exactly when no node has
  a block for the key; otherwise it returns a non-empty list with one entry per node, and an
  entry is in it exactly when it is the latest one of its node for the key that has not been
  removed since.\<close>

theorem remote_index_refines_table:
  "(remote_lookup k (remote_run ops) = None \<longleftrightarrow> fold remote_spec ops (\<lambda>_ _. None) k = (\<lambda>_. None)) \<and>
    (case remote_lookup k (remote_run ops) of
       None \<Rightarrow> True
     | Some es \<Rightarrow> es \<noteq> [] \<and> distinct (map rb_node_id es) \<and>
         (\<forall>e. e \<in> set es \<longleftrightarrow> fold remote_spec ops (\<lambda>_ _. None) k (rb_node_id e) = Some e))"
proof -
  have r: "remote_inv (remote_run ops)" "remote_view (remote_run ops) = fold remote_spec ops (\<lambda>_ _. None)"
    using remote.run_ok [of remote_new ops] remote.new_ok by (simp_all add: remote_run_def)
  show ?thesis
    using remote.lk_None [OF r(1), of k] remote.lk_Some [OF r(1), of k] r(2)
    by (auto split: option.split)
qed

end
