(* ===== verification/RustStd.thy ===== *)
theory RustStd
  imports CmxPrelude
begin

text \<open>
  What the agent uses of the standard library besides containers: \<open>String::from_utf8_lossy\<close>,
  \<open>trim_start_matches\<close> with a string pattern, and parsing of a \<open>SocketAddr\<close> (IPv4 and IPv6,
  with an embedded IPv4 tail, scope and port). Strings are byte strings throughout.
\<close>

section \<open>Lossy UTF-8 decoding\<close>

definition utf8_cont :: "nat \<Rightarrow> nat \<Rightarrow> nat \<Rightarrow> bool" where
  "utf8_cont lo hi b \<longleftrightarrow> lo \<le> b \<and> b \<le> hi"

text \<open>The replacement character U+FFFD.\<close>

definition utf8_repl :: "nat list" where
  "utf8_repl = [239, 191, 189]"

text \<open>
  What follows a lead byte: the allowed range of the second byte and how many further
  continuation bytes there are. \<open>None\<close> for a byte that cannot start a sequence.
\<close>

definition utf8_lead :: "nat \<Rightarrow> (nat \<times> nat \<times> nat) option" where
  "utf8_lead b =
     (if 194 \<le> b \<and> b \<le> 223 then Some (128, 191, 0)
      else if b = 224 then Some (160, 191, 1)
      else if b = 237 then Some (128, 159, 1)
      else if 225 \<le> b \<and> b \<le> 239 then Some (128, 191, 1)
      else if b = 240 then Some (144, 191, 2)
      else if 241 \<le> b \<and> b \<le> 243 then Some (128, 191, 2)
      else if b = 244 then Some (128, 143, 2)
      else None)"

text \<open>Up to \<open>n\<close> continuation bytes: those present, and the rest of the input.\<close>

fun utf8_tail :: "nat \<Rightarrow> nat list \<Rightarrow> nat list \<times> nat list" where
  "utf8_tail 0 bs = ([], bs)"
| "utf8_tail (Suc n) [] = ([], [])"
| "utf8_tail (Suc n) (b # bs) =
     (if utf8_cont 128 191 b then map_prod ((#) b) id (utf8_tail n bs) else ([], b # bs))"

lemma utf8_tail_length: "length (snd (utf8_tail n bs)) \<le> length bs"
  by (induction n bs rule: utf8_tail.induct) auto

text \<open>Each maximal prefix of a sequence that cannot be completed becomes one replacement.\<close>

function utf8_lossy :: "nat list \<Rightarrow> nat list" where
  "utf8_lossy [] = []"
| "utf8_lossy (b # bs) =
     (if b < 128 then b # utf8_lossy bs
      else case utf8_lead b of
        None \<Rightarrow> utf8_repl @ utf8_lossy bs
      | Some (lo, hi, n) \<Rightarrow>
          (case bs of
             [] \<Rightarrow> utf8_repl
           | c # cs \<Rightarrow>
               if utf8_cont lo hi c
               then (if length (fst (utf8_tail n cs)) = n
                     then b # c # fst (utf8_tail n cs) @ utf8_lossy (snd (utf8_tail n cs))
                     else utf8_repl @ utf8_lossy (snd (utf8_tail n cs)))
               else utf8_repl @ utf8_lossy (c # cs)))"
  by pat_completeness auto
termination
proof (relation "measure length", goal_cases)
  case (4 b bs x lo y hi n c cs)
  then show ?case using utf8_tail_length [of n cs] by simp
next
  case (5 b bs x lo y hi n c cs)
  then show ?case using utf8_tail_length [of n cs] by simp
qed simp_all

declare utf8_lossy.simps [simp del]

definition from_utf8_lossy :: "bytes \<Rightarrow> string" where
  "from_utf8_lossy bs = map char_of (utf8_lossy (map unat bs))"

lemma utf8_lossy_ascii: "\<forall>b \<in> set bs. b < 128 \<Longrightarrow> utf8_lossy bs = bs"
  by (induction bs) (simp_all add: utf8_lossy.simps)

section \<open>Trimming\<close>

text \<open>\<open>trim_start_matches\<close> removes a non-empty pattern as often as it occurs at the start.\<close>

function trim_start_matches :: "string \<Rightarrow> string \<Rightarrow> string" where
  "trim_start_matches pat s =
     (if pat \<noteq> [] \<and> take (length pat) s = pat then trim_start_matches pat (drop (length pat) s) else s)"
  by pat_completeness auto
termination
proof (relation "measure (\<lambda>(pat, s). length s)")
  fix pat s :: string
  assume "pat \<noteq> [] \<and> take (length pat) s = pat"
  then have "0 < length pat" "0 < length s" by (cases s; auto)+
  then show "((pat, drop (length pat) s), pat, s) \<in> measure (\<lambda>(pat, s). length s)" by simp
qed simp

declare trim_start_matches.simps [simp del]

lemma trim_start_matches_once:
  "pat \<noteq> [] \<Longrightarrow> take (length pat) s \<noteq> pat \<Longrightarrow> trim_start_matches pat (pat @ s) = s"
  by (simp add: trim_start_matches.simps [of pat "pat @ s"] trim_start_matches.simps [of pat s])

section \<open>Socket addresses\<close>

definition digit_of :: "nat \<Rightarrow> char \<Rightarrow> nat option" where
  "digit_of radix c =
     (let n = of_char c :: nat;
          d = if 48 \<le> n \<and> n \<le> 57 then n - 48
              else if 97 \<le> n \<and> n \<le> 122 then n - 87
              else if 65 \<le> n \<and> n \<le> 90 then n - 55
              else radix
      in if d < radix then Some d else None)"

definition is_digit :: "nat \<Rightarrow> char \<Rightarrow> bool" where
  "is_digit radix c \<longleftrightarrow> digit_of radix c \<noteq> None"

definition digits_value :: "nat \<Rightarrow> string \<Rightarrow> nat" where
  "digits_value radix ds = foldl (\<lambda>v c. v * radix + the (digit_of radix c)) 0 ds"

definition read_number :: "nat \<Rightarrow> nat option \<Rightarrow> bool \<Rightarrow> nat \<Rightarrow> string \<Rightarrow> (nat \<times> string) option" where
  "read_number radix max_digits allow_zero_prefix bound s =
     (let ds = takeWhile (is_digit radix) s; rest = dropWhile (is_digit radix) s
      in if ds = [] \<or> (case max_digits of None \<Rightarrow> False | Some m \<Rightarrow> m < length ds) \<or>
            (\<not> allow_zero_prefix \<and> hd ds = CHR ''0'' \<and> 1 < length ds) \<or> bound \<le> digits_value radix ds
         then None else Some (digits_value radix ds, rest))"

definition read_char :: "char \<Rightarrow> string \<Rightarrow> string option" where
  "read_char c s = (case s of [] \<Rightarrow> None | d # ds \<Rightarrow> if d = c then Some ds else None)"

text \<open>A separator before all but the first component.\<close>

definition read_sep :: "char \<Rightarrow> nat \<Rightarrow> (string \<Rightarrow> ('a \<times> string) option) \<Rightarrow> string \<Rightarrow> ('a \<times> string) option" where
  "read_sep c i p s = (if i = 0 then p s else Option.bind (read_char c s) p)"

definition read_ipv4 :: "string \<Rightarrow> ((nat \<times> nat \<times> nat \<times> nat) \<times> string) option" where
  "read_ipv4 s =
     (let octet = read_number 10 (Some 3) False 256 in
      Option.bind (octet s) (\<lambda>(a, s).
      Option.bind (read_sep CHR ''.'' 1 octet s) (\<lambda>(b, s).
      Option.bind (read_sep CHR ''.'' 2 octet s) (\<lambda>(c, s).
      Option.bind (read_sep CHR ''.'' 3 octet s) (\<lambda>(d, s).
      Some ((a, b, c, d), s))))))"

function read_groups :: "nat \<Rightarrow> nat \<Rightarrow> string \<Rightarrow> nat list \<times> bool \<times> string" where
  "read_groups i limit s =
     (if limit \<le> i then ([], False, s)
      else
        case (if i + 1 < limit then read_sep CHR '':'' i read_ipv4 s else None) of
          Some ((a, b, c, d), r) \<Rightarrow> ([a * 256 + b, c * 256 + d], True, r)
        | None \<Rightarrow>
            (case read_sep CHR '':'' i (read_number 16 (Some 4) True 65536) s of
               None \<Rightarrow> ([], False, s)
             | Some (g, r) \<Rightarrow>
                 (case read_groups (i + 1) limit r of (gs, v4, r') \<Rightarrow> (g # gs, v4, r'))))"
  by pat_completeness auto
termination by (relation "measure (\<lambda>(i, limit, s). limit - i)") auto

declare read_groups.simps [simp del]

definition read_ipv6 :: "string \<Rightarrow> (nat list \<times> string) option" where
  "read_ipv6 s =
     (let (hd_gs, hd_v4, s1) = read_groups 0 8 s in
      if length hd_gs = 8 then Some (hd_gs, s1)
      else if hd_v4 then None
      else
        Option.bind (Option.bind (read_char CHR '':'' s1) (read_char CHR '':'')) (\<lambda>s2.
        let (tl_gs, _, s3) = read_groups 0 (8 - (length hd_gs + 1)) s2 in
        Some (hd_gs @ replicate (8 - length hd_gs - length tl_gs) 0 @ tl_gs, s3)))"

datatype socket_addr =
    V4 "nat \<times> nat \<times> nat \<times> nat" nat
  | V6 "nat list" nat nat

definition read_port :: "string \<Rightarrow> (nat \<times> string) option" where
  "read_port s = Option.bind (read_char CHR '':'' s) (read_number 10 None True 65536)"

definition read_socket_v4 :: "string \<Rightarrow> (socket_addr \<times> string) option" where
  "read_socket_v4 s =
     Option.bind (read_ipv4 s) (\<lambda>(ip, s).
     Option.bind (read_port s) (\<lambda>(port, s). Some (V4 ip port, s)))"

definition read_socket_v6 :: "string \<Rightarrow> (socket_addr \<times> string) option" where
  "read_socket_v6 s =
     Option.bind (read_char CHR ''['' s) (\<lambda>s.
     Option.bind (read_ipv6 s) (\<lambda>(ip, s).
     let (scope, s) =
       (case Option.bind (read_char CHR ''%'' s) (read_number 10 None True (2 ^ 32)) of
          None \<Rightarrow> (0, s) | Some r \<Rightarrow> r) in
     Option.bind (read_char CHR '']'' s) (\<lambda>s.
     Option.bind (read_port s) (\<lambda>(port, s). Some (V6 ip scope port, s)))))"

definition parse_socket_addr :: "string \<Rightarrow> socket_addr option" where
  "parse_socket_addr s =
     (case (case read_socket_v4 s of None \<Rightarrow> read_socket_v6 s | r \<Rightarrow> r) of
        Some (a, []) \<Rightarrow> Some a
      | _ \<Rightarrow> None)"

section \<open>Printed IPv4 addresses parse\<close>

definition show_ipv4 :: "nat \<Rightarrow> nat \<Rightarrow> nat \<Rightarrow> nat \<Rightarrow> nat \<Rightarrow> string" where
  "show_ipv4 a b c d port =
     str_dec a @ ''.'' @ str_dec b @ ''.'' @ str_dec c @ ''.'' @ str_dec d @ '':'' @ str_dec port"

lemma digit_char [simp]: "d < 10 \<Longrightarrow> digit_of 10 (char_of (48 + d)) = Some d"
  by (simp add: digit_of_def Let_def of_char_of)

lemma str_dec_digits: "\<forall>c \<in> set (str_dec n). is_digit 10 c"
  by (induction n rule: str_dec.induct) (subst str_dec.simps, auto simp: is_digit_def)

lemma str_dec_nonempty [simp]: "str_dec n \<noteq> []"
  by (subst str_dec.simps) simp

lemma digits_value_str_dec [simp]: "digits_value 10 (str_dec n) = n"
proof (induction n rule: str_dec.induct)
  case (1 n)
  then show ?case by (subst str_dec.simps) (auto simp: digits_value_def)
qed

lemma str_dec_no_zero: "hd (str_dec n) = CHR ''0'' \<Longrightarrow> length (str_dec n) = 1"
proof (induction n rule: str_dec.induct)
  case (1 n)
  show ?case
  proof (cases "n < 10")
    case True
    then show ?thesis by (subst str_dec.simps) simp
  next
    case False
    then have h: "hd (str_dec (n div 10)) = CHR ''0''" using 1(2) by (simp add: str_dec.simps [of n] hd_append)
    then have "length (str_dec (n div 10)) = 1" using 1(1) False by simp
    then have "digits_value 10 (str_dec (n div 10)) = 0"
      using h by (cases "str_dec (n div 10)") (auto simp: digits_value_def digit_of_def Let_def)
    then show ?thesis using False by simp
  qed
qed

lemma str_dec_length: "n < 10 ^ k \<Longrightarrow> 0 < k \<Longrightarrow> length (str_dec n) \<le> k"
proof (induction n arbitrary: k rule: str_dec.induct)
  case (1 n)
  show ?case
  proof (cases "n < 10")
    case True
    then show ?thesis using 1(3) by (subst str_dec.simps) simp
  next
    case False
    obtain j where j: "k = Suc j" using 1(3) by (cases k) auto
    have "n div 10 < 10 ^ j" using 1(2) j by (simp add: less_mult_imp_div_less mult.commute)
    moreover have "0 < j" using False 1(2) j by (cases j) auto
    ultimately show ?thesis using 1(1) [OF False] j False by (simp add: str_dec.simps [of n])
  qed
qed

lemma read_number_dec:
  assumes "n < bound" and "case m of None \<Rightarrow> True | Some k \<Rightarrow> length (str_dec n) \<le> k"
    and "rest = [] \<or> \<not> is_digit 10 (hd rest)"
  shows "read_number 10 m z bound (str_dec n @ rest) = Some (n, rest)"
proof -
  have "takeWhile (is_digit 10) rest = []" "dropWhile (is_digit 10) rest = rest"
    using assms(3) by (cases rest; auto)+
  then have "takeWhile (is_digit 10) (str_dec n @ rest) = str_dec n" "dropWhile (is_digit 10) (str_dec n @ rest) = rest"
    using str_dec_digits [of n] by (simp_all add: takeWhile_append2 dropWhile_append2)
  moreover have "\<not> (hd (str_dec n) = CHR ''0'' \<and> 1 < length (str_dec n))" using str_dec_no_zero [of n] by auto
  ultimately show ?thesis
    using assms(1,2) by (auto simp: read_number_def Let_def split: option.split)
qed

lemma not_digit [simp]: "\<not> is_digit 10 CHR ''.''" "\<not> is_digit 10 CHR '':''"
  by (simp_all add: is_digit_def digit_of_def Let_def)

lemma parse_show_ipv4:
  assumes "a < 256" and "b < 256" and "c < 256" and "d < 256" and "port < 65536"
  shows "parse_socket_addr (show_ipv4 a b c d port) = Some (V4 (a, b, c, d) port)"
proof -
  have oct: "read_number 10 (Some 3) False 256 (str_dec n @ x # s) = Some (n, x # s)"
    if "n < 256" "\<not> is_digit 10 x" for n x s
    using that str_dec_length [of n 3] by (intro read_number_dec) auto
  have "read_number 10 None True 65536 (str_dec port @ []) = Some (port, [])"
    using assms(5) by (intro read_number_dec) auto
  then show ?thesis
    using assms oct
    by (simp add: parse_socket_addr_def read_socket_v4_def read_ipv4_def read_port_def show_ipv4_def
        read_sep_def read_char_def Let_def)
qed

end
