(* ===== verification/F64.thy ===== *)
theory F64
  imports Complex_Main "HOL-Library.Log_Nat"
begin

text \<open>
  The part of IEEE 754 double precision the agent uses: comparison, conversion of an unsigned
  integer and division, both rounded to nearest with ties to even at 53 bits of precision. A
  finite value is the rational it denotes; the two zeros, which compare equal, are one value.
  Integers are below \<open>2 ^ 64\<close> where the conversion is used, so neither it nor the quotient of
  two of them leaves the normal range, and overflow to infinity and subnormal numbers do not
  arise.
\<close>

section \<open>Rounding\<close>

text \<open>\<open>ilog2 x\<close> is the binary exponent of a positive rational.\<close>

definition ilog2 :: "rat \<Rightarrow> int" where
  "ilog2 x =
     (let (a, b) = quotient_of x;
          d = int (floorlog 2 (nat a)) - int (floorlog 2 (nat b))
      in if 2 powi d \<le> x then d else d - 1)"

definition round_half_even :: "rat \<Rightarrow> int" where
  "round_half_even x =
     (let f = \<lfloor>x\<rfloor>; d = x - of_int f
      in if d < 1 / 2 then f else if 1 / 2 < d then f + 1 else if even f then f else f + 1)"

definition ulp53 :: "rat \<Rightarrow> rat" where
  "ulp53 x = 2 powi (ilog2 x - 52)"

definition round53 :: "rat \<Rightarrow> rat" where
  "round53 x =
     (if x = 0 then 0
      else if 0 < x then of_int (round_half_even (x / ulp53 x)) * ulp53 x
      else - (of_int (round_half_even (- x / ulp53 (- x))) * ulp53 (- x)))"

section \<open>Values and operations\<close>

datatype f64 = Fin rat | PosInf | NegInf | NaN

fun f64_le :: "f64 \<Rightarrow> f64 \<Rightarrow> bool" where
  "f64_le NaN _ = False"
| "f64_le _ NaN = False"
| "f64_le NegInf _ = True"
| "f64_le _ PosInf = True"
| "f64_le (Fin x) (Fin y) = (x \<le> y)"
| "f64_le _ _ = False"

definition f64_ge :: "f64 \<Rightarrow> f64 \<Rightarrow> bool" where
  "f64_ge x y = f64_le y x"

definition f64_of_nat :: "nat \<Rightarrow> f64" where
  "f64_of_nat n = Fin (round53 (of_nat n))"

fun f64_div :: "f64 \<Rightarrow> f64 \<Rightarrow> f64" where
  "f64_div NaN _ = NaN"
| "f64_div _ NaN = NaN"
| "f64_div (Fin x) (Fin y) =
     (if y = 0 then (if x = 0 then NaN else if 0 < x then PosInf else NegInf)
      else Fin (round53 (x / y)))"
| "f64_div (Fin x) _ = Fin 0"
| "f64_div PosInf (Fin y) = (if 0 \<le> y then PosInf else NegInf)"
| "f64_div NegInf (Fin y) = (if 0 \<le> y then NegInf else PosInf)"
| "f64_div _ _ = NaN"

section \<open>Lemmas\<close>

lemma powi_less_iff [simp]: "2 powi a < (2 powi b :: rat) \<longleftrightarrow> a < b"
  using power_int_strict_increasing [of a b "2 :: rat"] power_int_increasing [of b a "2 :: rat"]
  by (cases "a < b") auto

lemma powi_le_iff [simp]: "2 powi a \<le> (2 powi b :: rat) \<longleftrightarrow> a \<le> b"
  by (simp flip: not_less)

lemma floorlog_powi:
  assumes "0 < a"
  shows "2 powi (int (floorlog 2 a) - 1) \<le> (of_nat a :: rat)" and "(of_nat a :: rat) < 2 powi int (floorlog 2 a)"
proof -
  have b: "2 ^ (floorlog 2 a - 1) \<le> a" "a < 2 ^ floorlog 2 a" "0 < floorlog 2 a"
    using floorlog_bounds [of a 2] assms by (auto simp: floorlog_def)
  have "(2 :: rat) powi (int (floorlog 2 a) - 1) = of_nat (2 ^ (floorlog 2 a - 1))"
    using b(3) by (simp add: power_int_def nat_diff_distrib)
  then show "2 powi (int (floorlog 2 a) - 1) \<le> (of_nat a :: rat)" using b(1) by (simp only: of_nat_le_iff)
  have "(2 :: rat) powi int (floorlog 2 a) = of_nat (2 ^ floorlog 2 a)" by (simp add: power_int_def)
  then show "(of_nat a :: rat) < 2 powi int (floorlog 2 a)" using b(2) by (simp only: of_nat_less_iff)
qed

lemma ilog2_bounds:
  assumes "0 < x"
  shows "2 powi ilog2 x \<le> x" and "x < 2 powi (ilog2 x + 1)"
proof -
  obtain a b where q: "quotient_of x = (a, b)" by force
  have b: "0 < b" using quotient_of_denom_pos [OF q] .
  have x: "x = of_int a / of_int b" using quotient_of_div [OF q] .
  have a: "0 < a" using assms b unfolding x by (simp add: zero_less_divide_iff)
  define A B where "A = int (floorlog 2 (nat a))" and "B = int (floorlog 2 (nat b))"
  have Ab: "2 powi (A - 1) \<le> (of_int a :: rat)" "(of_int a :: rat) < 2 powi A"
    using floorlog_powi [of "nat a"] a by (simp_all add: A_def)
  have Bb: "2 powi (B - 1) \<le> (of_int b :: rat)" "(of_int b :: rat) < 2 powi B"
    using floorlog_powi [of "nat b"] b by (simp_all add: B_def)
  have bpos: "(0 :: rat) < of_int b" using b by simp
  have up: "x < 2 powi (A - B + 1)"
  proof -
    have "of_int a < (2 powi (A - B + 1) * 2 powi (B - 1) :: rat)"
      using Ab(2) by (simp flip: power_int_add)
    also have "\<dots> \<le> 2 powi (A - B + 1) * of_int b" using Bb(1) by (intro mult_left_mono) auto
    finally show ?thesis unfolding x using bpos by (simp add: divide_less_eq)
  qed
  have lo: "2 powi (A - B - 1) \<le> x"
  proof -
    have "2 powi (A - B - 1) * of_int b \<le> (2 powi (A - B - 1) * 2 powi B :: rat)"
      using Bb(2) by (intro mult_left_mono) auto
    also have "\<dots> \<le> of_int a" using Ab(1) by (simp flip: power_int_add add: algebra_simps)
    finally show ?thesis unfolding x using bpos by (simp add: le_divide_eq)
  qed
  show "2 powi ilog2 x \<le> x" using lo by (auto simp: ilog2_def q Let_def A_def B_def)
  show "x < 2 powi (ilog2 x + 1)" using up by (auto simp: ilog2_def q Let_def A_def B_def not_le)
qed

lemma ilog2_mono: "0 < x \<Longrightarrow> x \<le> y \<Longrightarrow> ilog2 x \<le> ilog2 y"
proof -
  assume "0 < x" "x \<le> y"
  then have "2 powi ilog2 x < (2 powi (ilog2 y + 1) :: rat)"
    using ilog2_bounds(1) [of x] ilog2_bounds(2) [of y] by linarith
  then show ?thesis by simp
qed

lemma round_half_even_mono: "x \<le> y \<Longrightarrow> round_half_even x \<le> round_half_even y"
proof -
  assume le: "x \<le> y"
  show ?thesis
  proof (cases "\<lfloor>x\<rfloor> = \<lfloor>y\<rfloor>")
    case True
    then show ?thesis using le by (simp add: round_half_even_def Let_def)
  next
    case False
    then have "\<lfloor>x\<rfloor> + 1 \<le> \<lfloor>y\<rfloor>" using floor_mono [OF le] by simp
    moreover have "round_half_even x \<le> \<lfloor>x\<rfloor> + 1" "\<lfloor>y\<rfloor> \<le> round_half_even y"
      by (simp_all add: round_half_even_def Let_def)
    ultimately show ?thesis by simp
  qed
qed

lemma round_half_even_int [simp]: "round_half_even (of_int n) = n"
  by (simp add: round_half_even_def)

lemma ulp53_pos [simp]: "0 < ulp53 x"
  by (simp add: ulp53_def)

lemma round53_le_mult:
  assumes "0 < x"
  shows "of_int n * ulp53 x \<le> x \<Longrightarrow> of_int n * ulp53 x \<le> round53 x"
    and "x \<le> of_int n * ulp53 x \<Longrightarrow> round53 x \<le> of_int n * ulp53 x"
proof -
  have r: "round53 x = of_int (round_half_even (x / ulp53 x)) * ulp53 x"
    using assms by (simp add: round53_def)
  {
    assume "of_int n * ulp53 x \<le> x"
    then have "of_int n \<le> x / ulp53 x" by (simp add: le_divide_eq)
    from round_half_even_mono [OF this] show "of_int n * ulp53 x \<le> round53 x"
      unfolding r by (intro mult_right_mono) (simp_all add: less_imp_le)
  next
    assume "x \<le> of_int n * ulp53 x"
    then have "x / ulp53 x \<le> of_int n" by (simp add: divide_le_eq)
    from round_half_even_mono [OF this] show "round53 x \<le> of_int n * ulp53 x"
      unfolding r by (intro mult_right_mono) (simp_all add: less_imp_le)
  }
qed

lemma round53_bounds:
  assumes "0 < x"
  shows "2 powi ilog2 x \<le> round53 x" and "round53 x \<le> 2 powi (ilog2 x + 1)"
proof -
  have "2 powi n = (of_int (2 ^ k) * 2 powi (n - int k) :: rat)" for n k
  proof -
    have "2 powi (int k + (n - int k)) = (2 powi int k * 2 powi (n - int k) :: rat)"
      by (rule power_int_add) simp
    then show ?thesis by simp
  qed
  from this [of "ilog2 x" 52] this [of "ilog2 x + 1" 53]
  have p: "2 powi ilog2 x = of_int (2 ^ 52) * ulp53 x" "2 powi (ilog2 x + 1) = of_int (2 ^ 53) * ulp53 x"
    unfolding ulp53_def by simp_all
  show "2 powi ilog2 x \<le> round53 x"
    using ilog2_bounds(1) [OF assms] unfolding p by (rule round53_le_mult(1) [OF assms])
  show "round53 x \<le> 2 powi (ilog2 x + 1)"
    using ilog2_bounds(2) [OF assms, THEN less_imp_le] unfolding p by (rule round53_le_mult(2) [OF assms])
qed

lemma round53_mono:
  assumes "0 \<le> x" and "x \<le> y"
  shows "round53 x \<le> round53 y"
proof (cases "x = 0")
  case True
  have "0 \<le> round53 y"
  proof (cases "y = 0")
    case False
    then have "0 < y" using assms True by simp
    have "(0 :: rat) < 2 powi ilog2 y" by simp
    then show ?thesis using round53_bounds(1) [OF \<open>0 < y\<close>] by linarith
  qed (simp add: round53_def)
  then show ?thesis using True by (simp add: round53_def [of 0])
next
  case False
  then have pos: "0 < x" "0 < y" using assms by simp_all
  show ?thesis
  proof (cases "ilog2 x = ilog2 y")
    case True
    then have u: "ulp53 x = ulp53 y" by (simp add: ulp53_def)
    have "x / ulp53 y \<le> y / ulp53 y" using assms(2) by (simp add: divide_right_mono less_imp_le)
    then have "round_half_even (x / ulp53 y) \<le> round_half_even (y / ulp53 y)" by (rule round_half_even_mono)
    then show ?thesis using pos u by (simp add: round53_def mult_right_mono less_imp_le)
  next
    case False
    then have "ilog2 x + 1 \<le> ilog2 y" using ilog2_mono [OF pos(1) assms(2)] by simp
    then have "2 powi (ilog2 x + 1) \<le> (2 powi ilog2 y :: rat)" by simp
    then show ?thesis using round53_bounds(2) [OF pos(1)] round53_bounds(1) [OF pos(2)] by linarith
  qed
qed

lemma round53_0 [simp]: "round53 0 = 0"
  by (simp add: round53_def)

lemma round53_1 [simp]: "round53 1 = 1"
  by code_simp

lemma f64_le_trans: "f64_le x y \<Longrightarrow> f64_le y z \<Longrightarrow> f64_le x z"
  by (cases x; cases y; cases z) auto

lemma f64_le_Fin: "f64_le (Fin x) t \<longleftrightarrow> t = PosInf \<or> (\<exists>y. t = Fin y \<and> x \<le> y)"
  by (cases t) auto

lemma f64_le_to_Fin: "f64_le t (Fin x) \<longleftrightarrow> t = NegInf \<or> (\<exists>y. t = Fin y \<and> y \<le> x)"
  by (cases t) auto

end
