(* ===== verification/Config.thy ===== *)
theory Config
  imports RustStd F64
begin

text \<open>
  Configuration of the agent, \<^verbatim>\<open>crates/cmx-agent/src/config.rs\<close>: the sections with their defaults,
  deserialisation, validation and the node identifier.

  The TOML parser is a parameter that turns a document into the fields it has; the \<open>serde\<close>
  attributes of the sections, which say what a missing field or section becomes, are
  modelled by the \<open>_of\<close> functions. Validation errors are values of \<open>config_error\<close>, one
  constructor per message; the wording is not modelled. Thresholds are \<open>f64\<close> values,
  so \<open>NaN\<close> is among the inputs.
\<close>

section \<open>Sections\<close>

record agent_section =
  ag_node_id :: string
  ag_listen_addr :: string
  ag_log_level :: string
  ag_log_format :: string
  ag_max_requests_per_second :: u32

record memory_section =
  mem_total_size :: usize
  mem_block_size :: usize
  mem_numa_node :: "u32 option"
  mem_pressure_warn :: f64
  mem_pressure_critical :: f64
  mem_pressure_reject :: f64

record metadata_section =
  md_etcd_endpoints :: "string list"
  md_key_prefix :: string
  md_ttl_seconds :: u64
  md_lease_ttl_seconds :: u64

record transport_section =
  tp_backend :: string

record metrics_section =
  mt_listen_addr :: string

record placement_section =
  pl_vnodes_per_node :: u32

record tls_section =
  tls_enabled :: bool
  tls_cert_path :: string
  tls_key_path :: string
  tls_ca_cert_path :: string

record agent_config =
  cfg_agent :: agent_section
  cfg_memory :: memory_section
  cfg_metadata :: metadata_section
  cfg_transport :: transport_section
  cfg_metrics :: metrics_section
  cfg_placement :: placement_section
  cfg_tls :: tls_section

section \<open>Defaults\<close>

definition default_listen_addr :: string where "default_listen_addr = ''0.0.0.0:50051''"
definition default_log_level :: string where "default_log_level = ''info''"
definition default_log_format :: string where "default_log_format = ''text''"
definition default_total_size :: usize where "default_total_size = 1024 * 1024 * 1024"
definition default_block_size :: usize where "default_block_size = 256 * 1024"
definition default_etcd_endpoints :: "string list" where "default_etcd_endpoints = [''http://localhost:2379'']"
definition default_key_prefix :: string where "default_key_prefix = ''/cmx/blocks''"
definition default_ttl_seconds :: u64 where "default_ttl_seconds = 3600"
definition default_lease_ttl_seconds :: u64 where "default_lease_ttl_seconds = 30"
definition default_transport_backend :: string where "default_transport_backend = ''mock''"
definition default_metrics_addr :: string where "default_metrics_addr = ''0.0.0.0:9090''"
definition default_vnodes_per_node :: u32 where "default_vnodes_per_node = 128"
definition default_pressure_warn :: f64 where "default_pressure_warn = Fin (round53 (3 / 4))"
definition default_pressure_critical :: f64 where "default_pressure_critical = Fin (round53 (9 / 10))"
definition default_pressure_reject :: f64 where "default_pressure_reject = Fin (round53 (19 / 20))"

definition agent_section_default :: agent_section where
  "agent_section_default =
     \<lparr>ag_node_id = [], ag_listen_addr = default_listen_addr, ag_log_level = default_log_level,
      ag_log_format = default_log_format, ag_max_requests_per_second = 0\<rparr>"

definition memory_section_default :: memory_section where
  "memory_section_default =
     \<lparr>mem_total_size = default_total_size, mem_block_size = default_block_size, mem_numa_node = None,
      mem_pressure_warn = default_pressure_warn, mem_pressure_critical = default_pressure_critical,
      mem_pressure_reject = default_pressure_reject\<rparr>"

definition metadata_section_default :: metadata_section where
  "metadata_section_default =
     \<lparr>md_etcd_endpoints = default_etcd_endpoints, md_key_prefix = default_key_prefix,
      md_ttl_seconds = default_ttl_seconds, md_lease_ttl_seconds = default_lease_ttl_seconds\<rparr>"

definition transport_section_default :: transport_section where
  "transport_section_default = \<lparr>tp_backend = default_transport_backend\<rparr>"

definition metrics_section_default :: metrics_section where
  "metrics_section_default = \<lparr>mt_listen_addr = default_metrics_addr\<rparr>"

definition placement_section_default :: placement_section where
  "placement_section_default = \<lparr>pl_vnodes_per_node = default_vnodes_per_node\<rparr>"

definition tls_section_default :: tls_section where
  "tls_section_default = \<lparr>tls_enabled = False, tls_cert_path = [], tls_key_path = [], tls_ca_cert_path = []\<rparr>"

definition default_config :: agent_config where
  "default_config =
     \<lparr>cfg_agent = agent_section_default, cfg_memory = memory_section_default,
      cfg_metadata = metadata_section_default, cfg_transport = transport_section_default,
      cfg_metrics = metrics_section_default, cfg_placement = placement_section_default,
      cfg_tls = tls_section_default\<rparr>"

section \<open>Deserialisation\<close>

text \<open>A parsed document: every field and every section may be missing.\<close>

record agent_fields =
  f_node_id :: "string option"
  f_listen_addr :: "string option"
  f_log_level :: "string option"
  f_log_format :: "string option"
  f_max_requests_per_second :: "u32 option"

record memory_fields =
  f_total_size :: "usize option"
  f_block_size :: "usize option"
  f_numa_node :: "u32 option"
  f_pressure_warn :: "f64 option"
  f_pressure_critical :: "f64 option"
  f_pressure_reject :: "f64 option"

record metadata_fields =
  f_etcd_endpoints :: "string list option"
  f_key_prefix :: "string option"
  f_ttl_seconds :: "u64 option"
  f_lease_ttl_seconds :: "u64 option"

record tls_fields =
  f_enabled :: "bool option"
  f_cert_path :: "string option"
  f_key_path :: "string option"
  f_ca_cert_path :: "string option"

record config_document =
  doc_agent :: "agent_fields option"
  doc_memory :: "memory_fields option"
  doc_metadata :: "metadata_fields option"
  doc_transport :: "string option option"
  doc_metrics :: "string option option"
  doc_placement :: "u32 option option"
  doc_tls :: "tls_fields option"

definition or_default :: "'a \<Rightarrow> 'a option \<Rightarrow> 'a" where
  "or_default d x = (case x of None \<Rightarrow> d | Some y \<Rightarrow> y)"

definition agent_section_of :: "agent_fields \<Rightarrow> agent_section" where
  "agent_section_of f =
     \<lparr>ag_node_id = or_default [] (f_node_id f),
      ag_listen_addr = or_default default_listen_addr (f_listen_addr f),
      ag_log_level = or_default default_log_level (f_log_level f),
      ag_log_format = or_default default_log_format (f_log_format f),
      ag_max_requests_per_second = or_default 0 (f_max_requests_per_second f)\<rparr>"

definition memory_section_of :: "memory_fields \<Rightarrow> memory_section" where
  "memory_section_of f =
     \<lparr>mem_total_size = or_default default_total_size (f_total_size f),
      mem_block_size = or_default default_block_size (f_block_size f),
      mem_numa_node = f_numa_node f,
      mem_pressure_warn = or_default default_pressure_warn (f_pressure_warn f),
      mem_pressure_critical = or_default default_pressure_critical (f_pressure_critical f),
      mem_pressure_reject = or_default default_pressure_reject (f_pressure_reject f)\<rparr>"

definition metadata_section_of :: "metadata_fields \<Rightarrow> metadata_section" where
  "metadata_section_of f =
     \<lparr>md_etcd_endpoints = or_default default_etcd_endpoints (f_etcd_endpoints f),
      md_key_prefix = or_default default_key_prefix (f_key_prefix f),
      md_ttl_seconds = or_default default_ttl_seconds (f_ttl_seconds f),
      md_lease_ttl_seconds = or_default default_lease_ttl_seconds (f_lease_ttl_seconds f)\<rparr>"

definition tls_section_of :: "tls_fields \<Rightarrow> tls_section" where
  "tls_section_of f =
     \<lparr>tls_enabled = or_default False (f_enabled f), tls_cert_path = or_default [] (f_cert_path f),
      tls_key_path = or_default [] (f_key_path f), tls_ca_cert_path = or_default [] (f_ca_cert_path f)\<rparr>"

definition config_of :: "config_document \<Rightarrow> agent_config" where
  "config_of d =
     \<lparr>cfg_agent = or_default agent_section_default (map_option agent_section_of (doc_agent d)),
      cfg_memory = or_default memory_section_default (map_option memory_section_of (doc_memory d)),
      cfg_metadata = or_default metadata_section_default (map_option metadata_section_of (doc_metadata d)),
      cfg_transport = or_default transport_section_default
        (map_option (\<lambda>b. \<lparr>tp_backend = or_default default_transport_backend b\<rparr>) (doc_transport d)),
      cfg_metrics = or_default metrics_section_default
        (map_option (\<lambda>a. \<lparr>mt_listen_addr = or_default default_metrics_addr a\<rparr>) (doc_metrics d)),
      cfg_placement = or_default placement_section_default
        (map_option (\<lambda>v. \<lparr>pl_vnodes_per_node = or_default default_vnodes_per_node v\<rparr>) (doc_placement d)),
      cfg_tls = or_default tls_section_default (map_option tls_section_of (doc_tls d))\<rparr>"

datatype load_error = ReadFailed | TomlFailed

definition load :: "(string \<Rightarrow> string option) \<Rightarrow> (string \<Rightarrow> config_document option) \<Rightarrow> string \<Rightarrow> load_error + agent_config" where
  "load read_to_string toml_from_str path =
     (case read_to_string path of
        None \<Rightarrow> Inl ReadFailed
      | Some content \<Rightarrow>
          (case toml_from_str content of
             None \<Rightarrow> Inl TomlFailed
           | Some d \<Rightarrow> Inr (config_of d)))"

section \<open>Validation\<close>

datatype config_error =
    BlockSizeZero
  | TotalSizeZero
  | NotDivisible usize usize
  | ThresholdRange string f64
  | WarnNotBelowCritical f64 f64
  | CriticalNotBelowReject f64 f64
  | InvalidListenAddr string

definition unit_range :: "f64 \<Rightarrow> bool" where
  "unit_range v \<longleftrightarrow> f64_le (Fin 0) v \<and> f64_le v (Fin 1)"

definition validate :: "agent_config \<Rightarrow> config_error list + unit" where
  "validate c =
     (let m = cfg_memory c;
          errors = [];
          errors = (if mem_block_size m = 0 then errors @ [BlockSizeZero] else errors);
          errors = (if mem_total_size m = 0 then errors @ [TotalSizeZero] else errors);
          errors = (if mem_block_size m > 0 \<and> \<not> mem_block_size m dvd mem_total_size m
                    then errors @ [NotDivisible (mem_total_size m) (mem_block_size m)] else errors);
          warn = mem_pressure_warn m;
          critical = mem_pressure_critical m;
          reject = mem_pressure_reject m;
          errors = fold (\<lambda>(name, val) errors. if \<not> unit_range val then errors @ [ThresholdRange name val] else errors)
                     [(''pressure_warn'', warn), (''pressure_critical'', critical), (''pressure_reject'', reject)] errors;
          errors = (if f64_ge warn critical then errors @ [WarnNotBelowCritical warn critical] else errors);
          errors = (if f64_ge critical reject then errors @ [CriticalNotBelowReject critical reject] else errors);
          errors = (if parse_socket_addr (ag_listen_addr (cfg_agent c)) = None
                    then errors @ [InvalidListenAddr (ag_listen_addr (cfg_agent c))] else errors)
      in if errors = [] then Inr () else Inl errors)"

section \<open>Node identifier\<close>

text \<open>\<open>gethostname\<close> of the C library: \<open>None\<close> for a non-zero return code, else the buffer.\<close>

definition gethostname :: "bytes option \<Rightarrow> string" where
  "gethostname r =
     (case r of
        Some buf \<Rightarrow> from_utf8_lossy (takeWhile (\<lambda>b. b \<noteq> 0) buf)
      | None \<Rightarrow> ''unknown'')"

definition resolve_node_id :: "(string \<Rightarrow> string option) \<Rightarrow> bytes option \<Rightarrow> agent_config \<Rightarrow> agent_config" where
  "resolve_node_id env hostname c =
     (if ag_node_id (cfg_agent c) = [] then
        (case env ''CMX_NODE_ID'' of
           Some i \<Rightarrow> c\<lparr>cfg_agent := (cfg_agent c)\<lparr>ag_node_id := i\<rparr>\<rparr>
         | None \<Rightarrow> c\<lparr>cfg_agent := (cfg_agent c)\<lparr>ag_node_id := gethostname hostname\<rparr>\<rparr>)
      else c)"

section \<open>Lemmas\<close>

definition thresholds_ok :: "memory_section \<Rightarrow> bool" where
  "thresholds_ok m \<longleftrightarrow>
     (\<exists>w c r. mem_pressure_warn m = Fin w \<and> mem_pressure_critical m = Fin c \<and> mem_pressure_reject m = Fin r \<and>
        0 \<le> w \<and> w < c \<and> c < r \<and> r \<le> 1)"

definition sizes_ok :: "memory_section \<Rightarrow> bool" where
  "sizes_ok m \<longleftrightarrow> 0 < mem_block_size m \<and> 0 < mem_total_size m \<and> mem_block_size m dvd mem_total_size m"

lemma unit_range_iff: "unit_range v \<longleftrightarrow> (\<exists>x. v = Fin x \<and> 0 \<le> x \<and> x \<le> 1)"
  by (auto simp: unit_range_def f64_le_Fin)

lemma threshold_conditions:
  "(unit_range w \<and> unit_range c \<and> unit_range r \<and> \<not> f64_ge w c \<and> \<not> f64_ge c r) \<longleftrightarrow>
     (\<exists>w' c' r'. w = Fin w' \<and> c = Fin c' \<and> r = Fin r' \<and> 0 \<le> w' \<and> w' < c' \<and> c' < r' \<and> r' \<le> 1)"
  by (auto simp: unit_range_iff f64_ge_def not_le)

lemma validate_errors:
  defines "errs \<equiv> \<lambda>c. (let m = cfg_memory c; w = mem_pressure_warn m; k = mem_pressure_critical m; r = mem_pressure_reject m;
        a = ag_listen_addr (cfg_agent c) in
      (if mem_block_size m = 0 then [BlockSizeZero] else []) @
      (if mem_total_size m = 0 then [TotalSizeZero] else []) @
      (if mem_block_size m > 0 \<and> \<not> mem_block_size m dvd mem_total_size m
       then [NotDivisible (mem_total_size m) (mem_block_size m)] else []) @
      (if \<not> unit_range w then [ThresholdRange ''pressure_warn'' w] else []) @
      (if \<not> unit_range k then [ThresholdRange ''pressure_critical'' k] else []) @
      (if \<not> unit_range r then [ThresholdRange ''pressure_reject'' r] else []) @
      (if f64_ge w k then [WarnNotBelowCritical w k] else []) @
      (if f64_ge k r then [CriticalNotBelowReject k r] else []) @
      (if parse_socket_addr a = None then [InvalidListenAddr a] else []))"
  shows "validate c = (if errs c = [] then Inr () else Inl (errs c))"
  unfolding errs_def by (simp add: validate_def Let_def)

lemma validate_ok_iff:
  "validate c = Inr () \<longleftrightarrow> sizes_ok (cfg_memory c) \<and> thresholds_ok (cfg_memory c) \<and>
     parse_socket_addr (ag_listen_addr (cfg_agent c)) \<noteq> None"
proof -
  have "validate c = Inr () \<longleftrightarrow> sizes_ok (cfg_memory c) \<and>
      (unit_range (mem_pressure_warn (cfg_memory c)) \<and> unit_range (mem_pressure_critical (cfg_memory c)) \<and>
       unit_range (mem_pressure_reject (cfg_memory c)) \<and>
       \<not> f64_ge (mem_pressure_warn (cfg_memory c)) (mem_pressure_critical (cfg_memory c)) \<and>
       \<not> f64_ge (mem_pressure_critical (cfg_memory c)) (mem_pressure_reject (cfg_memory c))) \<and>
      parse_socket_addr (ag_listen_addr (cfg_agent c)) \<noteq> None"
    unfolding validate_errors by (auto simp: Let_def sizes_ok_def)
  then show ?thesis unfolding threshold_conditions thresholds_ok_def .
qed

lemma default_thresholds:
  "0 \<le> round53 (3 / 4)" "round53 (3 / 4) < round53 (9 / 10)" "round53 (9 / 10) < round53 (19 / 20)"
  "round53 (19 / 20) \<le> 1"
  by code_simp+

lemma default_addr: "default_listen_addr = show_ipv4 0 0 0 0 50051"
proof -
  have "char_of (48 :: nat) = CHR ''0''" "char_of (49 :: nat) = CHR ''1''" "char_of (53 :: nat) = CHR ''5''"
    by code_simp+
  then show ?thesis by (simp add: default_listen_addr_def show_ipv4_def str_dec.simps)
qed

lemma default_config_valid: "validate default_config = Inr ()"
proof -
  have "parse_socket_addr default_listen_addr \<noteq> None"
    unfolding default_addr using parse_show_ipv4 [of 0 0 0 0 50051] by simp
  then show ?thesis
    unfolding validate_ok_iff sizes_ok_def thresholds_ok_def using default_thresholds
    by (simp add: default_config_def agent_section_default_def memory_section_default_def default_pressure_warn_def
        default_pressure_critical_def default_pressure_reject_def default_block_size_def default_total_size_def)
qed

section \<open>Properties\<close>

text \<open>What each error reports, in terms of the configuration.\<close>

fun reported :: "agent_config \<Rightarrow> config_error \<Rightarrow> bool" where
  "reported c BlockSizeZero \<longleftrightarrow> mem_block_size (cfg_memory c) = 0"
| "reported c TotalSizeZero \<longleftrightarrow> mem_total_size (cfg_memory c) = 0"
| "reported c (NotDivisible t b) \<longleftrightarrow>
     t = mem_total_size (cfg_memory c) \<and> b = mem_block_size (cfg_memory c) \<and> 0 < b \<and> \<not> b dvd t"
| "reported c (ThresholdRange name v) \<longleftrightarrow>
     (name = ''pressure_warn'' \<and> v = mem_pressure_warn (cfg_memory c) \<or>
      name = ''pressure_critical'' \<and> v = mem_pressure_critical (cfg_memory c) \<or>
      name = ''pressure_reject'' \<and> v = mem_pressure_reject (cfg_memory c)) \<and> \<not> unit_range v"
| "reported c (WarnNotBelowCritical w k) \<longleftrightarrow>
     w = mem_pressure_warn (cfg_memory c) \<and> k = mem_pressure_critical (cfg_memory c) \<and> f64_ge w k"
| "reported c (CriticalNotBelowReject k r) \<longleftrightarrow>
     k = mem_pressure_critical (cfg_memory c) \<and> r = mem_pressure_reject (cfg_memory c) \<and> f64_ge k r"
| "reported c (InvalidListenAddr a) \<longleftrightarrow> a = ag_listen_addr (cfg_agent c) \<and> parse_socket_addr a = None"

text \<open>C39: Validation accepts exactly the usable configurations: a positive block size, a total size that
  is a positive multiple of it, three proper numbers (no \<open>NaN\<close>) with
  \<open>0 <= warn < critical < reject <= 1\<close> and a listen address that parses. Otherwise it reports
  all problems at once: an error, of whichever kind, is in the list exactly when its condition is met for the values
  it names, and no error is reported twice.\<close>

theorem validate_spec:
  "(validate c = Inr () \<longleftrightarrow> sizes_ok (cfg_memory c) \<and> thresholds_ok (cfg_memory c) \<and>
      parse_socket_addr (ag_listen_addr (cfg_agent c)) \<noteq> None) \<and>
   (case validate c of
      Inr _ \<Rightarrow> \<forall>x. \<not> reported c x
    | Inl es \<Rightarrow> es \<noteq> [] \<and> distinct es \<and> (\<forall>x. x \<in> set es \<longleftrightarrow> reported c x))"
proof -
  let ?es = "case validate c of Inl es \<Rightarrow> es | Inr _ \<Rightarrow> []"
  have "x \<in> set ?es \<longleftrightarrow> reported c x" for x
    unfolding validate_errors Let_def by (cases x) auto
  moreover have "distinct ?es" unfolding validate_errors Let_def by auto
  moreover have "validate c \<noteq> Inl []" unfolding validate_errors by simp
  ultimately show ?thesis unfolding validate_ok_iff [symmetric] by (cases "validate c") auto
qed

text \<open>Missing fields use defaults: an empty document, and a document whose sections are all present
  but empty, give the default configuration, and that configuration passes validation.\<close>

lemma defaults_valid:
  "config_of \<lparr>doc_agent = None, doc_memory = None, doc_metadata = None, doc_transport = None,
     doc_metrics = None, doc_placement = None, doc_tls = None\<rparr> = default_config \<and>
   config_of
     \<lparr>doc_agent = Some \<lparr>f_node_id = None, f_listen_addr = None, f_log_level = None, f_log_format = None,
        f_max_requests_per_second = None\<rparr>,
      doc_memory = Some \<lparr>f_total_size = None, f_block_size = None, f_numa_node = None, f_pressure_warn = None,
        f_pressure_critical = None, f_pressure_reject = None\<rparr>,
      doc_metadata = Some \<lparr>f_etcd_endpoints = None, f_key_prefix = None, f_ttl_seconds = None,
        f_lease_ttl_seconds = None\<rparr>,
      doc_transport = Some None, doc_metrics = Some None, doc_placement = Some None,
      doc_tls = Some \<lparr>f_enabled = None, f_cert_path = None, f_key_path = None, f_ca_cert_path = None\<rparr>\<rparr> =
     default_config \<and>
   validate default_config = Inr ()"
proof -
  note default_config_valid
  then show ?thesis
    by (simp add: config_of_def or_default_def default_config_def agent_section_of_def agent_section_default_def
        memory_section_of_def memory_section_default_def metadata_section_of_def metadata_section_default_def
        transport_section_default_def metrics_section_default_def placement_section_default_def
        tls_section_of_def tls_section_default_def)
qed

text \<open>The node identifier: a configured one is kept; otherwise the environment variable decides, and
  then the host name, cut at the first NUL byte. Nothing else of the configuration changes, and
  resolving again changes nothing.\<close>

lemma resolve_node_id_spec:
  "ag_node_id (cfg_agent (resolve_node_id env host c)) =
     (if ag_node_id (cfg_agent c) \<noteq> [] then ag_node_id (cfg_agent c)
      else case env ''CMX_NODE_ID'' of Some i \<Rightarrow> i | None \<Rightarrow> gethostname host) \<and>
   (\<exists>i. resolve_node_id env host c = c\<lparr>cfg_agent := (cfg_agent c)\<lparr>ag_node_id := i\<rparr>\<rparr>) \<and>
   resolve_node_id env host (resolve_node_id env host c) = resolve_node_id env host c"
proof -
  have "\<exists>i. c = c\<lparr>cfg_agent := (cfg_agent c)\<lparr>ag_node_id := i\<rparr>\<rparr>"
    by (rule exI [of _ "ag_node_id (cfg_agent c)"]) simp
  then show ?thesis by (auto simp: resolve_node_id_def split: option.split)
qed

end
