(* ===== verification/Pressure.thy ===== *)
theory Pressure
  imports BlockAllocator Config
begin

text \<open>
  Memory pressure, \<^verbatim>\<open>crates/cmx-agent/src/pressure.rs\<close>. The monitor task runs once a second; one
  iteration of its loop is \<open>monitor_tick\<close>, a function of the allocator it looks at, the three
  thresholds and the level it replaces. Its result is the new level and whether the change is
  logged; metrics and the text of the log line are not modelled. The monitor receives the block
  index but does not use it, so the index is not an argument.
\<close>

section \<open>Levels and the monitor\<close>

definition PRESSURE_NORMAL :: u8 where "PRESSURE_NORMAL = 0"
definition PRESSURE_WARN :: u8 where "PRESSURE_WARN = 1"
definition PRESSURE_CRITICAL :: u8 where "PRESSURE_CRITICAL = 2"
definition PRESSURE_REJECT :: u8 where "PRESSURE_REJECT = 3"

lemmas pressure_defs = PRESSURE_NORMAL_def PRESSURE_WARN_def PRESSURE_CRITICAL_def PRESSURE_REJECT_def

definition pool_usage :: "pool_stats \<Rightarrow> f64" where
  "pool_usage s =
     (if ps_total_blocks s > 0
      then f64_div (f64_of_nat (ps_used_blocks s)) (f64_of_nat (ps_total_blocks s))
      else Fin 0)"

definition level_of :: "f64 \<Rightarrow> f64 \<Rightarrow> f64 \<Rightarrow> f64 \<Rightarrow> u8" where
  "level_of warn critical reject usage =
     (if f64_ge usage reject then PRESSURE_REJECT
      else if f64_ge usage critical then PRESSURE_CRITICAL
      else if f64_ge usage warn then PRESSURE_WARN
      else PRESSURE_NORMAL)"

definition monitor_tick :: "f64 \<Rightarrow> f64 \<Rightarrow> f64 \<Rightarrow> block_allocator \<Rightarrow> u8 \<Rightarrow> u8 \<times> bool" where
  "monitor_tick warn critical reject A prev =
     (let level = level_of warn critical reject (pool_usage (ba_stats A)) in (level, level \<noteq> prev))"

section \<open>Lemmas\<close>

lemma round53_nonneg: "0 \<le> x \<Longrightarrow> 0 \<le> round53 x"
  using round53_mono [of 0 x] by simp

lemma round53_of_nat_pos: "0 < n \<Longrightarrow> 1 \<le> round53 (of_nat n)"
  using round53_mono [of 1 "of_nat n"] by simp

lemma pool_usage_Fin:
  "0 < ps_total_blocks s \<Longrightarrow>
     pool_usage s = Fin (round53 (round53 (of_nat (ps_used_blocks s)) / round53 (of_nat (ps_total_blocks s))))"
  using round53_of_nat_pos [of "ps_total_blocks s"] by (simp add: pool_usage_def f64_of_nat_def)

lemma usage_mono:
  assumes "ps_total_blocks s = ps_total_blocks s'" and "ps_used_blocks s \<le> ps_used_blocks s'"
  shows "f64_le (pool_usage s) (pool_usage s')"
proof (cases "0 < ps_total_blocks s'")
  case True
  let ?t = "round53 (of_nat (ps_total_blocks s'))"
  have t: "0 < ?t" using round53_of_nat_pos [OF True] by linarith
  have "round53 (of_nat (ps_used_blocks s)) \<le> round53 (of_nat (ps_used_blocks s'))"
    using assms(2) by (intro round53_mono) simp_all
  then have "round53 (of_nat (ps_used_blocks s)) / ?t \<le> round53 (of_nat (ps_used_blocks s')) / ?t"
    using t by (simp add: divide_right_mono)
  moreover have "0 \<le> round53 (of_nat (ps_used_blocks s)) / ?t"
    using t by (simp add: round53_nonneg)
  ultimately show ?thesis using True assms(1) by (simp add: pool_usage_Fin round53_mono)
qed (simp add: pool_usage_def assms(1))

lemma usage_full: "0 < ps_total_blocks s \<Longrightarrow> ps_used_blocks s = ps_total_blocks s \<Longrightarrow> pool_usage s = Fin 1"
  using round53_of_nat_pos [of "ps_total_blocks s"] by (simp add: pool_usage_Fin)

lemma usage_empty: "ps_used_blocks s = 0 \<Longrightarrow> pool_usage s = Fin 0"
  by (cases "0 < ps_total_blocks s") (simp_all add: pool_usage_Fin, simp add: pool_usage_def)

lemma usage_unit:
  assumes "ps_used_blocks s \<le> ps_total_blocks s"
  obtains u where "pool_usage s = Fin u" and "0 \<le> u" and "u \<le> 1"
proof (cases "0 < ps_total_blocks s")
  case True
  have "f64_le (pool_usage s) (Fin 1)"
    using usage_mono [of s "s\<lparr>ps_used_blocks := ps_total_blocks s\<rparr>"] assms True
      usage_full [of "s\<lparr>ps_used_blocks := ps_total_blocks s\<rparr>"] by simp
  moreover have "f64_le (Fin 0) (pool_usage s)"
    using usage_mono [of "s\<lparr>ps_used_blocks := 0\<rparr>" s] usage_empty [of "s\<lparr>ps_used_blocks := 0\<rparr>"] by simp
  ultimately show ?thesis using that pool_usage_Fin [OF True] by auto
qed (use that in \<open>auto simp: pool_usage_def\<close>)

lemma level_mono: "f64_le u u' \<Longrightarrow> level_of w c r u \<le> level_of w c r u'"
  by (auto simp: level_of_def f64_ge_def pressure_defs dest: f64_le_trans)

section \<open>Properties\<close>

text \<open>More used blocks never lower the pressure level: for any thresholds, in any order and even if
  they are not numbers, the level the monitor computes is monotone in the number of used blocks
  of a pool of fixed size, in spite of the rounding of the quotient.\<close>

lemma pressure_monotone:
  assumes "mp_total_blocks (ba_pool A) = mp_total_blocks (ba_pool B)"
    and "length (mp_free_list (ba_pool B)) \<le> length (mp_free_list (ba_pool A))"
  shows "fst (monitor_tick w c r A p) \<le> fst (monitor_tick w c r B p)"
  using assms level_mono [OF usage_mono [of "ba_stats A" "ba_stats B"], of w c r]
  by (simp add: monitor_tick_def ba_stats_def stats_def Let_def diff_le_mono2)

text \<open>With validated thresholds, the monitor reports the reject level for a pool without a free block
  and, unless the warning threshold is zero, the normal level for a pool without a used one; in
  between the level is normal, warn, critical or reject according to which thresholds the
  (rounded) usage has reached.\<close>

lemma pressure_levels:
  assumes "validate cfg = Inr ()" and "pool_inv (ba_pool A)"
  shows "\<exists>u w c r. pool_usage (ba_stats A) = Fin u \<and> 0 \<le> u \<and> u \<le> 1 \<and>
      mem_pressure_warn (cfg_memory cfg) = Fin w \<and> mem_pressure_critical (cfg_memory cfg) = Fin c \<and>
      mem_pressure_reject (cfg_memory cfg) = Fin r \<and>
      fst (monitor_tick (Fin w) (Fin c) (Fin r) A p) =
        (if u < w then PRESSURE_NORMAL else if u < c then PRESSURE_WARN
         else if u < r then PRESSURE_CRITICAL else PRESSURE_REJECT) \<and>
      (mp_free_list (ba_pool A) = [] \<longrightarrow> u = 1 \<and> r \<le> u) \<and>
      (length (mp_free_list (ba_pool A)) = mp_total_blocks (ba_pool A) \<longrightarrow> u = 0 \<and> (0 < w \<longrightarrow> u < w))"
proof -
  obtain w c r where th: "mem_pressure_warn (cfg_memory cfg) = Fin w" "mem_pressure_critical (cfg_memory cfg) = Fin c"
      "mem_pressure_reject (cfg_memory cfg) = Fin r" "0 \<le> w" "w < c" "c < r" "r \<le> 1"
    using assms(1) unfolding validate_ok_iff thresholds_ok_def by blast
  have blocks: "0 < ps_total_blocks (ba_stats A)" "ps_used_blocks (ba_stats A) \<le> ps_total_blocks (ba_stats A)"
    using assms(2) by (simp_all add: ba_stats_def stats_def Let_def pool_inv_def pool_wf_def)
  obtain u where u: "pool_usage (ba_stats A) = Fin u" "0 \<le> u" "u \<le> 1" using usage_unit [OF blocks(2)] by blast
  have "u = 1" if "mp_free_list (ba_pool A) = []"
    using usage_full [OF blocks(1)] u(1) that by (simp add: ba_stats_def stats_def Let_def)
  moreover have "u = 0" if "length (mp_free_list (ba_pool A)) = mp_total_blocks (ba_pool A)"
    using usage_empty [of "ba_stats A"] u(1) that by (simp add: ba_stats_def stats_def Let_def)
  moreover have "fst (monitor_tick (Fin w) (Fin c) (Fin r) A p) =
      (if u < w then PRESSURE_NORMAL else if u < c then PRESSURE_WARN
       else if u < r then PRESSURE_CRITICAL else PRESSURE_REJECT)"
    using th u by (auto simp: monitor_tick_def level_of_def f64_ge_def Let_def)
  ultimately show ?thesis using th u by auto
qed

end
