(* ===== verification/Metadata.thy ===== *)
theory Metadata
  imports RemoteIndex Placement RustStd
begin

text \<open>
  The etcd client of \<^verbatim>\<open>crates/cmx-agent/src/metadata.rs\<close>: node registration under a lease,
  publication of block locations, and the two watch tasks that keep the remote index and the
  hash ring up to date.

  etcd itself is a parameter: \<open>etcd_api\<close> has one field per request of the client library the
  code makes, on an abstract state of the cluster. The JSON form of the two records is a
  parameter too (\<open>codec\<close>, for \<open>serde_json\<close>); hexadecimal is in \<open>platform\<close>. A request that fails
  is an \<open>Inl\<close>. What the theorems use of these parameters is named: \<open>codec_ok\<close>, \<open>hex_ok\<close>,
  \<open>etcd_ok\<close>. Lock acquisition and log output are not modelled.

  A watch stream is the list of messages it delivers. \<open>watch_select\<close> is the task that runs both
  watch loops under one \<open>select!\<close>: its input is an interleaving of the two streams, and it ends
  when either loop does. A message is handled as a whole: the code waits for the lock of the ring within an event, and if the other loop ends
  just then, the event of the departed node is left half done (remote index updated, ring not), which is not modelled.
\<close>

section \<open>Records and parameters\<close>

record node_info =
  ni_node_id :: string
  ni_addr :: string

record block_location_meta =
  bm_node_id :: string
  bm_node_addr :: string
  bm_offset :: u64
  bm_size :: u64
  bm_generation :: u64

record codec =
  node_to_json :: "node_info \<Rightarrow> string option"
  node_of_json :: "bytes \<Rightarrow> node_info option"
  meta_to_json :: "block_location_meta \<Rightarrow> string option"
  meta_of_json :: "bytes \<Rightarrow> block_location_meta option"

type_synonym i64 = int

datatype etcd_error = EtcdError

datatype meta_error = EtcdFailed | JsonFailed | NoLease

type_synonym kv = "bytes \<times> bytes"

record 'e etcd_api =
  etcd_lease_grant :: "i64 \<Rightarrow> 'e \<Rightarrow> (etcd_error + i64) \<times> 'e"
  etcd_lease_keep_alive :: "i64 \<Rightarrow> 'e \<Rightarrow> (etcd_error + unit) \<times> 'e"
  etcd_lease_revoke :: "i64 \<Rightarrow> 'e \<Rightarrow> (etcd_error + unit) \<times> 'e"
  etcd_put :: "string \<Rightarrow> string \<Rightarrow> i64 option \<Rightarrow> 'e \<Rightarrow> (etcd_error + unit) \<times> 'e"
  etcd_get :: "string \<Rightarrow> bool \<Rightarrow> 'e \<Rightarrow> (etcd_error + kv list) \<times> 'e"
  etcd_watch :: "string \<Rightarrow> bool \<Rightarrow> 'e \<Rightarrow> (etcd_error + unit) \<times> 'e"

record metadata_client =
  mc_lease_id :: "i64 option"
  mc_node_id :: string
  mc_node_addr :: string
  mc_lease_ttl :: i64

section \<open>The client\<close>

definition connect :: "(string list \<Rightarrow> etcd_error + unit) \<Rightarrow> string list \<Rightarrow> string \<Rightarrow> string \<Rightarrow> i64 \<Rightarrow> meta_error + metadata_client" where
  "connect client_connect endpoints node_id node_addr lease_ttl =
     (case client_connect endpoints of
        Inl _ \<Rightarrow> Inl EtcdFailed
      | Inr _ \<Rightarrow> Inr \<lparr>mc_lease_id = None, mc_node_id = node_id, mc_node_addr = node_addr, mc_lease_ttl = lease_ttl\<rparr>)"

definition register_node ::
    "'e etcd_api \<Rightarrow> codec \<Rightarrow> metadata_client \<Rightarrow> 'e \<Rightarrow> (meta_error + unit) \<times> metadata_client \<times> 'e" where
  "register_node api cd c e =
     (case etcd_lease_grant api (mc_lease_ttl c) e of
        (Inl _, e1) \<Rightarrow> (Inl EtcdFailed, c, e1)
      | (Inr i, e1) \<Rightarrow>
          let c1 = c\<lparr>mc_lease_id := Some i\<rparr>;
              key = ''/cmx/nodes/'' @ mc_node_id c;
              val = (case node_to_json cd \<lparr>ni_node_id = mc_node_id c, ni_addr = mc_node_addr c\<rparr> of
                       None \<Rightarrow> [] | Some j \<Rightarrow> j)
          in (case etcd_put api key val (Some i) e1 of
                (Inl _, e2) \<Rightarrow> (Inl EtcdFailed, c1, e2)
              | (Inr _, e2) \<Rightarrow> (Inr (), c1, e2)))"

text \<open>Rust's integer division truncates towards zero.\<close>

definition keepalive_interval :: "i64 \<Rightarrow> u64" where
  "keepalive_interval ttl = of_int (max (sgn ttl * (\<bar>ttl\<bar> div 3)) 1)"

definition start_keepalive :: "'e etcd_api \<Rightarrow> metadata_client \<Rightarrow> 'e \<Rightarrow> (meta_error + u64) \<times> 'e" where
  "start_keepalive api c e =
     (case mc_lease_id c of
        None \<Rightarrow> (Inl NoLease, e)
      | Some lease_id \<Rightarrow>
          (case etcd_lease_keep_alive api lease_id e of
             (Inl _, e1) \<Rightarrow> (Inl EtcdFailed, e1)
           | (Inr _, e1) \<Rightarrow> (Inr (keepalive_interval (mc_lease_ttl c)), e1)))"

definition list_nodes :: "'e etcd_api \<Rightarrow> codec \<Rightarrow> 'e \<Rightarrow> (meta_error + node_info list) \<times> 'e" where
  "list_nodes api cd e =
     (case etcd_get api ''/cmx/nodes/'' True e of
        (Inl _, e1) \<Rightarrow> (Inl EtcdFailed, e1)
      | (Inr kvs, e1) \<Rightarrow> (Inr (List.map_filter (\<lambda>kv. node_of_json cd (snd kv)) kvs), e1))"

definition block_key :: "platform \<Rightarrow> hash16 \<Rightarrow> string" where
  "block_key pf prefix_hash = ''/cmx/blocks/'' @ hex_encode_of pf prefix_hash"

definition publish_block ::
    "'e etcd_api \<Rightarrow> codec \<Rightarrow> platform \<Rightarrow> metadata_client \<Rightarrow> hash16 \<Rightarrow> u64 \<Rightarrow> u64 \<Rightarrow> u64 \<Rightarrow> 'e \<Rightarrow> (meta_error + unit) \<times> 'e" where
  "publish_block api cd pf c prefix_hash offset sz generation e =
     (let meta = \<lparr>bm_node_id = mc_node_id c, bm_node_addr = mc_node_addr c, bm_offset = offset,
                  bm_size = sz, bm_generation = generation\<rparr>
      in case meta_to_json cd meta of
           None \<Rightarrow> (Inl JsonFailed, e)
         | Some val \<Rightarrow>
             (case etcd_put api (block_key pf prefix_hash) val (mc_lease_id c) e of
                (Inl _, e1) \<Rightarrow> (Inl EtcdFailed, e1)
              | (Inr _, e1) \<Rightarrow> (Inr (), e1)))"

definition info_of_meta :: "block_location_meta \<Rightarrow> remote_block_info" where
  "info_of_meta m =
     \<lparr>rb_node_id = bm_node_id m, rb_node_addr = bm_node_addr m, rb_offset = bm_offset m,
      rb_size = bm_size m, rb_generation = bm_generation m\<rparr>"

definition lookup_block ::
    "'e etcd_api \<Rightarrow> codec \<Rightarrow> platform \<Rightarrow> hash16 \<Rightarrow> 'e \<Rightarrow> (meta_error + remote_block_info option) \<times> 'e" where
  "lookup_block api cd pf prefix_hash e =
     (case etcd_get api (block_key pf prefix_hash) False e of
        (Inl _, e1) \<Rightarrow> (Inl EtcdFailed, e1)
      | (Inr kvs, e1) \<Rightarrow>
          (Inr (case kvs of
                  [] \<Rightarrow> None
                | kv # _ \<Rightarrow> map_option info_of_meta (meta_of_json cd (snd kv))), e1))"

definition start_block_watch :: "'e etcd_api \<Rightarrow> 'e \<Rightarrow> (meta_error + unit) \<times> 'e" where
  "start_block_watch api e =
     (case etcd_watch api ''/cmx/blocks/'' True e of
        (Inl _, e1) \<Rightarrow> (Inl EtcdFailed, e1)
      | (Inr _, e1) \<Rightarrow>
          (case etcd_watch api ''/cmx/nodes/'' True e1 of
             (Inl _, e2) \<Rightarrow> (Inl EtcdFailed, e2)
           | (Inr _, e2) \<Rightarrow> (Inr (), e2)))"

definition revoke_lease :: "'e etcd_api \<Rightarrow> metadata_client \<Rightarrow> 'e \<Rightarrow> (meta_error + unit) \<times> 'e" where
  "revoke_lease api c e =
     (case mc_lease_id c of
        None \<Rightarrow> (Inr (), e)
      | Some i \<Rightarrow>
          (case etcd_lease_revoke api i e of
             (Inl _, e1) \<Rightarrow> (Inl EtcdFailed, e1)
           | (Inr _, e1) \<Rightarrow> (Inr (), e1)))"

section \<open>The keepalive task\<close>

datatype keepalive_msg = KaResp i64 | KaEnd | KaError

datatype keepalive_exit = KaRequestFailed | KaLeaseExpired | KaStreamEnded | KaStreamError

text \<open>
  One round is the result of the keepalive request and the next message of the stream. After
  the given rounds the loop has returned for a reason, or is still running (\<open>None\<close>).
\<close>

fun keepalive_loop :: "(bool \<times> keepalive_msg) list \<Rightarrow> keepalive_exit option" where
  "keepalive_loop [] = None"
| "keepalive_loop ((request_ok, msg) # rounds) =
     (if \<not> request_ok then Some KaRequestFailed
      else case msg of
        KaResp ttl \<Rightarrow> (if ttl = 0 then Some KaLeaseExpired else keepalive_loop rounds)
      | KaEnd \<Rightarrow> Some KaStreamEnded
      | KaError \<Rightarrow> Some KaStreamError)"

section \<open>The watch tasks\<close>

datatype event_type = EvPut | EvDelete

record watch_event =
  we_type :: event_type
  we_kv :: "kv option"

datatype watch_msg = WatchResp "watch_event list" | WatchEnd | WatchError

definition watched_hash :: "platform \<Rightarrow> bytes \<Rightarrow> hash16 option" where
  "watched_hash pf key =
     (case hex_decode_of pf (trim_start_matches ''/cmx/blocks/'' (from_utf8_lossy key)) of
        Some b \<Rightarrow> (if length b = 16 then Some b else None)
      | None \<Rightarrow> None)"

definition block_event :: "platform \<Rightarrow> codec \<Rightarrow> watch_event \<Rightarrow> remote_index \<Rightarrow> remote_index" where
  "block_event pf cd ev ri =
     (case we_kv ev of
        None \<Rightarrow> ri
      | Some (key, val) \<Rightarrow>
          (case watched_hash pf key of
             None \<Rightarrow> ri
           | Some hash_bytes \<Rightarrow>
               (case we_type ev of
                  EvPut \<Rightarrow>
                    (case meta_of_json cd val of
                       Some meta \<Rightarrow> remote_insert hash_bytes (info_of_meta meta) ri
                     | None \<Rightarrow> ri)
                | EvDelete \<Rightarrow> remote_remove hash_bytes ri)))"

definition watched_node :: "bytes \<Rightarrow> string" where
  "watched_node key = trim_start_matches ''/cmx/nodes/'' (from_utf8_lossy key)"

definition node_event ::
    "platform \<Rightarrow> watch_event \<Rightarrow> remote_index \<times> hash_ring option \<Rightarrow> remote_index \<times> hash_ring option" where
  "node_event pf ev s =
     (case s of (ri, ring) \<Rightarrow>
       (case we_kv ev of
          None \<Rightarrow> (ri, ring)
        | Some (key, val) \<Rightarrow>
            let node_id = watched_node key in
            (case we_type ev of
               EvPut \<Rightarrow> (ri, map_option (add_node pf node_id) ring)
             | EvDelete \<Rightarrow> (remote_remove_node node_id ri, map_option (remove_node node_id) ring))))"

text \<open>One iteration of each loop: \<open>None\<close> when it returns.\<close>

definition watch_blocks ::
    "platform \<Rightarrow> codec \<Rightarrow> watch_msg \<Rightarrow> remote_index \<Rightarrow> remote_index option" where
  "watch_blocks pf cd msg ri =
     (case msg of
        WatchResp evs \<Rightarrow> Some (fold (block_event pf cd) evs ri)
      | WatchEnd \<Rightarrow> None
      | WatchError \<Rightarrow> None)"

definition watch_nodes ::
    "platform \<Rightarrow> watch_msg \<Rightarrow> remote_index \<times> hash_ring option \<Rightarrow> (remote_index \<times> hash_ring option) option" where
  "watch_nodes pf msg s =
     (case msg of
        WatchResp evs \<Rightarrow> Some (fold (node_event pf) evs s)
      | WatchEnd \<Rightarrow> None
      | WatchError \<Rightarrow> None)"

datatype watch_input = BlockMsg watch_msg | NodeMsg watch_msg

fun watch_select ::
    "platform \<Rightarrow> codec \<Rightarrow> watch_input list \<Rightarrow> remote_index \<times> hash_ring option \<Rightarrow>
     bool \<times> remote_index \<times> hash_ring option" where
  "watch_select pf cd [] s = (True, s)"
| "watch_select pf cd (BlockMsg m # ms) s =
     (case watch_blocks pf cd m (fst s) of
        None \<Rightarrow> (False, s)
      | Some ri \<Rightarrow> watch_select pf cd ms (ri, snd s))"
| "watch_select pf cd (NodeMsg m # ms) s =
     (case watch_nodes pf m s of
        None \<Rightarrow> (False, s)
      | Some s1 \<Rightarrow> watch_select pf cd ms s1)"

section \<open>What is assumed of the parameters\<close>

definition hex_digits :: string where
  "hex_digits = ''0123456789abcdef''"

definition hex_ok :: "platform \<Rightarrow> bool" where
  "hex_ok pf \<longleftrightarrow>
     (\<forall>b. hex_decode_of pf (hex_encode_of pf b) = Some b \<and> set (hex_encode_of pf b) \<subseteq> set hex_digits)"

definition codec_ok :: "codec \<Rightarrow> bool" where
  "codec_ok cd \<longleftrightarrow> (\<forall>m j. meta_to_json cd m = Some j \<longrightarrow> meta_of_json cd (str_bytes j) = Some m)"

definition etcd_ok :: "'e etcd_api \<Rightarrow> bool" where
  "etcd_ok api \<longleftrightarrow>
     (\<forall>k v l e e'. etcd_put api k v l e = (Inr (), e') \<longrightarrow>
        etcd_get api k False e' = (Inr [(str_bytes k, str_bytes v)], e'))"

section \<open>What the watch tasks do, as operations\<close>

fun block_op :: "platform \<Rightarrow> codec \<Rightarrow> watch_event \<Rightarrow> remote_op list" where
  "block_op pf cd ev =
     (case we_kv ev of
        None \<Rightarrow> []
      | Some (key, val) \<Rightarrow>
          (case (watched_hash pf key, we_type ev, meta_of_json cd val) of
             (Some h, EvPut, Some m) \<Rightarrow> [PutBlock h (info_of_meta m)]
           | (Some h, EvDelete, _) \<Rightarrow> [DropKey h]
           | _ \<Rightarrow> []))"

fun node_op :: "watch_event \<Rightarrow> remote_op list" where
  "node_op ev =
     (case (we_kv ev, we_type ev) of
        (Some (key, _), EvDelete) \<Rightarrow> [DropNode (watched_node key)]
      | _ \<Rightarrow> [])"

fun node_change :: "watch_event \<Rightarrow> membership list" where
  "node_change ev =
     (case (we_kv ev, we_type ev) of
        (Some (key, _), EvPut) \<Rightarrow> [Join (watched_node key)]
      | (Some (key, _), EvDelete) \<Rightarrow> [Leave (watched_node key)]
      | _ \<Rightarrow> [])"

fun watch_ops :: "platform \<Rightarrow> codec \<Rightarrow> watch_input list \<Rightarrow> remote_op list" where
  "watch_ops pf cd (BlockMsg (WatchResp evs) # ms) = concat (map (block_op pf cd) evs) @ watch_ops pf cd ms"
| "watch_ops pf cd (NodeMsg (WatchResp evs) # ms) = concat (map node_op evs) @ watch_ops pf cd ms"
| "watch_ops pf cd _ = []"

fun watch_changes :: "watch_input list \<Rightarrow> membership list" where
  "watch_changes (BlockMsg (WatchResp evs) # ms) = watch_changes ms"
| "watch_changes (NodeMsg (WatchResp evs) # ms) = concat (map node_change evs) @ watch_changes ms"
| "watch_changes _ = []"

definition still_running :: "watch_input list \<Rightarrow> bool" where
  "still_running ms \<longleftrightarrow> (\<forall>m \<in> set ms. \<exists>evs. m = BlockMsg (WatchResp evs) \<or> m = NodeMsg (WatchResp evs))"

abbreviation apply_op :: "remote_op \<Rightarrow> remote_index \<Rightarrow> remote_index" where
  "apply_op \<equiv> remote_step remote_insert remote_remove remote_remove_node"

section \<open>Lemmas\<close>

lemma block_event_op: "block_event pf cd ev ri = fold apply_op (block_op pf cd ev) ri"
  by (auto simp: block_event_def split: option.split event_type.split)

lemma fold_block_event: "fold (block_event pf cd) evs ri = fold apply_op (concat (map (block_op pf cd) evs)) ri"
  by (induction evs arbitrary: ri) (simp_all add: block_event_op del: block_op.simps)

lemma node_event_op:
  "node_event pf ev (ri, ring) =
     (fold apply_op (node_op ev) ri, map_option (member_run (add_node pf) remove_node (node_change ev)) ring)"
  by (cases ring) (auto simp: node_event_def member_run_def Let_def split: option.split event_type.split)

lemma fold_node_event:
  "fold (node_event pf) evs (ri, ring) =
     (fold apply_op (concat (map node_op evs)) ri,
      map_option (member_run (add_node pf) remove_node (concat (map node_change evs))) ring)"
proof (induction evs arbitrary: ri ring)
  case Nil
  then show ?case by (simp add: member_run_def [abs_def] option.map_id option.map_ident)
next
  case (Cons ev evs)
  then show ?case
    by (cases ring) (simp_all add: node_event_op member_run_def del: node_op.simps node_change.simps)
qed

lemma watch_select_ops:
  "watch_select pf cd ms (ri, ring) =
     (still_running ms, fold apply_op (watch_ops pf cd ms) ri,
      map_option (member_run (add_node pf) remove_node (watch_changes ms)) ring)"
proof (induction ms arbitrary: ri ring)
  case Nil
  then show ?case by (simp add: still_running_def member_run_def [abs_def] option.map_id option.map_ident)
next
  case (Cons m ms)
  have id: "map_option (member_run (add_node pf) remove_node []) ring = ring" for ring
    by (simp add: member_run_def [abs_def] option.map_id option.map_ident)
  have comp: "map_option (member_run (add_node pf) remove_node ys) (map_option (member_run (add_node pf) remove_node xs) ring) =
      map_option (member_run (add_node pf) remove_node (xs @ ys)) ring" for xs ys ring
    by (cases ring) (simp_all add: member_run_def)
  show ?case
  proof (cases m)
    case (BlockMsg w)
    then show ?thesis
      using Cons by (cases w) (auto simp: watch_blocks_def still_running_def fold_block_event id)
  next
    case (NodeMsg w)
    then show ?thesis
      using Cons by (cases w) (auto simp: watch_nodes_def still_running_def fold_node_event id comp)
  qed
qed

lemma of_char_u8 [simp]: "unat (of_char c :: u8) = of_char c"
proof -
  have "of_char c mod 256 < (256 :: nat)" by simp
  then have "(of_char c :: nat) < 256" by (simp only: of_char_mod_256)
  then show ?thesis by (simp add: unat_of_nat flip: of_nat_of_char [where 'a = u8])
qed

lemma from_utf8_str_bytes:
  assumes "\<forall>c \<in> set s. (of_char c :: nat) < 128"
  shows "from_utf8_lossy (str_bytes s) = s"
proof -
  have "utf8_lossy (map of_char s) = map of_char s"
    using assms by (intro utf8_lossy_ascii) auto
  then show ?thesis by (simp add: from_utf8_lossy_def str_bytes_def comp_def)
qed

lemma watched_hash_block_key:
  assumes "hex_ok pf" and "length h = 16"
  shows "watched_hash pf (str_bytes (block_key pf h)) = Some h"
proof -
  define s where "s = hex_encode_of pf h"
  have s: "set s \<subseteq> set hex_digits" "hex_decode_of pf s = Some h" using assms(1) by (simp_all add: hex_ok_def s_def)
  have ascii: "\<forall>c \<in> set hex_digits. (of_char c :: nat) < 128" "\<forall>c \<in> set ''/cmx/blocks/''. (of_char c :: nat) < 128"
    by code_simp+
  have "from_utf8_lossy (str_bytes (block_key pf h)) = ''/cmx/blocks/'' @ s"
    unfolding block_key_def s_def [symmetric] using ascii s(1) by (intro from_utf8_str_bytes) auto
  moreover have "take (length ''/cmx/blocks/'') s \<noteq> ''/cmx/blocks/''"
  proof
    assume "take (length ''/cmx/blocks/'') s = ''/cmx/blocks/''"
    then have "CHR ''/'' \<in> set s" by (metis in_set_takeD list.set_intros(1))
    moreover have "CHR ''/'' \<notin> set hex_digits" by (simp add: hex_digits_def)
    ultimately show False using s(1) by blast
  qed
  ultimately show ?thesis
    using s(2) assms(2) trim_start_matches_once [of "''/cmx/blocks/''" s] by (simp add: watched_hash_def)
qed

lemma remote_view_no_node:
  assumes "remote_inv ri" and "\<forall>k. remote_view ri k n = None" and "remote_lookup k ri = Some es"
  shows "n \<notin> rb_node_id ` set es"
proof
  assume "n \<in> rb_node_id ` set es"
  then obtain e where "e \<in> set es" "rb_node_id e = n" by blast
  then show False using remote.lk_Some [OF assms(1,3)] assms(2) by force
qed

lemma remote_spec_no_node:
  assumes "\<forall>k e. PutBlock k e \<in> set ops \<longrightarrow> rb_node_id e \<noteq> n" and "\<forall>k. V k n = None"
  shows "fold remote_spec ops V k n = None"
  using assms
proof (induction ops arbitrary: V)
  case (Cons x ops)
  have "remote_spec x V k n = None" for k
  proof (cases x)
    case (PutBlock k' e)
    then have "rb_node_id e \<noteq> n" using Cons.prems(1) by simp
    then show ?thesis using PutBlock Cons.prems(2) by auto
  qed (use Cons.prems(2) in simp_all)
  then show ?case using Cons by simp
qed simp

lemma watch_select_view:
  assumes "remote_inv ri" and "watch_select pf cd ms (ri, ring) = (b, ri', ring')"
  shows "remote_inv ri'" and "remote_view ri' = fold remote_spec (watch_ops pf cd ms) (remote_view ri)"
  using remote.run_ok [OF assms(1), of "watch_ops pf cd ms"] assms(2) by (auto simp: watch_select_ops)

text \<open>Parameters for the witnesses: a toy wire format and a cluster that is one map.\<close>

definition demo_meta_to_json :: "block_location_meta \<Rightarrow> string option" where
  "demo_meta_to_json m =
     (if length (bm_node_id m) < 256
      then Some (char_of (length (bm_node_id m)) # bm_node_id m @
                 map (char_of \<circ> unat) (le_encode 8 (bm_offset m) @ le_encode 8 (bm_size m) @ le_encode 8 (bm_generation m)) @
                 bm_node_addr m)
      else None)"

definition demo_meta_of_json :: "bytes \<Rightarrow> block_location_meta option" where
  "demo_meta_of_json bs =
     (case bs of
        [] \<Rightarrow> None
      | b # cs \<Rightarrow>
          let n = unat b; ds = drop n cs in
          Some \<lparr>bm_node_id = map (char_of \<circ> unat) (take n cs), bm_node_addr = map (char_of \<circ> unat) (drop 24 ds),
                bm_offset = le_decode (seg 0 8 ds), bm_size = le_decode (seg 8 8 ds),
                bm_generation = le_decode (seg 16 8 ds)\<rparr>)"

definition demo_codec :: codec where
  "demo_codec =
     \<lparr>node_to_json = (\<lambda>n. Some (ni_node_id n)), node_of_json = (\<lambda>_. None),
      meta_to_json = demo_meta_to_json, meta_of_json = demo_meta_of_json\<rparr>"

definition demo_etcd :: "(string \<Rightarrow> string option) etcd_api" where
  "demo_etcd =
     \<lparr>etcd_lease_grant = (\<lambda>_ e. (Inr 7, e)), etcd_lease_keep_alive = (\<lambda>_ e. (Inr (), e)),
      etcd_lease_revoke = (\<lambda>_ e. (Inr (), e)), etcd_put = (\<lambda>k v _ e. (Inr (), e(k \<mapsto> v))),
      etcd_get = (\<lambda>k _ e. (Inr (case e k of None \<Rightarrow> [] | Some v \<Rightarrow> [(str_bytes k, str_bytes v)]), e)),
      etcd_watch = (\<lambda>_ _ e. (Inr (), e))\<rparr>"

definition demo_client :: metadata_client where
  "demo_client = \<lparr>mc_lease_id = Some 7, mc_node_id = ''n1'', mc_node_addr = ''a1'', mc_lease_ttl = 30\<rparr>"

lemma unat_u8_less: "unat (b :: u8) < 256"
  using unsigned_less [of b, where ?'a = nat] by simp

lemma char_of_u8 [simp]: "(of_char (char_of (unat (b :: u8))) :: u8) = b"
proof -
  have "unat b mod 256 = unat b" using unat_u8_less [of b] by simp
  then have "of_char (char_of (unat b)) = unat b" by (simp only: of_char_of)
  then show ?thesis using of_nat_of_char [of "char_of (unat b)", where 'a = u8] by simp
qed

lemma demo_codec_ok: "codec_ok demo_codec"
proof -
  have bytes: "str_bytes (map (char_of \<circ> unat) bs) = bs" for bs :: bytes
    by (simp add: str_bytes_def comp_def)
  have chars: "map (char_of \<circ> unat) (str_bytes s) = s" for s by (simp add: str_bytes_def comp_def)
  have app: "str_bytes (s @ t) = str_bytes s @ str_bytes t" for s t by (simp add: str_bytes_def)
  have "demo_meta_of_json (str_bytes j) = Some m" if j: "demo_meta_to_json m = Some j" for m j
  proof -
    have n: "length (bm_node_id m) < 256" using j by (simp add: demo_meta_to_json_def split: if_splits)
    have hd: "unat (of_char (char_of (length (bm_node_id m))) :: u8) = length (bm_node_id m)"
      using n by (simp add: of_char_of)
    have "str_bytes j = of_char (char_of (length (bm_node_id m))) # str_bytes (bm_node_id m) @
        le_encode 8 (bm_offset m) @ le_encode 8 (bm_size m) @ le_encode 8 (bm_generation m) @ str_bytes (bm_node_addr m)"
      using j n by (auto simp: demo_meta_to_json_def app bytes) (simp add: str_bytes_def comp_def)
    moreover have "length (str_bytes (bm_node_id m)) = length (bm_node_id m)" by (simp add: str_bytes_def)
    ultimately show ?thesis
      using hd by (simp add: demo_meta_of_json_def Let_def chars seg_def)
  qed
  then show ?thesis by (simp add: codec_ok_def demo_codec_def)
qed

lemma demo_hex_ok: "hex_ok demo_pf"
proof -
  have nib: "demo_unnibble (demo_nibble n) = Some n \<and> demo_nibble n \<in> set hex_digits" if "n < 16" for n :: u8
  proof -
    have n: "unat n < 16" using that by (simp add: word_less_nat_alt)
    have d: "distinct demo_digits" "length demo_digits = 16" by (simp_all add: demo_digits_def)
    have eq: "hex_digits = demo_digits" by (simp add: hex_digits_def demo_digits_def)
    have "map_of (zip demo_digits (map of_nat [0..<16] :: u8 list)) (demo_digits ! unat n) = Some (map of_nat [0..<16] ! unat n)"
      using n d by (intro map_of_zip_nth) simp_all
    moreover have "demo_digits ! unat n \<in> set demo_digits" using n d(2) by simp
    ultimately show ?thesis using n unfolding eq demo_unnibble_def demo_nibble_def by simp
  qed
  have hi: "drop_bit 4 b < 16" and lo: "b AND 15 < 16" and join: "push_bit 4 (drop_bit 4 b) OR (b AND 15) = b" for b :: u8
  proof -
    note unat_u8_less [of b]
    then show "drop_bit 4 b < 16" by (simp add: word_less_nat_alt drop_bit_eq_div unat_div)
    have "b AND 15 \<le> 15" by (rule word_and_le1)
    then show "b AND 15 < 16" by (rule order_le_less_trans) simp
    have "b AND 15 = take_bit 4 b" by (simp add: take_bit_eq_mask mask_eq_exp_minus_1)
    then show "push_bit 4 (drop_bit 4 b) OR (b AND 15) = b"
      by (auto simp: bit_eq_iff bit_or_iff bit_push_bit_iff bit_drop_bit_eq bit_take_bit_iff dest: bit_imp_le_length)
  qed
  have "demo_unhex (demo_hex b) = Some b \<and> set (demo_hex b) \<subseteq> set hex_digits" for b
    by (induction b) (simp_all add: nib hi lo join)
  then show ?thesis by (simp add: hex_ok_def demo_pf_def)
qed

lemma demo_etcd_ok: "etcd_ok demo_etcd"
  by (simp add: etcd_ok_def demo_etcd_def)

section \<open>Properties\<close>

text \<open>C34: Publication round trip. If the JSON and hexadecimal codecs invert each other and etcd returns
  what was put, then after a successful \<open>publish_block\<close> a \<open>lookup_block\<close> of the same key returns
  exactly the published location under the publishing node, and a watcher that receives the stored
  pair as a put event inserts exactly that entry under exactly that key into its remote index.\<close>

theorem publish_roundtrip:
  assumes "codec_ok cd" and "hex_ok pf" and "etcd_ok api" and "length h = 16"
    and "publish_block api cd pf c h off sz gen e = (Inr (), e')"
  shows "lookup_block api cd pf h e' =
      (Inr (Some \<lparr>rb_node_id = mc_node_id c, rb_node_addr = mc_node_addr c, rb_offset = off,
                  rb_size = sz, rb_generation = gen\<rparr>), e') \<and>
    (\<exists>kv. etcd_get api (block_key pf h) False e' = (Inr [kv], e') \<and>
       (\<forall>ri. block_event pf cd \<lparr>we_type = EvPut, we_kv = Some kv\<rparr> ri =
          remote_insert h \<lparr>rb_node_id = mc_node_id c, rb_node_addr = mc_node_addr c, rb_offset = off,
                           rb_size = sz, rb_generation = gen\<rparr> ri))"
proof -
  define m where "m = \<lparr>bm_node_id = mc_node_id c, bm_node_addr = mc_node_addr c, bm_offset = off,
    bm_size = sz, bm_generation = gen\<rparr>"
  obtain j where j: "meta_to_json cd m = Some j" "etcd_put api (block_key pf h) j (mc_lease_id c) e = (Inr (), e')"
    using assms(5)
    by (auto simp: publish_block_def Let_def m_def [symmetric] split: option.splits prod.splits sum.splits)
  have m: "meta_of_json cd (str_bytes j) = Some m" using assms(1) j(1) by (simp add: codec_ok_def)
  have get: "etcd_get api (block_key pf h) False e' = (Inr [(str_bytes (block_key pf h), str_bytes j)], e')"
    using assms(3) j(2) by (simp add: etcd_ok_def)
  show ?thesis
    using m get watched_hash_block_key [OF assms(2,4)]
    by (simp add: lookup_block_def block_event_def info_of_meta_def m_def)
qed

theorem publish_roundtrip_witness:
  "\<exists>e'. publish_block demo_etcd demo_codec demo_pf demo_client (replicate 16 9) 64 32 5 (\<lambda>_. None) = (Inr (), e') \<and>
     lookup_block demo_etcd demo_codec demo_pf (replicate 16 9) e' =
       (Inr (Some \<lparr>rb_node_id = ''n1'', rb_node_addr = ''a1'', rb_offset = 64, rb_size = 32, rb_generation = 5\<rparr>), e')"
proof -
  obtain e' where e': "publish_block demo_etcd demo_codec demo_pf demo_client (replicate 16 9) 64 32 5 (\<lambda>_. None) = (Inr (), e')"
    by (simp add: publish_block_def demo_etcd_def demo_codec_def demo_meta_to_json_def demo_client_def Let_def)
  show ?thesis
    using publish_roundtrip [OF demo_codec_ok demo_hex_ok demo_etcd_ok _ e'] e' by (simp add: demo_client_def)
qed

text \<open>C33: The watch task, whatever the interleaving of the two etcd streams, applies to the remote index
  exactly the insertions, removals and node removals the events stand for, in the order of
  arrival, and to the hash ring exactly the joins and leaves; events without a key-value pair, with
  a key that is not 16 hexadecimal bytes or with a value that does not parse change nothing. It stops
  for good at the first end or error of either stream.\<close>

theorem watch_select_spec:
  assumes "remote_inv ri" and "watch_select pf cd ms (ri, ring) = (running, ri', ring')"
  shows "running = still_running ms \<and> remote_inv ri' \<and>
    remote_view ri' = fold remote_spec (watch_ops pf cd ms) (remote_view ri) \<and>
    ring' = map_option (member_run (add_node pf) remove_node (watch_changes ms)) ring \<and>
    (ring = Some (ring_new v) \<longrightarrow> map_option hr_nodes ring' = Some (members_after [] (watch_changes ms)))"
proof -
  have "hr_nodes (member_run (add_node pf) remove_node (watch_changes ms) (ring_new v)) =
      members_after [] (watch_changes ms)"
    unfolding ring.run_nodes by (simp add: ring_new_def)
  then show ?thesis
    using watch_select_view [OF assms] assms(2) by (auto simp: watch_select_ops)
qed

theorem watch_select_spec_witness:
  "\<exists>ri' ring'. watch_select demo_pf demo_codec
       [NodeMsg (WatchResp [\<lparr>we_type = EvPut, we_kv = Some (str_bytes ''/cmx/nodes/n1'', [])\<rparr>]), BlockMsg WatchEnd,
        NodeMsg (WatchResp [\<lparr>we_type = EvDelete, we_kv = Some (str_bytes ''/cmx/nodes/n1'', [])\<rparr>])]
       (remote_new, Some (ring_new 2)) = (False, ri', ring') \<and> map_option hr_nodes ring' = Some [''n1'']"
proof -
  let ?ms = "[NodeMsg (WatchResp [\<lparr>we_type = EvPut, we_kv = Some (str_bytes ''/cmx/nodes/n1'', [])\<rparr>]), BlockMsg WatchEnd,
        NodeMsg (WatchResp [\<lparr>we_type = EvDelete, we_kv = Some (str_bytes ''/cmx/nodes/n1'', [])\<rparr>])]"
  have inv: "remote_inv remote_new" using remote.new_ok by simp
  obtain b ri' ring' where w: "watch_select demo_pf demo_codec ?ms (remote_new, Some (ring_new 2)) = (b, ri', ring')"
    by (metis prod_cases3)
  have "watched_node (str_bytes ''/cmx/nodes/n1'') = ''n1''" by code_simp
  moreover have "b = still_running ?ms" "map_option hr_nodes ring' = Some (members_after [] (watch_changes ?ms))"
    using watch_select_spec [OF inv w, of 2] by blast+
  ultimately show ?thesis using w by (auto simp: still_running_def)
qed

text \<open>A node that has left is not offered any more: once the watch task has seen the deletion of a
  node, no lookup in the remote index returns a block of that node, however the later events are
  interleaved, until a put event names that node as the holder again. The node is also out of the
  hash ring until it joins again.\<close>

lemma departed_node_purged:
  assumes "remote_inv ri" and "watched_node key = n"
    and "watch_select pf cd (NodeMsg (WatchResp [\<lparr>we_type = EvDelete, we_kv = Some (key, val)\<rparr>]) # ms) (ri, Some R) =
      (running, ri', Some R')"
    and "\<forall>k e. PutBlock k e \<in> set (watch_ops pf cd ms) \<longrightarrow> rb_node_id e \<noteq> n"
    and "Join n \<notin> set (watch_changes ms)"
  shows "(\<forall>k es. remote_lookup k ri' = Some es \<longrightarrow> n \<notin> rb_node_id ` set es) \<and> n \<notin> set (hr_nodes R')"
proof -
  let ?ms = "NodeMsg (WatchResp [\<lparr>we_type = EvDelete, we_kv = Some (key, val)\<rparr>]) # ms"
  note v = watch_select_view [OF assms(1,3)]
  have "remote_view ri' k n = None" for k
    using remote_spec_no_node [OF assms(4), of "remote_spec (DropNode n) (remote_view ri)"] v(2) assms(2) by simp
  then have "n \<notin> rb_node_id ` set es" if "remote_lookup k ri' = Some es" for k es
    using remote_view_no_node [OF v(1) _ that] by blast
  moreover have "n \<notin> set (members_after ns es)" if "n \<notin> set ns" "Join n \<notin> set es" for ns es
    using that by (induction ns es rule: members_after.induct) auto
  moreover have "hr_nodes R' = members_after (hr_nodes R) (watch_changes ?ms)"
    using assms(3) ring.run_nodes [of pf "watch_changes ?ms" R] by (auto simp: watch_select_ops)
  ultimately show ?thesis using assms(2,5) by simp
qed

text \<open>The lease is renewed at an interval of at least one second and, for a lease of three seconds or
  more, at least three times within its lifetime; the keepalive task goes on exactly as long as every
  request succeeds and every answer carries a non-zero lifetime.\<close>

lemma keepalive_spec:
  "1 \<le> uint (keepalive_interval (sint (ttl :: u64))) \<and>
   (3 \<le> sint ttl \<longrightarrow> 3 * uint (keepalive_interval (sint ttl)) \<le> sint ttl) \<and>
   (keepalive_loop rounds = None \<longleftrightarrow> (\<forall>(ok, msg) \<in> set rounds. ok \<and> (\<exists>t. msg = KaResp t \<and> t \<noteq> 0)))"
proof -
  have lt: "sint ttl < 2 ^ 63" using sint_less [of ttl] by simp
  have u: "uint (keepalive_interval t) = max (sgn t * (\<bar>t\<bar> div 3)) 1" if "t < 2 ^ 63" for t :: int
  proof -
    have "sgn t * (\<bar>t\<bar> div 3) < 2 ^ 64" using that by (cases "0 \<le> t") (auto simp: sgn_if)
    then show ?thesis by (simp add: keepalive_interval_def unsigned_of_int take_bit_int_eq_self)
  qed
  have loop: "keepalive_loop rounds = None \<longleftrightarrow> (\<forall>(ok, msg) \<in> set rounds. ok \<and> (\<exists>t. msg = KaResp t \<and> t \<noteq> 0))"
    by (induction rounds rule: keepalive_loop.induct) (auto split: keepalive_msg.split if_splits)
  have "3 * (max (sgn (sint ttl) * (\<bar>sint ttl\<bar> div 3)) 1) \<le> sint ttl" if "3 \<le> sint ttl"
    using that by (auto simp: max_def)
  then show ?thesis using u [OF lt] loop by simp
qed

end
