(* ===== verification/Transport.thy ===== *)
theory Transport
  imports CmxPrelude
begin

text \<open>
  The transport crate: the types of \<^verbatim>\<open>crates/cmx-transport/src/traits.rs\<close>, its two implementations
  (\<^verbatim>\<open>mock.rs\<close>, \<^verbatim>\<open>nixl.rs\<close>) and the connection pool of \<^verbatim>\<open>pool.rs\<close>.

  A \<open>LocalBuffer\<close> is modelled by the bytes its pointer refers to; a copy beyond them, which the
  safety comments exclude, is the fault \<open>OutOfRegion\<close>. \<open>transport_type\<close> uses \<open>try_read\<close>, which
  fails while somebody holds the lock for writing; the extra argument says whether the lock is
  free. Error messages are kept as far as they carry data (the peer, the address).

  The pool is generic in the transport, so its definitions take the transport's operations as
  arguments. The locale \<open>transport\<close> holds what the trait promises about connections; \<open>mock\<close> and \<open>nixl\<close>
  show that both implementations keep it, and the facts about the pool are proved from it. The
  locale \<open>memory_transport\<close> adds what one-sided reads and writes promise, which only the mock
  implements: the NIXL one does not transfer anything yet.
\<close>

section \<open>Types of the trait\<close>

type_synonym peer_id = string

record remote_memory_region =
  rm_peer :: peer_id
  rm_addr :: u64
  rm_size :: u64
  rm_rkey :: u32

record local_buffer =
  lb_bytes :: bytes
  lb_size :: usize
  lb_lkey :: u32

datatype transport_error =
    ConnectionFailed string string
  | TransferFailed u64 peer_id
  | PeerNotFound peer_id
  | Timeout u64
  | NotAvailable string

datatype transport_type = InfiniBand | RoCEv2 | Tcp | Mock

definition show_transport_type :: "transport_type \<Rightarrow> string" where
  "show_transport_type t =
     (case t of InfiniBand \<Rightarrow> ''InfiniBand'' | RoCEv2 \<Rightarrow> ''RoCE v2'' | Tcp \<Rightarrow> ''TCP'' | Mock \<Rightarrow> ''Mock'')"

section \<open>Mock transport\<close>

record mock_transport =
  mt_connections :: "(peer_id, unit) hmap"
  mt_remote_memory :: "(peer_id \<times> u64, bytes) hmap"
  mt_next_lkey :: u32

definition mock_new :: mock_transport where
  "mock_new = \<lparr>mt_connections = fmempty, mt_remote_memory = fmempty, mt_next_lkey = 1\<rparr>"

definition insert_remote_memory :: "peer_id \<Rightarrow> u64 \<Rightarrow> bytes \<Rightarrow> mock_transport \<Rightarrow> mock_transport" where
  "insert_remote_memory peer addr data t =
     t\<lparr>mt_remote_memory := fmupd (peer, addr) data (mt_remote_memory t)\<rparr>"

definition mock_connect :: "peer_id \<Rightarrow> string \<Rightarrow> mock_transport \<Rightarrow> (transport_error + transport_type) \<times> mock_transport" where
  "mock_connect peer addr t = (Inr Mock, t\<lparr>mt_connections := fmupd peer () (mt_connections t)\<rparr>)"

definition mock_disconnect :: "peer_id \<Rightarrow> mock_transport \<Rightarrow> (transport_error + unit) \<times> mock_transport" where
  "mock_disconnect peer t =
     (if fmlookup (mt_connections t) peer = None then (Inl (PeerNotFound peer), t)
      else (Inr (), t\<lparr>mt_connections := fmdrop peer (mt_connections t)\<rparr>))"

text \<open>A read returns the number of bytes and the new contents of the buffer.\<close>

definition mock_read ::
    "remote_memory_region \<Rightarrow> local_buffer \<Rightarrow> mock_transport \<Rightarrow> (transport_error + usize \<times> local_buffer) res" where
  "mock_read remote local t =
     (if fmlookup (mt_connections t) (rm_peer remote) = None then Inr (Inl (PeerNotFound (rm_peer remote)))
      else case fmlookup (mt_remote_memory t) (rm_peer remote, rm_addr remote) of
        None \<Rightarrow> Inr (Inl (TransferFailed (rm_addr remote) (rm_peer remote)))
      | Some data \<Rightarrow>
          let n = min (min (lb_size local) (length data)) (unat (rm_size remote)) in
          if length (lb_bytes local) < n then Inl OutOfRegion
          else Inr (Inr (n, local\<lparr>lb_bytes := take n data @ drop n (lb_bytes local)\<rparr>)))"

definition mock_write ::
    "local_buffer \<Rightarrow> remote_memory_region \<Rightarrow> mock_transport \<Rightarrow> ((transport_error + usize) \<times> mock_transport) res" where
  "mock_write local remote t =
     (if fmlookup (mt_connections t) (rm_peer remote) = None then Inr (Inl (PeerNotFound (rm_peer remote)), t)
      else
        let n = min (lb_size local) (unat (rm_size remote)) in
        if length (lb_bytes local) < n then Inl OutOfRegion
        else Inr (Inr n, t\<lparr>mt_remote_memory :=
               fmupd (rm_peer remote, rm_addr remote) (take n (lb_bytes local)) (mt_remote_memory t)\<rparr>))"

definition mock_register_memory :: "mock_transport \<Rightarrow> (transport_error + u32) \<times> mock_transport" where
  "mock_register_memory t = (Inr (mt_next_lkey t), t\<lparr>mt_next_lkey := mt_next_lkey t + 1\<rparr>)"

definition mock_deregister_memory :: "u32 \<Rightarrow> mock_transport \<Rightarrow> (transport_error + unit) \<times> mock_transport" where
  "mock_deregister_memory lkey t = (Inr (), t)"

definition mock_transport_type :: "bool \<Rightarrow> peer_id \<Rightarrow> mock_transport \<Rightarrow> transport_type option" where
  "mock_transport_type lock_free peer t =
     (if \<not> lock_free then None
      else if fmlookup (mt_connections t) peer \<noteq> None then Some Mock else None)"

section \<open>NIXL transport\<close>

record nixl_connection =
  nc_transport_type :: transport_type
  nc_addr :: string

record nixl_transport =
  nx_connections :: "(peer_id, nixl_connection) hmap"

text \<open>Without the \<open>nixl\<close> feature the constructor only returns an error.\<close>

definition nixl_new :: "bool \<Rightarrow> string + nixl_transport" where
  "nixl_new feature =
     (if feature then Inr \<lparr>nx_connections = fmempty\<rparr>
      else Inl ''NIXL transport not available. Build with --features nixl or use MockTransport.'')"

definition nixl_connect :: "peer_id \<Rightarrow> string \<Rightarrow> nixl_transport \<Rightarrow> (transport_error + transport_type) \<times> nixl_transport" where
  "nixl_connect peer addr t =
     (let tt = RoCEv2 in
      (Inr tt, t\<lparr>nx_connections := fmupd peer \<lparr>nc_transport_type = tt, nc_addr = addr\<rparr> (nx_connections t)\<rparr>))"

definition nixl_disconnect :: "peer_id \<Rightarrow> nixl_transport \<Rightarrow> (transport_error + unit) \<times> nixl_transport" where
  "nixl_disconnect peer t =
     (case fmlookup (nx_connections t) peer of
        None \<Rightarrow> (Inl (PeerNotFound peer), t)
      | Some _ \<Rightarrow> (Inr (), t\<lparr>nx_connections := fmdrop peer (nx_connections t)\<rparr>))"

definition nixl_read ::
    "remote_memory_region \<Rightarrow> local_buffer \<Rightarrow> nixl_transport \<Rightarrow> (transport_error + usize \<times> local_buffer) res" where
  "nixl_read remote local t =
     (if fmlookup (nx_connections t) (rm_peer remote) = None then Inr (Inl (PeerNotFound (rm_peer remote)))
      else Inr (Inr (unat (rm_size remote), local)))"

definition nixl_write ::
    "local_buffer \<Rightarrow> remote_memory_region \<Rightarrow> nixl_transport \<Rightarrow> ((transport_error + usize) \<times> nixl_transport) res" where
  "nixl_write local remote t =
     (if fmlookup (nx_connections t) (rm_peer remote) = None then Inr (Inl (PeerNotFound (rm_peer remote)), t)
      else Inr (Inr (unat (rm_size remote)), t))"

definition nixl_register_memory :: "nixl_transport \<Rightarrow> (transport_error + u32) \<times> nixl_transport" where
  "nixl_register_memory t = (Inr 0, t)"

definition nixl_deregister_memory :: "u32 \<Rightarrow> nixl_transport \<Rightarrow> (transport_error + unit) \<times> nixl_transport" where
  "nixl_deregister_memory lkey t = (Inr (), t)"

definition nixl_transport_type :: "bool \<Rightarrow> peer_id \<Rightarrow> nixl_transport \<Rightarrow> transport_type option" where
  "nixl_transport_type lock_free peer t =
     (if \<not> lock_free then None else map_option nc_transport_type (fmlookup (nx_connections t) peer))"

section \<open>Connection pool\<close>

record connection_state =
  cn_transport_type :: transport_type
  cn_addr :: string
  cn_connected_at :: nat

record 't connection_pool =
  cp_transport :: 't
  cp_connections :: "(peer_id, connection_state) hmap"

definition conn_pool_new :: "'t \<Rightarrow> 't connection_pool" where
  "conn_pool_new transport = \<lparr>cp_transport = transport, cp_connections = fmempty\<rparr>"

definition get_or_connect ::
    "(peer_id \<Rightarrow> string \<Rightarrow> 't \<Rightarrow> (transport_error + transport_type) \<times> 't) \<Rightarrow> nat \<Rightarrow> peer_id \<Rightarrow> string \<Rightarrow>
     't connection_pool \<Rightarrow> (transport_error + transport_type) \<times> 't connection_pool" where
  "get_or_connect connect now peer addr p =
     (case fmlookup (cp_connections p) peer of
        Some entry \<Rightarrow> (Inr (cn_transport_type entry), p)
      | None \<Rightarrow>
          (case connect peer addr (cp_transport p) of
             (Inl err, t) \<Rightarrow> (Inl err, p\<lparr>cp_transport := t\<rparr>)
           | (Inr tt, t) \<Rightarrow>
               (Inr tt, p\<lparr>cp_transport := t, cp_connections :=
                  fmupd peer \<lparr>cn_transport_type = tt, cn_addr = addr, cn_connected_at = now\<rparr> (cp_connections p)\<rparr>)))"

definition conn_disconnect ::
    "(peer_id \<Rightarrow> 't \<Rightarrow> (transport_error + unit) \<times> 't) \<Rightarrow> peer_id \<Rightarrow> 't connection_pool \<Rightarrow>
     (transport_error + unit) \<times> 't connection_pool" where
  "conn_disconnect disconnect peer p =
     (let p1 = p\<lparr>cp_connections := fmdrop peer (cp_connections p)\<rparr>
      in (case disconnect peer (cp_transport p1) of (r, t) \<Rightarrow> (r, p1\<lparr>cp_transport := t\<rparr>)))"

definition connected_peers :: "'t connection_pool \<Rightarrow> peer_id fset" where
  "connected_peers p = fmdom (cp_connections p)"

text \<open>
  One tick of the health check: \<open>peers\<close> is the snapshot of the cached peers in the order the map
  yields them, \<open>lock_free\<close> says for which of them the transport's lock could be taken.
\<close>

definition health_check_tick ::
    "(bool \<Rightarrow> peer_id \<Rightarrow> 't \<Rightarrow> transport_type option) \<Rightarrow> (peer_id \<Rightarrow> bool) \<Rightarrow> peer_id list \<Rightarrow>
     't connection_pool \<Rightarrow> 't connection_pool" where
  "health_check_tick ttype lock_free peers p =
     fold (\<lambda>peer q. if ttype (lock_free peer) peer (cp_transport q) = None
                    then q\<lparr>cp_connections := fmdrop peer (cp_connections q)\<rparr> else q) peers p"

section \<open>Contracts\<close>

text \<open>A pool agrees with its transport if every cached connection is live, with the cached type.\<close>

definition pool_coherent :: "('t \<Rightarrow> peer_id \<Rightarrow> transport_type option) \<Rightarrow> 't connection_pool \<Rightarrow> bool" where
  "pool_coherent live p \<longleftrightarrow>
     (\<forall>peer e. fmlookup (cp_connections p) peer = Some e \<longrightarrow> live (cp_transport p) peer = Some (cn_transport_type e))"

datatype pool_op = GetConn nat peer_id string | Disconn peer_id | HealthTick "peer_id \<Rightarrow> bool" "peer_id list"

fun pool_op_run ::
    "(peer_id \<Rightarrow> string \<Rightarrow> 't \<Rightarrow> (transport_error + transport_type) \<times> 't) \<Rightarrow>
     (peer_id \<Rightarrow> 't \<Rightarrow> (transport_error + unit) \<times> 't) \<Rightarrow> (bool \<Rightarrow> peer_id \<Rightarrow> 't \<Rightarrow> transport_type option) \<Rightarrow>
     pool_op \<Rightarrow> 't connection_pool \<Rightarrow> 't connection_pool" where
  "pool_op_run con dis tty (GetConn now peer addr) p = snd (get_or_connect con now peer addr p)"
| "pool_op_run con dis tty (Disconn peer) p = snd (conn_disconnect dis peer p)"
| "pool_op_run con dis tty (HealthTick free peers) p = health_check_tick tty free peers p"

text \<open>What the two calls of a pool achieve for one peer.\<close>

definition pool_serves ::
    "(peer_id \<Rightarrow> string \<Rightarrow> 't \<Rightarrow> (transport_error + transport_type) \<times> 't) \<Rightarrow>
     (peer_id \<Rightarrow> 't \<Rightarrow> (transport_error + unit) \<times> 't) \<Rightarrow> ('t \<Rightarrow> peer_id \<Rightarrow> transport_type option) \<Rightarrow>
     nat \<Rightarrow> peer_id \<Rightarrow> string \<Rightarrow> 't connection_pool \<Rightarrow> bool" where
  "pool_serves con dis live now peer addr p \<longleftrightarrow>
     (case get_or_connect con now peer addr p of
        (r, q) \<Rightarrow> \<exists>ty. r = Inr ty \<and> live (cp_transport q) peer = Some ty \<and>
          map_option cn_transport_type (fmlookup (cp_connections q) peer) = Some ty) \<and>
     (case conn_disconnect dis peer p of
        (r, q) \<Rightarrow> r = (if live (cp_transport p) peer = None then Inl (PeerNotFound peer) else Inr ()) \<and>
          live (cp_transport q) peer = None \<and> fmlookup (cp_connections q) peer = None)"

locale transport =
  fixes con :: "peer_id \<Rightarrow> string \<Rightarrow> 't \<Rightarrow> (transport_error + transport_type) \<times> 't"
    and dis :: "peer_id \<Rightarrow> 't \<Rightarrow> (transport_error + unit) \<times> 't"
    and tty :: "bool \<Rightarrow> peer_id \<Rightarrow> 't \<Rightarrow> transport_type option"
    and live :: "'t \<Rightarrow> peer_id \<Rightarrow> transport_type option"
  assumes con_Inr: "con p a t = (Inr ty, t') \<Longrightarrow> live t' = (live t)(p \<mapsto> ty)"
    and con_Inl: "con p a t = (Inl err, t') \<Longrightarrow> live t' = live t"
    and dis_live: "dis p t = (r, t') \<Longrightarrow> live t' = (live t)(p := None)"
    and dis_result: "fst (dis p t) = (if live t p = None then Inl (PeerNotFound p) else Inr ())"
    and tty_free: "tty True p t = live t p"
    and tty_locked: "tty False p t = None"
begin

lemma get_coherent:
  assumes "pool_coherent live p" and "get_or_connect con now peer addr p = (r, p')"
  shows "pool_coherent live p'"
    and "r = Inr ty \<Longrightarrow> live (cp_transport p') peer = Some ty \<and> peer |\<in>| connected_peers p'"
proof -
  show "pool_coherent live p'"
    using assms con_Inr con_Inl
    by (fastforce simp: get_or_connect_def pool_coherent_def split: option.splits prod.splits sum.splits)
  show "live (cp_transport p') peer = Some ty \<and> peer |\<in>| connected_peers p'" if "r = Inr ty"
    using assms that con_Inr
    by (fastforce simp: get_or_connect_def pool_coherent_def connected_peers_def fmlookup_dom_iff
        split: option.splits prod.splits sum.splits)
qed

lemma disconnect_coherent:
  assumes "pool_coherent live p" and "conn_disconnect dis peer p = (r, p')"
  shows "pool_coherent live p'" and "peer |\<notin>| connected_peers p' \<and> live (cp_transport p') peer = None"
  using assms dis_live
  by (fastforce simp: conn_disconnect_def pool_coherent_def connected_peers_def Let_def split: prod.splits)+

lemma tick_lookup:
  "cp_transport (health_check_tick tty free peers p) = cp_transport p \<and>
   fmlookup (cp_connections (health_check_tick tty free peers p)) x =
     (if x \<in> set peers \<and> (\<not> free x \<or> live (cp_transport p) x = None) then None else fmlookup (cp_connections p) x)"
proof (induction peers arbitrary: p)
  case (Cons y ys)
  have "tty (free y) y t = None \<longleftrightarrow> \<not> free y \<or> live t y = None" for t
    by (cases "free y") (simp_all add: tty_free tty_locked)
  then show ?case using Cons by (auto simp: health_check_tick_def)
qed (simp add: health_check_tick_def)

lemma tick_coherent: "pool_coherent live p \<Longrightarrow> pool_coherent live (health_check_tick tty free peers p)"
  by (auto simp: pool_coherent_def tick_lookup split: if_splits)

lemma run_coherent: "pool_coherent live p \<Longrightarrow> pool_coherent live (fold (pool_op_run con dis tty) ops p)"
proof (induction ops arbitrary: p)
  case (Cons x ops)
  have "pool_coherent live (pool_op_run con dis tty x p)"
    by (cases x) (simp_all add: tick_coherent [OF Cons.prems]
        get_coherent(1) [OF Cons.prems surjective_pairing] disconnect_coherent(1) [OF Cons.prems surjective_pairing])
  then show ?case using Cons.IH by simp
qed simp

lemma coherent_serves:
  assumes "pool_coherent live p" and "\<And>q a t. \<exists>ty t'. con q a t = (Inr ty, t')"
  shows "pool_serves con dis live now peer addr p"
proof -
  obtain ty t' where c: "con peer addr (cp_transport p) = (Inr ty, t')" using assms(2) by blast
  obtain r t'' where d: "dis peer (cp_transport p) = (r, t'')" by force
  have "live t' peer = Some ty" "live t'' peer = None"
      "r = (if live (cp_transport p) peer = None then Inl (PeerNotFound peer) else Inr ())"
    using con_Inr [OF c] dis_live [OF d] dis_result [of peer "cp_transport p"] d by simp_all
  then show ?thesis
    using assms(1) c d
    by (auto simp: pool_serves_def get_or_connect_def conn_disconnect_def pool_coherent_def Let_def split: option.split)
qed

lemma new_coherent: "pool_coherent live (conn_pool_new t)"
  by (simp add: pool_coherent_def conn_pool_new_def)

end

locale memory_transport = transport con dis tty live
  for con :: "peer_id \<Rightarrow> string \<Rightarrow> 't \<Rightarrow> (transport_error + transport_type) \<times> 't"
    and dis and tty and live +
  fixes rd :: "remote_memory_region \<Rightarrow> local_buffer \<Rightarrow> 't \<Rightarrow> (transport_error + usize \<times> local_buffer) res"
    and wr :: "local_buffer \<Rightarrow> remote_memory_region \<Rightarrow> 't \<Rightarrow> ((transport_error + usize) \<times> 't) res"
  assumes wr_rd: "live t (rm_peer r) \<noteq> None \<Longrightarrow> length (lb_bytes src) = lb_size src \<Longrightarrow> length (lb_bytes dst) = lb_size dst \<Longrightarrow>
      lb_size src \<le> lb_size dst \<Longrightarrow> lb_size src \<le> unat (rm_size r) \<Longrightarrow>
      \<exists>t'. wr src r t = Inr (Inr (lb_size src), t') \<and> live t' = live t \<and>
        rd r dst t' = Inr (Inr (lb_size src, dst\<lparr>lb_bytes := lb_bytes src @ drop (lb_size src) (lb_bytes dst)\<rparr>))"
begin

lemma transfer:
  assumes "live t (rm_peer r) \<noteq> None" and "length (lb_bytes src) = lb_size src" and "length (lb_bytes dst) = lb_size dst"
    and "lb_size src = lb_size dst" and "lb_size src \<le> unat (rm_size r)"
  shows "\<exists>t' dst'. wr src r t = Inr (Inr (lb_size src), t') \<and> rd r dst t' = Inr (Inr (lb_size src, dst')) \<and>
    lb_bytes dst' = lb_bytes src"
  using wr_rd [of t r src dst] assms by auto

end

section \<open>The implementations\<close>

definition mock_live :: "mock_transport \<Rightarrow> peer_id \<Rightarrow> transport_type option" where
  "mock_live t p = map_option (\<lambda>_. Mock) (fmlookup (mt_connections t) p)"

definition nixl_live :: "nixl_transport \<Rightarrow> peer_id \<Rightarrow> transport_type option" where
  "nixl_live t p = map_option nc_transport_type (fmlookup (nx_connections t) p)"

lemma unit_option_None: "x \<noteq> Some () \<Longrightarrow> x = None"
  by (cases x) simp_all

interpretation mock: memory_transport mock_connect mock_disconnect mock_transport_type mock_live mock_read mock_write
proof unfold_locales
  fix t :: mock_transport and r :: remote_memory_region and src dst :: local_buffer
  assume "mock_live t (rm_peer r) \<noteq> None" and "length (lb_bytes src) = lb_size src"
    and "length (lb_bytes dst) = lb_size dst" and "lb_size src \<le> lb_size dst" and "lb_size src \<le> unat (rm_size r)"
  then show "\<exists>t'. mock_write src r t = Inr (Inr (lb_size src), t') \<and> mock_live t' = mock_live t \<and>
      mock_read r dst t' =
        Inr (Inr (lb_size src, dst\<lparr>lb_bytes := lb_bytes src @ drop (lb_size src) (lb_bytes dst)\<rparr>))"
    by (simp add: mock_live_def mock_write_def mock_read_def Let_def min_def fun_eq_iff)
qed (auto simp: mock_connect_def mock_disconnect_def mock_transport_type_def mock_live_def fun_eq_iff
    split: if_splits dest: unit_option_None)

interpretation nixl: transport nixl_connect nixl_disconnect nixl_transport_type nixl_live
  by unfold_locales
    (auto simp: nixl_connect_def nixl_disconnect_def nixl_transport_type_def nixl_live_def fun_eq_iff Let_def
      split: option.splits)

section \<open>Properties\<close>

text \<open>RDMA round trip of the mock transport: writing a buffer to a connected peer's region that is large
  enough and reading it back into a buffer of the same size transfers all bytes, whatever the region
  and the target held before. A region smaller than the buffer truncates both transfers to its size,
  and without a connection both fail with \<open>PeerNotFound\<close> and change nothing.\<close>

lemma mock_write_read:
  assumes "length (lb_bytes src) = lb_size src" and "length (lb_bytes dst) = lb_size dst"
    and "lb_size src = lb_size dst"
  shows "(if rm_peer r |\<in>| fmdom (mt_connections t)
    then \<exists>t' dst' n. mock_write src r t = Inr (Inr n, t') \<and> n = min (lb_size src) (unat (rm_size r)) \<and>
      mock_read r dst t' = Inr (Inr (n, dst')) \<and>
      lb_bytes dst' = take n (lb_bytes src) @ drop n (lb_bytes dst) \<and>
      (lb_size src \<le> unat (rm_size r) \<longrightarrow> lb_bytes dst' = lb_bytes src)
    else mock_write src r t = Inr (Inl (PeerNotFound (rm_peer r)), t) \<and>
      mock_read r dst t = Inr (Inl (PeerNotFound (rm_peer r))))"
proof (cases "rm_peer r |\<in>| fmdom (mt_connections t)")
  case True
  define n where "n = min (lb_size src) (unat (rm_size r))"
  have conn: "fmlookup (mt_connections t) (rm_peer r) \<noteq> None" using True by (auto simp: fmlookup_dom_iff)
  obtain t' where t': "mock_write src r t = Inr (Inr n, t')" "mt_connections t' = mt_connections t"
      "fmlookup (mt_remote_memory t') (rm_peer r, rm_addr r) = Some (take n (lb_bytes src))"
    using assms conn by (simp add: mock_write_def Let_def n_def)
  have "mock_read r dst t' = Inr (Inr (n, dst\<lparr>lb_bytes := take n (lb_bytes src) @ drop n (lb_bytes dst)\<rparr>))"
    using assms conn t' by (simp add: mock_read_def Let_def n_def min_def)
  moreover have "take n (lb_bytes src) @ drop n (lb_bytes dst) = lb_bytes src" if "lb_size src \<le> unat (rm_size r)"
    using that assms by (simp add: n_def min_def)
  ultimately show ?thesis using t'(1) True by (auto simp: n_def)
qed (simp add: mock_write_def mock_read_def fmlookup_dom_iff)

text \<open>C38: The connection pool never lies about a connection. Over any sequence of \<open>get_or_connect\<close>,
  \<open>disconnect\<close> and health-check ticks on a new pool, over the mock transport as well as over NIXL, every cached connection is live
  in the transport with the cached type. A further \<open>get_or_connect\<close> succeeds and leaves the peer connected and cached
  with the type it returns, and a further \<open>disconnect\<close> leaves it neither cached nor connected; it reports an error exactly
  if the peer was not connected.\<close>

theorem connection_pool_coherent:
  "pool_coherent mock_live (fold (pool_op_run mock_connect mock_disconnect mock_transport_type) ops (conn_pool_new mt)) \<and>
   pool_coherent nixl_live (fold (pool_op_run nixl_connect nixl_disconnect nixl_transport_type) ops (conn_pool_new nt)) \<and>
   pool_serves mock_connect mock_disconnect mock_live now peer addr
     (fold (pool_op_run mock_connect mock_disconnect mock_transport_type) ops (conn_pool_new mt)) \<and>
   pool_serves nixl_connect nixl_disconnect nixl_live now peer addr
     (fold (pool_op_run nixl_connect nixl_disconnect nixl_transport_type) ops (conn_pool_new nt))"
proof -
  have "\<exists>ty t'. mock_connect p a t = (Inr ty, t')" for p a t by (simp add: mock_connect_def)
  moreover have "\<exists>ty t'. nixl_connect p a t = (Inr ty, t')" for p a t by (simp add: nixl_connect_def Let_def)
  ultimately show ?thesis
    using mock.run_coherent [OF mock.new_coherent] nixl.run_coherent [OF nixl.new_coherent]
      mock.coherent_serves nixl.coherent_serves by blast
qed

text \<open>The health check removes every cached connection that the transport has lost, and keeps the live
  ones whose lookup got the lock. A live connection whose lookup finds the transport's lock taken is
  removed too, although it is not stale.\<close>

lemma health_check_removes:
  "fmlookup (cp_connections (health_check_tick mock_transport_type free peers p)) x =
     (if x \<in> set peers \<and> (\<not> free x \<or> mock_live (cp_transport p) x = None) then None
      else fmlookup (cp_connections p) x) \<and>
   (set peers = fset (connected_peers p) \<longrightarrow>
      fset (connected_peers (health_check_tick mock_transport_type free peers p)) =
        {x \<in> fset (connected_peers p). free x \<and> mock_live (cp_transport p) x \<noteq> None})"
  by (auto simp: connected_peers_def mock.tick_lookup fmlookup_dom_iff split: if_splits)

text \<open>The NIXL transport keeps the connection contract but not the memory contract of the trait: its reads
  report success without filling the buffer, so it is not a \<open>memory_transport\<close>.\<close>

lemma nixl_not_memory_transport:
  "\<not> memory_transport nixl_connect nixl_disconnect nixl_transport_type nixl_live nixl_read nixl_write"
proof
  assume mt: "memory_transport nixl_connect nixl_disconnect nixl_transport_type nixl_live nixl_read nixl_write"
  define t where "t = snd (nixl_connect ''p'' [] \<lparr>nx_connections = fmempty\<rparr>)"
  define r where "r = \<lparr>rm_peer = ''p'', rm_addr = 0, rm_size = 1, rm_rkey = 0\<rparr>"
  have live: "nixl_live t (rm_peer r) \<noteq> None" by (simp add: t_def r_def nixl_live_def nixl_connect_def Let_def)
  obtain dst' where "nixl_read r \<lparr>lb_bytes = [0], lb_size = 1, lb_lkey = 0\<rparr> t = Inr (Inr (1, dst'))" "lb_bytes dst' = [7]"
    using memory_transport.transfer [OF mt live, of "\<lparr>lb_bytes = [7], lb_size = 1, lb_lkey = 0\<rparr>"
        "\<lparr>lb_bytes = [0], lb_size = 1, lb_lkey = 0\<rparr>"] live
    by (auto simp: r_def nixl_write_def nixl_live_def)
  then show False using live by (auto simp: nixl_read_def nixl_live_def)
qed

end
