(* ===== verification/HostMemory.thy ===== *)
theory HostMemory
  imports RustStd
begin

text \<open>
  Placement of the pool on the host: \<^verbatim>\<open>crates/cmx-memory/src/numa.rs\<close> and
  \<^verbatim>\<open>crates/cmx-memory/src/gpu.rs\<close>. Every function has a variant for builds with the feature and a stub
  for builds without it; the feature is the first argument. The system calls and \<open>cudaHostRegister\<close> are
  parameters: what they return, and for \<open>mbind\<close> and \<open>cudaHostRegister\<close> also what they are
  called with, since that is what the code computes. Log lines and the wording of errors are not modelled.
\<close>

section \<open>Standard library: trimming and parsing\<close>

text \<open>The characters with the Unicode property \<open>White_Space\<close>, in UTF-8.\<close>

definition white_space :: "string list" where
  "white_space =
     [[CHR 0x09], [CHR 0x0A], [CHR 0x0B], [CHR 0x0C], [CHR 0x0D], [CHR 0x20],
      [CHR 0xC2, CHR 0x85], [CHR 0xC2, CHR 0xA0], [CHR 0xE1, CHR 0x9A, CHR 0x80],
      [CHR 0xE2, CHR 0x80, CHR 0x80], [CHR 0xE2, CHR 0x80, CHR 0x81], [CHR 0xE2, CHR 0x80, CHR 0x82],
      [CHR 0xE2, CHR 0x80, CHR 0x83], [CHR 0xE2, CHR 0x80, CHR 0x84], [CHR 0xE2, CHR 0x80, CHR 0x85],
      [CHR 0xE2, CHR 0x80, CHR 0x86], [CHR 0xE2, CHR 0x80, CHR 0x87], [CHR 0xE2, CHR 0x80, CHR 0x88],
      [CHR 0xE2, CHR 0x80, CHR 0x89], [CHR 0xE2, CHR 0x80, CHR 0x8A], [CHR 0xE2, CHR 0x80, CHR 0xA8],
      [CHR 0xE2, CHR 0x80, CHR 0xA9], [CHR 0xE2, CHR 0x80, CHR 0xAF], [CHR 0xE2, CHR 0x81, CHR 0x9F],
      [CHR 0xE3, CHR 0x80, CHR 0x80]]"

function strip_any :: "string list \<Rightarrow> string \<Rightarrow> string" where
  "strip_any pats s =
     (case find (\<lambda>p. p \<noteq> [] \<and> take (length p) s = p) pats of
        None \<Rightarrow> s
      | Some p \<Rightarrow> strip_any pats (drop (length p) s))"
  by pat_completeness auto
termination
proof (relation "measure (\<lambda>(pats, s). length s)")
  fix pats s p
  assume "find (\<lambda>p. p \<noteq> [] \<and> take (length p) s = p) pats = Some p"
  then have "p \<noteq> []" "take (length p) s = p" by (auto simp: find_Some_iff)
  then have "s \<noteq> []" by auto
  then show "((pats, drop (length p) s), pats, s) \<in> measure (\<lambda>(pats, s). length s)" using \<open>p \<noteq> []\<close> by simp
qed simp

declare strip_any.simps [simp del]

definition trim :: "string \<Rightarrow> string" where
  "trim s = rev (strip_any (map rev white_space) (rev (strip_any white_space s)))"

text \<open>\<open>parse::<i32>()\<close>: an optional sign and at least one decimal digit, in range.\<close>

definition parse_i32 :: "string \<Rightarrow> int option" where
  "parse_i32 s =
     (let (neg, ds) = (case s of CHR ''-'' # r \<Rightarrow> (True, r) | CHR ''+'' # r \<Rightarrow> (False, r) | _ \<Rightarrow> (False, s));
          v = (if neg then - int (digits_value 10 ds) else int (digits_value 10 ds))
      in if ds \<noteq> [] \<and> list_all (is_digit 10) ds \<and> - (2 ^ 31) \<le> v \<and> v < 2 ^ 31 then Some v else None)"

section \<open>NUMA\<close>

text \<open>\<open>getcpu\<close>: the return code and what it has written into the two variables.\<close>

definition numa_node_of_cpu :: "bool \<Rightarrow> int \<times> u32 \<times> u32 \<Rightarrow> u32 \<Rightarrow> u32" where
  "numa_node_of_cpu numa getcpu cpu =
     (if numa then (case getcpu of (ret, cpu_id, node_id) \<Rightarrow> if ret = 0 \<and> cpu_id = cpu then node_id else 0)
      else 0)"

text \<open>
  The directory of InfiniBand devices: \<open>None\<close> if it cannot be read, else the content of \<open>device/numa_node\<close>
  for every entry that can be read, \<open>None\<close> where that file cannot.
\<close>

fun first_numa_node :: "string option list \<Rightarrow> u32" where
  "first_numa_node [] = 0"
| "first_numa_node (f # fs) =
     (case Option.bind f (\<lambda>content. parse_i32 (trim content)) of
        Some node \<Rightarrow> (if node \<ge> 0 then of_int node else first_numa_node fs)
      | None \<Rightarrow> first_numa_node fs)"

definition preferred_numa_node :: "bool \<Rightarrow> string option list option \<Rightarrow> u32" where
  "preferred_numa_node numa devices =
     (if numa then (case devices of Some entries \<Rightarrow> first_numa_node entries | None \<Rightarrow> 0) else 0)"

definition MPOL_BIND :: int where "MPOL_BIND = 2"
definition MPOL_MF_MOVE :: u32 where "MPOL_MF_MOVE = 2"

record mbind_call =
  mb_addr :: usize
  mb_len :: usize
  mb_mode :: int
  mb_nodemask :: "u64 list"
  mb_maxnode :: usize
  mb_flags :: u32

text \<open>The nodemask; indexing past its end would panic.\<close>

definition nodemask_of :: "u32 \<Rightarrow> (u64 list) res" where
  "nodemask_of node =
     (let mask_size = unat node div 64 + 1;
          nodemask = replicate mask_size 0
      in rbind (vec_get nodemask (unat node div 64)) (\<lambda>w.
         vec_set nodemask (unat node div 64) (w OR push_bit (unat node mod 64) 1)))"

definition numa_bind_memory ::
    "bool \<Rightarrow> (mbind_call \<Rightarrow> int) \<Rightarrow> usize \<Rightarrow> usize \<Rightarrow> u32 \<Rightarrow> (string + unit) res" where
  "numa_bind_memory numa mbind ptr sz node =
     (if numa then
        rbind (nodemask_of node) (\<lambda>nodemask.
        Inr (if mbind \<lparr>mb_addr = ptr, mb_len = sz, mb_mode = MPOL_BIND, mb_nodemask = nodemask,
                       mb_maxnode = (unat node div 64 + 1) * 64 + 1, mb_flags = MPOL_MF_MOVE\<rparr> = 0
             then Inr () else Inl ''mbind failed''))
      else Inr (Inr ()))"

section \<open>GPU\<close>

record cuda_call =
  cu_ptr :: usize
  cu_size :: usize
  cu_flags :: u32

definition register_gpu_memory :: "bool \<Rightarrow> (cuda_call \<Rightarrow> int) \<Rightarrow> u32 \<Rightarrow> usize \<Rightarrow> usize \<Rightarrow> int + unit" where
  "register_gpu_memory gpu cuda device ptr sz =
     (if gpu then
        let flags = 1 OR 2; ret = cuda \<lparr>cu_ptr = ptr, cu_size = sz, cu_flags = flags\<rparr>
        in if ret = 0 then Inr () else Inl ret
      else Inr ())"

section \<open>Lemmas\<close>

lemma nodemask_of_eq: "nodemask_of node = Inr (replicate (unat node div 64) 0 @ [push_bit (unat node mod 64) 1])"
proof -
  have "(replicate (n + 1) 0)[n := x] = replicate n 0 @ [x]" for n and x :: u64
    by (induction n) (simp_all add: replicate_app_Cons_same)
  then show ?thesis by (simp add: nodemask_of_def Let_def nth_append del: replicate.simps replicate_Suc)
qed

section \<open>Properties\<close>

text \<open>C40: The NUMA policy is set for exactly the requested node. The computation of the mask does not index out of
  bounds for any node; the kernel reads \<open>maxnode - 1\<close> bits, and among them exactly the bit of the node is set;
  and the call reports success if and only if the kernel does.\<close>

theorem numa_bind_exact:
  "\<exists>mask. nodemask_of node = Inr mask \<and> length mask * 64 + 1 = (unat node div 64 + 1) * 64 + 1 \<and>
    (\<forall>i < length mask * 64. bit (mask ! (i div 64)) (i mod 64) \<longleftrightarrow> i = unat node) \<and>
    (\<forall>mbind ptr sz. numa_bind_memory True mbind ptr sz node =
       Inr (if mbind \<lparr>mb_addr = ptr, mb_len = sz, mb_mode = MPOL_BIND, mb_nodemask = mask,
                      mb_maxnode = length mask * 64 + 1, mb_flags = MPOL_MF_MOVE\<rparr> = 0
            then Inr () else Inl ''mbind failed''))"
proof -
  let ?n = "unat node"
  let ?mask = "replicate (?n div 64) 0 @ [push_bit (?n mod 64) 1] :: u64 list"
  have "bit (?mask ! (i div 64)) (i mod 64) \<longleftrightarrow> i = ?n" if "i < length ?mask * 64" for i
  proof (cases "i div 64 < ?n div 64")
    case True
    then have "i \<noteq> ?n" by auto
    then show ?thesis using True by (simp add: nth_append)
  next
    case False
    have "i div 64 = ?n div 64" using that False by (simp add: less_Suc_eq_le div_less_iff_less_mult)
    moreover have "i mod 64 < 64" by simp
    moreover have "i = ?n \<longleftrightarrow> i div 64 = ?n div 64 \<and> i mod 64 = ?n mod 64" by (metis div_mult_mod_eq)
    ultimately show ?thesis by (auto simp: nth_append bit_simps)
  qed
  then show ?thesis by (intro exI [of _ ?mask]) (simp add: nodemask_of_eq numa_bind_memory_def)
qed

theorem numa_bind_exact_witness:
  "\<exists>mask. nodemask_of 65 = Inr mask \<and> (\<forall>i < length mask * 64. bit (mask ! (i div 64)) (i mod 64) \<longleftrightarrow> i = unat (65 :: u32))"
  using numa_bind_exact [of 65] by blast

text \<open>The preferred node is that of the first device whose file holds a number that is not negative.\<close>

lemma preferred_numa_node_spec:
  "preferred_numa_node True (Some fs) =
     (case filter (\<lambda>v. 0 \<le> v) (List.map_filter (\<lambda>f. Option.bind f (\<lambda>c. parse_i32 (trim c))) fs) of
        [] \<Rightarrow> 0 | v # _ \<Rightarrow> of_int v)"
proof -
  have "first_numa_node fs =
      (case filter (\<lambda>v. 0 \<le> v) (List.map_filter (\<lambda>f. Option.bind f (\<lambda>c. parse_i32 (trim c))) fs) of [] \<Rightarrow> 0 | v # _ \<Rightarrow> of_int v)"
    by (induction fs) (auto simp: map_filter_simps split: option.split)
  then show ?thesis by (simp add: preferred_numa_node_def)
qed

end
