(* ===== verification/CacheService.thy ===== *)
theory CacheService
  imports BlockAllocator BlockIndex Metadata Pressure
begin

text \<open>
  The gRPC service, \<^verbatim>\<open>crates/cmx-agent/src/grpc.rs\<close>, with the shared state of
  \<^verbatim>\<open>crates/cmx-agent/src/state.rs\<close> and the messages of \<^verbatim>\<open>crates/cmx-proto/proto/cmx.proto\<close>.

  Every handler is one definition from the request and the service state to the reply and the new
  state. A reply is \<open>Inl\<close> of a gRPC status or \<open>Inr\<close> of a message. The outer \<open>res\<close> is for panics.
  A client stream is the list of what \<open>message()\<close> returns. The wall clock is an argument.

  Two handlers start tasks. \<open>store\<close> returns the publication it hands to etcd. \<open>get\<close> returns the
  index entry its task has captured, and \<open>get_task\<close> is that task: it reads each block later, in whatever
  state the allocator then is, and the receiver may go away after any number of messages.

  Metrics, tracing and the hash-ring suggestion that a missed lookup logs have no effect and are
  left out. Reserving the announced size is taken to succeed below \<open>2 ^ 63\<close> bytes; that a reservation the system
  refuses aborts the process is modelled in \<open>AgentMain\<close>.
\<close>

section \<open>Messages\<close>

datatype status_code = InvalidArgument | ResourceExhausted | NotFound | DataLoss | OtherCode nat

datatype status = Status status_code string

record proto_location =
  px_node_id :: string
  px_offset :: u64
  px_size :: u64
  px_generation_id :: u64

record lookup_request =
  lq_prefix_hash :: bytes
  lq_num_blocks :: u32
  lq_model_id :: string

record lookup_response =
  lr_found :: bool
  lr_blocks :: "proto_location list"
  lr_is_local :: bool

record batch_lookup_request =
  bq_prefix_hashes :: "bytes list"
  bq_model_id :: string

record batch_lookup_response =
  br_found :: "bool list"
  br_blocks :: "proto_location list"

record store_header =
  sh_prefix_hash :: bytes
  sh_num_blocks :: u32
  sh_total_size :: u64
  sh_model_id :: string

datatype store_payload = StoreHead store_header | StoreData bytes

type_synonym store_stream = "(status + store_payload option) list"

record store_response =
  sr_success :: bool
  sr_error_message :: string
  sr_generation_id :: u64

record get_request =
  gq_prefix_hash :: bytes
  gq_num_blocks :: u32
  gq_source_node_id :: string
  gq_model_id :: string

record get_header =
  gh_total_size :: u64
  gh_num_blocks :: u32
  gh_generation_id :: u64

datatype get_payload = GetHead get_header | GetData bytes

record delete_request =
  dq_prefix_hash :: bytes

record delete_response =
  dr_success :: bool
  dr_blocks_freed :: u64

record stats_response =
  ss_total_blocks :: u64
  ss_used_blocks :: u64
  ss_cache_hits :: u64
  ss_cache_misses :: u64
  ss_evictions :: u64
  ss_memory_used_bytes :: u64
  ss_memory_total_bytes :: u64

record health_response =
  hs_healthy :: bool
  hs_node_id :: string
  hs_version :: string
  hs_uptime_seconds :: u64

section \<open>State\<close>

record agent_state =
  as_allocator :: block_allocator
  as_index :: block_index
  as_node_id :: string
  as_config :: agent_config
  as_metadata :: "metadata_client option"
  as_pressure_level :: u8
  as_remote_index :: "remote_index option"
  as_hash_ring :: "hash_ring option"

record cache_service =
  cs_state :: agent_state
  cs_start_time :: u64
  cs_cache_hits :: u64
  cs_cache_misses :: u64
  cs_evictions :: u64

definition service_new :: "u64 \<Rightarrow> agent_state \<Rightarrow> cache_service" where
  "service_new now state =
     \<lparr>cs_state = state, cs_start_time = now, cs_cache_hits = 0, cs_cache_misses = 0, cs_evictions = 0\<rparr>"

definition svc_allocator :: "cache_service \<Rightarrow> block_allocator" where
  "svc_allocator S = as_allocator (cs_state S)"

definition svc_index :: "cache_service \<Rightarrow> block_index" where
  "svc_index S = as_index (cs_state S)"

definition svc_node_id :: "cache_service \<Rightarrow> string" where
  "svc_node_id S = as_node_id (cs_state S)"

definition set_index :: "block_index \<Rightarrow> cache_service \<Rightarrow> cache_service" where
  "set_index I S = S\<lparr>cs_state := (cs_state S)\<lparr>as_index := I\<rparr>\<rparr>"

definition set_allocator :: "block_allocator \<Rightarrow> cache_service \<Rightarrow> cache_service" where
  "set_allocator A S = S\<lparr>cs_state := (cs_state S)\<lparr>as_allocator := A\<rparr>\<rparr>"

definition hit :: "cache_service \<Rightarrow> cache_service" where
  "hit S = S\<lparr>cs_cache_hits := cs_cache_hits S + 1\<rparr>"

definition miss :: "cache_service \<Rightarrow> cache_service" where
  "miss S = S\<lparr>cs_cache_misses := cs_cache_misses S + 1\<rparr>"

text \<open>\<open>monotonic_now\<close>: seconds since the epoch, zero if the clock is before it.\<close>

definition monotonic_now :: "u64 option \<Rightarrow> u64" where
  "monotonic_now since_epoch = (case since_epoch of None \<Rightarrow> 0 | Some t \<Rightarrow> t)"

section \<open>Keys\<close>

definition parse_prefix_hash :: "bytes \<Rightarrow> status + hash16" where
  "parse_prefix_hash bs =
     (if length bs = 16 then Inr bs
      else Inl (Status InvalidArgument ''prefix_hash must be exactly 16 bytes''))"

definition composite_key :: "platform \<Rightarrow> string \<Rightarrow> hash16 \<Rightarrow> hash16" where
  "composite_key pf model_id prefix_hash =
     (if model_id = [] then prefix_hash
      else take 16 (sha256_of pf (str_bytes model_id @ prefix_hash)))"

section \<open>Handlers\<close>

definition local_location :: "cache_service \<Rightarrow> block_location \<Rightarrow> proto_location" where
  "local_location S loc =
     \<lparr>px_node_id = svc_node_id S, px_offset = loc_offset loc, px_size = loc_block_size loc,
      px_generation_id = loc_generation loc\<rparr>"

definition lookup :: "platform \<Rightarrow> lookup_request \<Rightarrow> cache_service \<Rightarrow> ((status + lookup_response) \<times> cache_service) res" where
  "lookup pf req S =
     (case parse_prefix_hash (lq_prefix_hash req) of
        Inl st \<Rightarrow> Inr (Inl st, S)
      | Inr prefix_hash \<Rightarrow>
          let index_key = composite_key pf (lq_model_id req) prefix_hash in
          rbind (index_lookup index_key (svc_index S)) (\<lambda>(r, I).
          let S1 = set_index I S in
          case r of
            Some entry \<Rightarrow>
              Inr (Inr \<lparr>lr_found = True, lr_blocks = map (local_location S1) (ie_blocks entry), lr_is_local = True\<rparr>, hit S1)
          | None \<Rightarrow>
              (case Option.bind (as_remote_index (cs_state S1)) (remote_lookup index_key) of
                 Some (first # _) \<Rightarrow>
                   Inr (Inr \<lparr>lr_found = True,
                             lr_blocks = [\<lparr>px_node_id = rb_node_id first, px_offset = rb_offset first,
                                           px_size = rb_size first, px_generation_id = rb_generation first\<rparr>],
                             lr_is_local = False\<rparr>, hit S1)
               | _ \<Rightarrow>
                   Inr (Inr \<lparr>lr_found = False, lr_blocks = [], lr_is_local = False\<rparr>, miss S1))))"

fun batch_loop ::
    "platform \<Rightarrow> string \<Rightarrow> bytes list \<Rightarrow> bool list \<Rightarrow> proto_location list \<Rightarrow> cache_service \<Rightarrow>
     ((status + batch_lookup_response) \<times> cache_service) res" where
  "batch_loop pf model_id [] found blocks S = Inr (Inr \<lparr>br_found = found, br_blocks = blocks\<rparr>, S)"
| "batch_loop pf model_id (raw_hash # hs) found blocks S =
     (case parse_prefix_hash raw_hash of
        Inl st \<Rightarrow> Inr (Inl st, S)
      | Inr prefix_hash \<Rightarrow>
          rbind (index_lookup (composite_key pf model_id prefix_hash) (svc_index S)) (\<lambda>(r, I).
          let S1 = set_index I S in
          case r of
            Some entry \<Rightarrow>
              batch_loop pf model_id hs (found @ [True]) (blocks @ map (local_location S1) (ie_blocks entry)) (hit S1)
          | None \<Rightarrow> batch_loop pf model_id hs (found @ [False]) blocks (miss S1)))"

definition batch_lookup ::
    "platform \<Rightarrow> batch_lookup_request \<Rightarrow> cache_service \<Rightarrow> ((status + batch_lookup_response) \<times> cache_service) res" where
  "batch_lookup pf req S = batch_loop pf (bq_model_id req) (bq_prefix_hashes req) [] [] S"

text \<open>The chunk loop of \<open>store\<close>.\<close>

fun collect_chunks :: "store_stream \<Rightarrow> bytes \<Rightarrow> status + bytes" where
  "collect_chunks [] data = Inr data"
| "collect_chunks (Inl st # ms) data = Inl st"
| "collect_chunks (Inr (Some (StoreData chunk)) # ms) data = collect_chunks ms (data @ chunk)"
| "collect_chunks (Inr (Some (StoreHead _)) # ms) data = Inl (Status InvalidArgument ''unexpected header in stream'')"
| "collect_chunks (Inr None # ms) data = collect_chunks ms data"

record publish_task =
  pt_key :: hash16
  pt_offset :: u64
  pt_size :: u64
  pt_generation :: u64

definition store_header_of :: "store_stream \<Rightarrow> status + store_header" where
  "store_header_of stream =
     (case stream of
        [] \<Rightarrow> Inl (Status InvalidArgument ''empty stream'')
      | Inl st # _ \<Rightarrow> Inl st
      | Inr (Some (StoreHead h)) # _ \<Rightarrow> Inr h
      | _ \<Rightarrow> Inl (Status InvalidArgument ''first message must be a header''))"

definition store ::
    "platform \<Rightarrow> u64 option \<Rightarrow> store_stream \<Rightarrow> cache_service \<Rightarrow>
     ((status + store_response) \<times> publish_task list \<times> cache_service) res" where
  "store pf now stream S =
     (if as_pressure_level (cs_state S) \<ge> PRESSURE_REJECT
      then Inr (Inl (Status ResourceExhausted
             (''memory pressure too high '' @ [CHR 0xE2, CHR 0x80, CHR 0x94] @ '' store rejected'')), [], S)
      else case store_header_of stream of
        Inl st \<Rightarrow> Inr (Inl st, [], S)
      | Inr header \<Rightarrow>
      (case parse_prefix_hash (sh_prefix_hash header) of
        Inl st \<Rightarrow> Inr (Inl st, [], S)
      | Inr prefix_hash \<Rightarrow>
      let index_key = composite_key pf (sh_model_id header) prefix_hash in
      if unat (sh_total_size header) \<ge> 2 ^ 63 then Inl CapacityOverflow
      else case collect_chunks (tl stream) [] of
        Inl st \<Rightarrow> Inr (Inl st, [], S)
      | Inr data \<Rightarrow>
      rbind (allocate_and_write pf (svc_allocator S) data) (\<lambda>(r, A).
      case r of
        None \<Rightarrow> Inr (Inl (Status ResourceExhausted ''memory pool exhausted''), [], set_allocator A S)
      | Some (loc, handle) \<Rightarrow>
          let S1 = set_allocator A S; generation = loc_generation loc in
          rbind (index_insert index_key [loc] (monotonic_now now) (svc_index S1)) (\<lambda>(evicted, I).
          let S2 = set_index I S1;
              S3 = S2\<lparr>cs_evictions := cs_evictions S2 + of_nat (length evicted)\<rparr>;
              spawned = (case as_metadata (cs_state S3) of
                           None \<Rightarrow> []
                         | Some _ \<Rightarrow> [\<lparr>pt_key = index_key, pt_offset = loc_offset loc,
                                       pt_size = loc_block_size loc, pt_generation = generation\<rparr>])
          in Inr (Inr \<lparr>sr_success = True, sr_error_message = [], sr_generation_id = generation\<rparr>, spawned, S3)))))"

definition get :: "platform \<Rightarrow> get_request \<Rightarrow> cache_service \<Rightarrow> ((status + index_entry) \<times> cache_service) res" where
  "get pf req S =
     (case parse_prefix_hash (gq_prefix_hash req) of
        Inl st \<Rightarrow> Inr (Inl st, S)
      | Inr prefix_hash \<Rightarrow>
          rbind (index_lookup (composite_key pf (gq_model_id req) prefix_hash) (svc_index S)) (\<lambda>(r, I).
          let S1 = set_index I S in
          case r of
            None \<Rightarrow> Inr (Inl (Status NotFound ''prefix hash not found in cache''), miss S1)
          | Some entry \<Rightarrow> Inr (Inr entry, hit S1)))"

text \<open>\<open>Iterator::sum\<close> panics on overflow when overflow is checked and wraps otherwise.\<close>

fun sum_u64 :: "bool \<Rightarrow> u64 list \<Rightarrow> u64 \<Rightarrow> u64 res" where
  "sum_u64 checks [] acc = Inr acc"
| "sum_u64 checks (x # xs) acc =
     (if checks \<and> unat acc + unat x \<ge> 2 ^ 64 then Inl AddOverflow else sum_u64 checks xs (acc + x))"

definition block_handle_of :: "block_location \<Rightarrow> block_handle" where
  "block_handle_of loc =
     \<lparr>bh_pool_id = 0, bh_block_index = loc_block_index loc,
      bh_offset = unat (loc_offset loc), bh_size = unat (loc_block_size loc)\<rparr>"

text \<open>
  The block loop of the task: \<open>As i\<close> is the allocator when the \<open>i\<close>-th block is read, \<open>n\<close> the
  number of messages the receiver still takes.
\<close>

fun send_blocks ::
    "platform \<Rightarrow> (nat \<Rightarrow> block_allocator) \<Rightarrow> nat \<Rightarrow> block_location list \<Rightarrow> nat \<Rightarrow> ((status + get_payload) list) res" where
  "send_blocks pf As i [] n = Inr []"
| "send_blocks pf As i (loc # locs) n =
     rbind (read_verified pf (As i) (block_handle_of loc)) (\<lambda>r.
     case r of
       Some data \<Rightarrow>
         (case n of
            0 \<Rightarrow> Inr []
          | Suc m \<Rightarrow> rbind (send_blocks pf As (Suc i) locs m) (\<lambda>ms. Inr (Inr (GetData data) # ms)))
     | None \<Rightarrow>
         Inr (if n = 0 then [] else [Inl (Status DataLoss ''block CRC32C verification failed'')]))"

definition get_task ::
    "platform \<Rightarrow> (nat \<Rightarrow> block_allocator) \<Rightarrow> index_entry \<Rightarrow> nat \<Rightarrow> ((status + get_payload) list) res" where
  "get_task pf As entry n =
     rbind (sum_u64 (overflow_checks pf) (map loc_block_size (ie_blocks entry)) 0) (\<lambda>total_size.
     let header = \<lparr>gh_total_size = total_size, gh_num_blocks = of_nat (length (ie_blocks entry)),
                   gh_generation_id = (case ie_blocks entry of [] \<Rightarrow> 0 | b # _ \<Rightarrow> loc_generation b)\<rparr>
     in case n of
          0 \<Rightarrow> Inr []
        | Suc m \<Rightarrow> rbind (send_blocks pf As 0 (ie_blocks entry) m) (\<lambda>ms. Inr (Inr (GetHead header) # ms)))"

fun free_blocks :: "block_location list \<Rightarrow> block_allocator \<Rightarrow> block_allocator res" where
  "free_blocks [] A = Inr A"
| "free_blocks (loc # locs) A = rbind (ba_deallocate A (block_handle_of loc)) (free_blocks locs)"

definition delete :: "delete_request \<Rightarrow> cache_service \<Rightarrow> ((status + delete_response) \<times> cache_service) res" where
  "delete req S =
     (case parse_prefix_hash (dq_prefix_hash req) of
        Inl st \<Rightarrow> Inr (Inl st, S)
      | Inr prefix_hash \<Rightarrow>
          rbind (index_remove prefix_hash (svc_index S)) (\<lambda>(r, I).
          let S1 = set_index I S in
          case r of
            Some entry \<Rightarrow>
              rbind (free_blocks (ie_blocks entry) (svc_allocator S1)) (\<lambda>A.
              Inr (Inr \<lparr>dr_success = True, dr_blocks_freed = of_nat (length (ie_blocks entry))\<rparr>, set_allocator A S1))
          | None \<Rightarrow> Inr (Inr \<lparr>dr_success = False, dr_blocks_freed = 0\<rparr>, S1)))"

definition service_stats :: "cache_service \<Rightarrow> stats_response" where
  "service_stats S =
     (let pool_stats = ba_stats (svc_allocator S)
      in \<lparr>ss_total_blocks = of_nat (ps_total_blocks pool_stats), ss_used_blocks = of_nat (ps_used_blocks pool_stats),
          ss_cache_hits = cs_cache_hits S, ss_cache_misses = cs_cache_misses S, ss_evictions = cs_evictions S,
          ss_memory_used_bytes = of_nat (ps_used_bytes pool_stats),
          ss_memory_total_bytes = of_nat (ps_total_bytes pool_stats)\<rparr>)"

definition CARGO_PKG_VERSION :: string where
  "CARGO_PKG_VERSION = ''0.1.0''"

definition health :: "u64 \<Rightarrow> cache_service \<Rightarrow> health_response" where
  "health now S =
     \<lparr>hs_healthy = (as_pressure_level (cs_state S) < PRESSURE_REJECT), hs_node_id = svc_node_id S,
      hs_version = CARGO_PKG_VERSION, hs_uptime_seconds = now - cs_start_time S\<rparr>"

end
