(* ===== verification/KvSpec.thy ===== *)
theory KvSpec
  imports CacheService
begin

text \<open>
  What the cache service promises, without pools, headers, slabs and handles: a bounded LRU map from
  key to (generation, data), the number of pool blocks in use, and the counters. \<open>kv_step\<close> is the
  specification of one request. The only thing it says about memory is that every successful store
  takes one block and every successful delete gives one back. \<open>ServiceCorrect\<close> shows that the
  handlers of the service implement it.

  Block offsets are not part of the promise, so a location in a reply is reduced to the
  node and the generation, and a reply of \<open>get\<close> is its list of messages.
\<close>

section \<open>Requests and replies\<close>

text \<open>
  The requests of clients, one iteration of the pressure monitor, and an update of
  the remote index by the watch task. The number in \<open>DoGet\<close> is how many messages the client
  takes before it goes away.
\<close>

datatype request =
    DoLookup lookup_request
  | DoBatch batch_lookup_request
  | DoStore "u64 option" store_stream
  | DoGet get_request nat
  | DoDelete delete_request
  | DoStats
  | DoHealth u64
  | Tick
  | WatchUpdate remote_index

type_synonym stamp = "string \<times> u64"

datatype reply =
    Refused status
  | LookupReply bool bool "stamp list"
  | BatchReply "bool list" "stamp list"
  | StoreReply store_response "(hash16 \<times> u64) list"
  | GetReply "(status + get_payload) list"
  | DeleteReply delete_response
  | StatsReply stats_response
  | HealthReply health_response
  | Silent

section \<open>Specification\<close>

record kv_params =
  kp_total_blocks :: usize
  kp_block_size :: usize
  kp_max_entries :: usize
  kp_node_id :: string
  kp_publish :: bool
  kp_start_time :: u64
  kp_config :: agent_config

record kv_state =
  kv_entries :: "(hash16 \<times> u64 \<times> bytes) list"
  kv_used :: usize
  kv_generation :: u64
  kv_level :: u8
  kv_remote :: "remote_index option"
  kv_hits :: u64
  kv_misses :: u64
  kv_evictions :: u64

definition kv_find :: "hash16 \<Rightarrow> kv_state \<Rightarrow> (u64 \<times> bytes) option \<times> kv_state" where
  "kv_find k V = (let (r, es) = cache_lookup k (kv_entries V) in (r, V\<lparr>kv_entries := es\<rparr>))"

definition kv_hit :: "kv_state \<Rightarrow> kv_state" where
  "kv_hit V = V\<lparr>kv_hits := kv_hits V + 1\<rparr>"

definition kv_miss :: "kv_state \<Rightarrow> kv_state" where
  "kv_miss V = V\<lparr>kv_misses := kv_misses V + 1\<rparr>"

definition kv_lookup :: "platform \<Rightarrow> kv_params \<Rightarrow> lookup_request \<Rightarrow> kv_state \<Rightarrow> reply \<times> kv_state" where
  "kv_lookup pf P req V =
     (case parse_prefix_hash (lq_prefix_hash req) of
        Inl st \<Rightarrow> (Refused st, V)
      | Inr h \<Rightarrow>
          let k = composite_key pf (lq_model_id req) h in
          (case kv_find k V of
             (Some (g, d), V1) \<Rightarrow> (LookupReply True True [(kp_node_id P, g)], kv_hit V1)
           | (None, V1) \<Rightarrow>
               (case Option.bind (kv_remote V) (remote_lookup k) of
                  Some (b # _) \<Rightarrow> (LookupReply True False [(rb_node_id b, rb_generation b)], kv_hit V1)
                | _ \<Rightarrow> (LookupReply False False [], kv_miss V1))))"

fun kv_batch ::
    "platform \<Rightarrow> kv_params \<Rightarrow> string \<Rightarrow> bytes list \<Rightarrow> kv_state \<Rightarrow> (status + bool list \<times> stamp list) \<times> kv_state" where
  "kv_batch pf P m [] V = (Inr ([], []), V)"
| "kv_batch pf P m (raw # hs) V =
     (case parse_prefix_hash raw of
        Inl st \<Rightarrow> (Inl st, V)
      | Inr h \<Rightarrow>
          (case kv_find (composite_key pf m h) V of
             (Some (g, d), V1) \<Rightarrow>
               apfst (map_sum id (\<lambda>(fs, ls). (True # fs, (kp_node_id P, g) # ls))) (kv_batch pf P m hs (kv_hit V1))
           | (None, V1) \<Rightarrow>
               apfst (map_sum id (\<lambda>(fs, ls). (False # fs, ls))) (kv_batch pf P m hs (kv_miss V1))))"

text \<open>What a store request asks for: its key and its data.\<close>

definition store_args :: "platform \<Rightarrow> store_stream \<Rightarrow> (status + hash16 \<times> bytes) res" where
  "store_args pf stream =
     (case store_header_of stream of
        Inl st \<Rightarrow> Inr (Inl st)
      | Inr header \<Rightarrow>
          (case parse_prefix_hash (sh_prefix_hash header) of
             Inl st \<Rightarrow> Inr (Inl st)
           | Inr h \<Rightarrow>
               if unat (sh_total_size header) \<ge> 2 ^ 63 then Inl CapacityOverflow
               else Inr (map_sum id (Pair (composite_key pf (sh_model_id header) h)) (collect_chunks (tl stream) []))))"

definition kv_put :: "kv_params \<Rightarrow> hash16 \<Rightarrow> bytes \<Rightarrow> kv_state \<Rightarrow> reply \<times> kv_state" where
  "kv_put P k d V =
     (if kp_block_size P - HEADER_SIZE < length d \<or> kv_used V = kp_total_blocks P
      then (Refused (Status ResourceExhausted ''memory pool exhausted''), V)
      else
        let g = kv_generation V; (ev, es) = cache_insert (kp_max_entries P) k (g, d) (kv_entries V)
        in (StoreReply \<lparr>sr_success = True, sr_error_message = [], sr_generation_id = g\<rparr>
              (if kp_publish P then [(k, g)] else []),
            V\<lparr>kv_entries := es, kv_used := kv_used V + 1, kv_generation := g + 1,
              kv_evictions := kv_evictions V + of_nat (length ev)\<rparr>))"

definition kv_store :: "platform \<Rightarrow> kv_params \<Rightarrow> store_stream \<Rightarrow> kv_state \<Rightarrow> (reply \<times> kv_state) res" where
  "kv_store pf P stream V =
     (if kv_level V \<ge> PRESSURE_REJECT
      then Inr (Refused (Status ResourceExhausted
             (''memory pressure too high '' @ [CHR 0xE2, CHR 0x80, CHR 0x94] @ '' store rejected'')), V)
      else rbind (store_args pf stream) (\<lambda>a. case a of Inl st \<Rightarrow> Inr (Refused st, V) | Inr (k, d) \<Rightarrow> Inr (kv_put P k d V)))"

definition kv_messages :: "kv_params \<Rightarrow> u64 \<Rightarrow> bytes \<Rightarrow> (status + get_payload) list" where
  "kv_messages P g d =
     [Inr (GetHead \<lparr>gh_total_size = of_nat (kp_block_size P), gh_num_blocks = 1, gh_generation_id = g\<rparr>),
      Inr (GetData d)]"

definition kv_get :: "platform \<Rightarrow> kv_params \<Rightarrow> get_request \<Rightarrow> nat \<Rightarrow> kv_state \<Rightarrow> reply \<times> kv_state" where
  "kv_get pf P req n V =
     (case parse_prefix_hash (gq_prefix_hash req) of
        Inl st \<Rightarrow> (Refused st, V)
      | Inr h \<Rightarrow>
          (case kv_find (composite_key pf (gq_model_id req) h) V of
             (Some (g, d), V1) \<Rightarrow> (GetReply (take n (kv_messages P g d)), kv_hit V1)
           | (None, V1) \<Rightarrow> (Refused (Status NotFound ''prefix hash not found in cache''), kv_miss V1)))"

definition kv_delete :: "delete_request \<Rightarrow> kv_state \<Rightarrow> reply \<times> kv_state" where
  "kv_delete req V =
     (case parse_prefix_hash (dq_prefix_hash req) of
        Inl st \<Rightarrow> (Refused st, V)
      | Inr h \<Rightarrow>
          (case map_of (kv_entries V) h of
             None \<Rightarrow> (DeleteReply \<lparr>dr_success = False, dr_blocks_freed = 0\<rparr>, V)
           | Some _ \<Rightarrow>
               (DeleteReply \<lparr>dr_success = True, dr_blocks_freed = 1\<rparr>,
                V\<lparr>kv_entries := drop_key h (kv_entries V), kv_used := kv_used V - 1\<rparr>)))"

definition kv_stats :: "kv_params \<Rightarrow> kv_state \<Rightarrow> stats_response" where
  "kv_stats P V =
     \<lparr>ss_total_blocks = of_nat (kp_total_blocks P), ss_used_blocks = of_nat (kv_used V),
      ss_cache_hits = kv_hits V, ss_cache_misses = kv_misses V, ss_evictions = kv_evictions V,
      ss_memory_used_bytes = of_nat (kv_used V * kp_block_size P),
      ss_memory_total_bytes = of_nat (kp_total_blocks P * kp_block_size P)\<rparr>"

definition kv_health :: "kv_params \<Rightarrow> u64 \<Rightarrow> kv_state \<Rightarrow> health_response" where
  "kv_health P now V =
     \<lparr>hs_healthy = (kv_level V < PRESSURE_REJECT), hs_node_id = kp_node_id P, hs_version = CARGO_PKG_VERSION,
      hs_uptime_seconds = now - kp_start_time P\<rparr>"

definition kv_usage :: "kv_params \<Rightarrow> kv_state \<Rightarrow> f64" where
  "kv_usage P V =
     (if kp_total_blocks P > 0 then f64_div (f64_of_nat (kv_used V)) (f64_of_nat (kp_total_blocks P)) else Fin 0)"

definition kv_tick :: "kv_params \<Rightarrow> kv_state \<Rightarrow> kv_state" where
  "kv_tick P V =
     V\<lparr>kv_level := level_of (mem_pressure_warn (cfg_memory (kp_config P))) (mem_pressure_critical (cfg_memory (kp_config P)))
                    (mem_pressure_reject (cfg_memory (kp_config P))) (kv_usage P V)\<rparr>"

fun kv_step :: "platform \<Rightarrow> kv_params \<Rightarrow> request \<Rightarrow> kv_state \<Rightarrow> (reply \<times> kv_state) res" where
  "kv_step pf P (DoLookup req) V = Inr (kv_lookup pf P req V)"
| "kv_step pf P (DoBatch req) V =
     Inr (apfst (case_sum Refused (\<lambda>(fs, ls). BatchReply fs ls)) (kv_batch pf P (bq_model_id req) (bq_prefix_hashes req) V))"
| "kv_step pf P (DoStore now stream) V = kv_store pf P stream V"
| "kv_step pf P (DoGet req n) V = Inr (kv_get pf P req n V)"
| "kv_step pf P (DoDelete req) V = Inr (kv_delete req V)"
| "kv_step pf P DoStats V = Inr (StatsReply (kv_stats P V), V)"
| "kv_step pf P (DoHealth now) V = Inr (HealthReply (kv_health P now V), V)"
| "kv_step pf P Tick V = Inr (Silent, kv_tick P V)"
| "kv_step pf P (WatchUpdate R) V = Inr (Silent, V\<lparr>kv_remote := map_option (\<lambda>_. R) (kv_remote V)\<rparr>)"

text \<open>A sequence of steps; a panic ends it.\<close>

fun run_steps :: "('r \<Rightarrow> 's \<Rightarrow> ('o \<times> 's) res) \<Rightarrow> 'r list \<Rightarrow> 's \<Rightarrow> ('o list \<times> 's) res" where
  "run_steps step [] s = Inr ([], s)"
| "run_steps step (r # rs) s =
     rbind (step r s) (\<lambda>(x, s1). rbind (run_steps step rs s1) (\<lambda>(xs, s2). Inr (x # xs, s2)))"

definition kv_run :: "platform \<Rightarrow> kv_params \<Rightarrow> request list \<Rightarrow> kv_state \<Rightarrow> (reply list \<times> kv_state) res" where
  "kv_run pf P = run_steps (kv_step pf P)"

section \<open>Cache operations under a change of values\<close>

lemma map_of_apsnd: "map_of (map (apsnd f) xs) k = map_option f (map_of xs k)"
  by (induction xs) auto

lemma drop_key_apsnd: "drop_key k (map (apsnd f) xs) = map (apsnd f) (drop_key k xs)"
  by (simp add: drop_key_def filter_map comp_def)

lemma cache_lookup_apsnd:
  "cache_lookup k (map (apsnd f) xs) = map_prod (map_option f) (map (apsnd f)) (cache_lookup k xs)"
  by (simp add: cache_lookup_def map_of_apsnd drop_key_apsnd split: option.split)

lemma cache_insert_apsnd:
  "cache_insert c k (f e) (map (apsnd f) xs) = map_prod id (map (apsnd f)) (cache_insert c k e xs)"
  by (simp add: cache_insert_def drop_key_apsnd take_map drop_map image_image)

lemma cache_lookup_set: "set (snd (cache_lookup k xs)) \<subseteq> set xs"
  by (auto simp: cache_lookup_def map_of_SomeD split: option.split)

lemma cache_insert_set: "set (snd (cache_insert c k e xs)) \<subseteq> insert (k, e) (set xs)"
  by (auto simp: cache_insert_def dest: in_set_takeD)

lemma distinct_map_drop_key: "distinct (map f xs) \<Longrightarrow> distinct (map f (drop_key k xs))"
  by (simp add: drop_key_def distinct_map_filter)

lemma cache_lookup_distinct:
  assumes "distinct (map f xs)"
  shows "distinct (map f (snd (cache_lookup k xs)))"
proof (cases "map_of xs k")
  case (Some e)
  have "(k, e) \<in> set xs" using Some by (rule map_of_SomeD)
  then have "f (k, e) \<notin> f ` set (drop_key k xs)"
    using assms by (fastforce simp: distinct_map inj_on_def)
  then show ?thesis using Some assms by (simp add: cache_lookup_def distinct_map_drop_key)
qed (use assms in \<open>simp add: cache_lookup_def\<close>)

lemma cache_insert_distinct:
  assumes "distinct (map f xs)" and "f (k, e) \<notin> f ` set xs"
  shows "distinct (map f (snd (cache_insert c k e xs)))"
proof -
  have "distinct (take (c - 1) (map f xs))" using assms(1) by (rule distinct_take)
  moreover have "f (k, e) \<notin> f ` set (take (c - 1) xs)" using assms(2) by (auto dest: in_set_takeD)
  moreover have "f (k, e) \<notin> f ` set (drop_key k xs)" using assms(2) by auto
  ultimately show ?thesis
    using assms(1) by (simp add: cache_insert_def distinct_map_drop_key take_map)
qed

lemma cache_insert_no_evict:
  "length xs < c \<Longrightarrow> fst (cache_insert c k e xs) = []"
  by (simp add: cache_insert_def)

section \<open>What a step can change\<close>

text \<open>
  The history of a cache: what the successful stores and deletes of a trace have left under
  each key, if nothing were ever evicted.
\<close>

fun track :: "platform \<Rightarrow> request \<times> reply \<Rightarrow> (hash16 \<rightharpoonup> u64 \<times> bytes) \<Rightarrow> (hash16 \<rightharpoonup> u64 \<times> bytes)" where
  "track pf (DoStore now stream, StoreReply m ps) C =
     (case store_args pf stream of Inr (Inr (k, d)) \<Rightarrow> C(k \<mapsto> (sr_generation_id m, d)) | _ \<Rightarrow> C)"
| "track pf (DoDelete req, DeleteReply m) C = (if dr_success m then C(dq_prefix_hash req := None) else C)"
| "track pf _ C = C"

fun track_all :: "platform \<Rightarrow> (request \<times> reply) list \<Rightarrow> (hash16 \<rightharpoonup> u64 \<times> bytes) \<Rightarrow> (hash16 \<rightharpoonup> u64 \<times> bytes)" where
  "track_all pf [] C = C"
| "track_all pf (t # ts) C = track_all pf ts (track pf t C)"

definition kv_wf :: "kv_state \<Rightarrow> bool" where
  "kv_wf V \<longleftrightarrow> distinct (map fst (kv_entries V)) \<and> length (kv_entries V) \<le> kv_used V"

text \<open>A step that leaves keys, values and memory as they are.\<close>

definition kv_frame :: "kv_state \<Rightarrow> kv_state \<Rightarrow> bool" where
  "kv_frame V V' \<longleftrightarrow>
     map_of (kv_entries V') = map_of (kv_entries V) \<and> length (kv_entries V') = length (kv_entries V) \<and>
     distinct (map fst (kv_entries V')) \<and>
     kv_used V' = kv_used V \<and> kv_generation V' = kv_generation V \<and> kv_evictions V' = kv_evictions V"

lemma kv_frame_refl [simp]: "kv_wf V \<Longrightarrow> kv_frame V V"
  by (simp add: kv_frame_def kv_wf_def)

lemma kv_frame_trans: "kv_frame V1 V2 \<Longrightarrow> kv_frame V2 V3 \<Longrightarrow> kv_frame V1 V3"
  by (simp add: kv_frame_def)

lemma kv_frame_wf: "kv_frame V V' \<Longrightarrow> kv_wf V \<Longrightarrow> kv_wf V'"
  by (simp add: kv_frame_def kv_wf_def)

lemma kv_frame_counters [simp]:
  "kv_frame V (kv_hit V') = kv_frame V V'" "kv_frame V (kv_miss V') = kv_frame V V'"
  by (simp_all add: kv_frame_def kv_hit_def kv_miss_def)

lemma cache_lookup_length:
  assumes "distinct (map fst xs)"
  shows "length (snd (cache_lookup k xs)) = length xs"
proof (cases "map_of xs k")
  case (Some e)
  have "(k, e) \<in> set xs" using Some by (rule map_of_SomeD)
  then have "k \<in> fst ` set xs" "0 < length xs" by (force, cases xs) auto
  then show ?thesis using Some assms by (simp add: cache_lookup_def length_drop_key)
qed (simp add: cache_lookup_def)

lemma kv_find_frame:
  assumes "kv_wf V" and "kv_find k V = (r, V1)"
  shows "r = map_of (kv_entries V) k" and "kv_frame V V1"
proof -
  let ?xs = "kv_entries V"
  have V1: "V1 = V\<lparr>kv_entries := snd (cache_lookup k ?xs)\<rparr>" and r: "r = fst (cache_lookup k ?xs)"
    using assms(2) by (simp_all add: kv_find_def split_beta)
  show "r = map_of ?xs k" using r by (simp add: cache_lookup_def split: option.split)
  have "map_of (snd (cache_lookup k ?xs)) = map_of ?xs"
    by (auto simp: cache_lookup_def fun_eq_iff split: option.split)
  then show "kv_frame V V1"
    using assms(1) cache_lookup_length [of ?xs k] cache_lookup_distinct [of fst ?xs k]
    by (simp add: V1 kv_frame_def kv_wf_def)
qed

lemma kv_batch_frame: "kv_wf V \<Longrightarrow> kv_frame V (snd (kv_batch pf P m hs V))"
proof (induction hs arbitrary: V)
  case (Cons raw hs)
  have "kv_frame V (snd (kv_batch pf P m hs (kv_hit V1)))" "kv_frame V (snd (kv_batch pf P m hs (kv_miss V1)))"
    if "kv_frame V V1" for V1
  proof -
    have "kv_wf (kv_hit V1)" "kv_wf (kv_miss V1)"
      using kv_frame_wf [OF that Cons.prems] by (simp_all add: kv_wf_def kv_hit_def kv_miss_def)
    then show "kv_frame V (snd (kv_batch pf P m hs (kv_hit V1)))" "kv_frame V (snd (kv_batch pf P m hs (kv_miss V1)))"
      using kv_frame_trans [of V "kv_hit V1"] kv_frame_trans [of V "kv_miss V1"] that Cons.IH by simp_all
  qed
  then show ?case
    using Cons.prems kv_find_frame [OF Cons.prems] by (auto split: sum.split prod.split option.split)
qed simp

lemma kv_store_cases:
  assumes "kv_store pf P stream V = Inr (x, V')"
  obtains (refused) st where "x = Refused st" and "V' = V"
    | (put) k d ev es where "kv_level V < PRESSURE_REJECT" and "store_args pf stream = Inr (Inr (k, d))"
        and "length d \<le> kp_block_size P - HEADER_SIZE" and "kv_used V \<noteq> kp_total_blocks P"
        and "x = StoreReply \<lparr>sr_success = True, sr_error_message = [], sr_generation_id = kv_generation V\<rparr>
              (if kp_publish P then [(k, kv_generation V)] else [])"
        and "cache_insert (kp_max_entries P) k (kv_generation V, d) (kv_entries V) = (ev, es)"
        and "V' = V\<lparr>kv_entries := es, kv_used := kv_used V + 1, kv_generation := kv_generation V + 1,
              kv_evictions := kv_evictions V + of_nat (length ev)\<rparr>"
proof (cases "kv_level V \<ge> PRESSURE_REJECT")
  case True
  then show ?thesis using assms refused by (fastforce simp: kv_store_def)
next
  case False
  then obtain a where a: "store_args pf stream = Inr a" using assms by (auto simp: kv_store_def)
  show ?thesis
  proof (cases a)
    case (Inl st)
    then show ?thesis using assms refused a False by (fastforce simp: kv_store_def)
  next
    case (Inr kd)
    obtain k d where kd: "kd = (k, d)" by force
    have x: "kv_put P k d V = (x, V')" using assms a False Inr kd by (simp add: kv_store_def)
    obtain ev es where ci: "cache_insert (kp_max_entries P) k (kv_generation V, d) (kv_entries V) = (ev, es)" by force
    show ?thesis
    proof (cases "kp_block_size P - HEADER_SIZE < length d \<or> kv_used V = kp_total_blocks P")
      case True
      then have "kv_put P k d V = (Refused (Status ResourceExhausted ''memory pool exhausted''), V)"
        unfolding kv_put_def by (rule if_P)
      then show ?thesis using x refused by simp
    next
      case room: False
      have "StoreReply \<lparr>sr_success = True, sr_error_message = [], sr_generation_id = kv_generation V\<rparr>
              (if kp_publish P then [(k, kv_generation V)] else []) = x"
          "V\<lparr>kv_entries := es, kv_used := kv_used V + 1, kv_generation := kv_generation V + 1,
              kv_evictions := kv_evictions V + of_nat (length ev)\<rparr> = V'"
        using x unfolding kv_put_def if_not_P [OF room] Let_def ci prod.case by blast+
      then show ?thesis using put [OF _ _ _ _ _ ci] False a Inr kd room by auto
    qed
  qed
qed

lemma kv_step_cases:
  assumes "kv_step pf P r V = Inr (x, V')" and "kv_wf V"
  obtains (frame) "kv_frame V V'" and "\<And>C. track pf (r, x) C = C"
    | (put) now stream k d g ev es where "r = DoStore now stream" and "kv_level V < PRESSURE_REJECT" and "store_args pf stream = Inr (Inr (k, d))"
        and "length d \<le> kp_block_size P - HEADER_SIZE" and "kv_used V \<noteq> kp_total_blocks P" and "g = kv_generation V"
        and "x = StoreReply \<lparr>sr_success = True, sr_error_message = [], sr_generation_id = g\<rparr> (if kp_publish P then [(k, g)] else [])"
        and "cache_insert (kp_max_entries P) k (g, d) (kv_entries V) = (ev, es)"
        and "V' = V\<lparr>kv_entries := es, kv_used := kv_used V + 1, kv_generation := g + 1,
              kv_evictions := kv_evictions V + of_nat (length ev)\<rparr>"
    | (del) req v where "r = DoDelete req" and "map_of (kv_entries V) (dq_prefix_hash req) = Some v"
        and "x = DeleteReply \<lparr>dr_success = True, dr_blocks_freed = 1\<rparr>"
        and "V' = V\<lparr>kv_entries := drop_key (dq_prefix_hash req) (kv_entries V), kv_used := kv_used V - 1\<rparr>"
proof (cases r)
  case (DoLookup req)
  then show ?thesis
    using assms kv_find_frame(2) [OF assms(2)] frame
    by (auto simp: kv_lookup_def Let_def split: sum.splits prod.splits option.splits list.splits)
next
  case (DoBatch req)
  then have "V' = snd (kv_batch pf P (bq_model_id req) (bq_prefix_hashes req) V)"
    using assms(1) by (metis kv_step.simps(2) snd_apfst snd_conv sum.inject(2))
  then show ?thesis using DoBatch kv_batch_frame [OF assms(2)] frame by simp
next
  case (DoStore now stream)
  have "kv_store pf P stream V = Inr (x, V')" using assms(1) DoStore by simp
  then show ?thesis
  proof (cases rule: kv_store_cases)
    case refused
    then show ?thesis using assms(2) DoStore frame by simp
  next
    case (put k d ev es)
    show ?thesis using that(2) [OF DoStore put(1-4) refl put(5-7)] .
  qed
next
  case (DoGet req n)
  then show ?thesis
    using assms kv_find_frame(2) [OF assms(2)] frame
    by (auto simp: kv_get_def split: sum.splits prod.splits option.splits)
next
  case (DoDelete req)
  have d: "kv_delete req V = (x, V')" using assms(1) DoDelete by simp
  show ?thesis
  proof (cases "length (dq_prefix_hash req) = 16 \<and> map_of (kv_entries V) (dq_prefix_hash req) \<noteq> None")
    case True
    then obtain v where "map_of (kv_entries V) (dq_prefix_hash req) = Some v" by blast
    then show ?thesis using d True del [OF DoDelete] by (simp add: kv_delete_def parse_prefix_hash_def)
  next
    case False
    then have "V' = V" "\<And>C. track pf (r, x) C = C"
      using d DoDelete by (auto simp: kv_delete_def parse_prefix_hash_def split: if_splits option.splits)
    then show ?thesis using frame assms(2) by simp
  qed
next
  case Tick
  then show ?thesis using assms frame by (auto simp: kv_tick_def kv_frame_def kv_wf_def)
next
  case (WatchUpdate R)
  then show ?thesis using assms frame by (auto simp: kv_frame_def kv_wf_def)
qed (use assms frame in auto)

lemma cache_insert_length:
  assumes "distinct (map fst xs)"
  shows "length (snd (cache_insert c k e xs)) + length (fst (cache_insert c k e xs)) + of_bool (k \<in> fst ` set xs) =
    length xs + 1"
proof (cases "k \<in> fst ` set xs")
  case True
  then have "0 < length xs" by (cases xs) auto
  then show ?thesis using True assms by (simp add: cache_insert_def length_drop_key)
qed (simp add: cache_insert_def)

definition kv_orphans :: "kv_state \<Rightarrow> usize" where
  "kv_orphans V = kv_used V - length (kv_entries V)"

text \<open>A successful store orphans one block for every entry it overwrites or evicts.\<close>

lemma put_orphans:
  assumes "kv_wf V" and "cache_insert c k (g, d) (kv_entries V) = (ev, es)"
    and "V' = V\<lparr>kv_entries := es, kv_used := kv_used V + 1, kv_generation := g', kv_evictions := n\<rparr>"
  shows "kv_orphans V' = kv_orphans V + length ev + of_bool (k \<in> fst ` set (kv_entries V))"
  using cache_insert_length [of "kv_entries V" c k "(g, d)"] assms by (simp add: kv_orphans_def kv_wf_def)

lemma length_drop_present:
  assumes "distinct (map fst xs)" and "map_of xs k = Some v"
  shows "length (drop_key k xs) = length xs - 1" and "0 < length xs"
proof -
  have "(k, v) \<in> set xs" using assms(2) by (rule map_of_SomeD)
  then have "k \<in> fst ` set xs" by force
  then show "length (drop_key k xs) = length xs - 1" "0 < length xs"
    using length_drop_key [OF assms(1), of k] by (simp, cases xs) auto
qed

lemma kv_step_orphans:
  assumes "kv_step pf P r V = Inr (x, V')" and "kv_wf V"
  shows "kv_orphans V \<le> kv_orphans V'"
  using assms
proof (cases rule: kv_step_cases)
  case frame
  then show ?thesis by (simp add: kv_frame_def kv_orphans_def)
next
  case (put now stream k d g ev es)
  then show ?thesis using put_orphans [OF assms(2) put(8)] by simp
next
  case (del req v)
  then show ?thesis
    using length_drop_present [of "kv_entries V"] assms(2) by (auto simp: kv_orphans_def kv_wf_def)
qed

text \<open>With room for as many entries as there are blocks, nothing is evicted.\<close>

lemma kv_step_no_evict:
  assumes "kv_step pf P r V = Inr (x, V')" and "kv_wf V" and "kp_total_blocks P \<le> kp_max_entries P"
    and "kv_used V \<le> kp_total_blocks P"
  shows "kv_evictions V' = kv_evictions V"
  using assms(1,2)
proof (cases rule: kv_step_cases)
  case (put now stream k d g ev es)
  have "length (kv_entries V) < kp_max_entries P" using assms(2-4) put(5) by (simp add: kv_wf_def)
  then have "ev = []" using cache_insert_no_evict [of "kv_entries V" _ k "(g, d)"] put(8) by (metis fst_conv)
  then show ?thesis using put(9) by simp
qed (auto simp: kv_frame_def)

text \<open>The entries of a cache agree with its history, and are all of it if nothing is evicted.\<close>

lemma kv_step_track:
  assumes "kv_step pf P r V = Inr (x, V')" and "kv_wf V" and "map_of (kv_entries V) \<subseteq>\<^sub>m C"
  shows "map_of (kv_entries V') \<subseteq>\<^sub>m track pf (r, x) C"
  using assms(1,2)
proof (cases rule: kv_step_cases)
  case frame
  then show ?thesis using assms(3) by (simp add: kv_frame_def)
next
  case (put now stream k d g ev es)
  have "map_of es q = (if q = k then Some (g, d) else if q \<in> set ev then None else map_of (kv_entries V) q)" for q
    using cache_insert_lookup [of "kv_entries V" "kp_max_entries P" k "(g, d)" q] put(8) assms(2) by (simp add: kv_wf_def)
  then show ?thesis using put assms(3) by (auto simp: map_le_def dom_def)
next
  case (del req v)
  then show ?thesis using assms(3) by (auto simp: map_le_def dom_def)
qed

lemma kv_step_track_exact:
  assumes "kv_step pf P r V = Inr (x, V')" and "kv_wf V" and "kp_total_blocks P \<le> kp_max_entries P"
    and "kv_used V \<le> kp_total_blocks P"
  shows "map_of (kv_entries V') = track pf (r, x) (map_of (kv_entries V))"
  using assms(1,2)
proof (cases rule: kv_step_cases)
  case frame
  then show ?thesis by (simp add: kv_frame_def)
next
  case (put now stream k d g ev es)
  have "length (kv_entries V) < kp_max_entries P" using assms(2-4) put(5) by (simp add: kv_wf_def)
  then have "ev = []" using cache_insert_no_evict [of "kv_entries V" _ k "(g, d)"] put(8) by (metis fst_conv)
  then have "map_of es = (map_of (kv_entries V))(k \<mapsto> (g, d))"
    using cache_insert_lookup [of "kv_entries V" "kp_max_entries P" k "(g, d)"] put(8) assms(2)
    by (auto simp: kv_wf_def fun_eq_iff)
  then show ?thesis using put by simp
qed simp

text \<open>How many keys a request looks up.\<close>

fun keys_looked_up :: "request \<Rightarrow> nat" where
  "keys_looked_up (DoLookup req) = of_bool (length (lq_prefix_hash req) = 16)"
| "keys_looked_up (DoBatch req) = length (takeWhile (\<lambda>h. length h = 16) (bq_prefix_hashes req))"
| "keys_looked_up (DoGet req n) = of_bool (length (gq_prefix_hash req) = 16)"
| "keys_looked_up _ = 0"

definition kv_counted :: "kv_state \<Rightarrow> u64" where
  "kv_counted V = kv_hits V + kv_misses V"

lemma kv_counted_simps [simp]:
  "kv_counted (kv_hit V) = kv_counted V + 1" "kv_counted (kv_miss V) = kv_counted V + 1"
  "kv_find k V = (r, V1) \<Longrightarrow> kv_counted V1 = kv_counted V"
  by (auto simp: kv_counted_def kv_hit_def kv_miss_def kv_find_def split_beta)

lemma kv_batch_counted:
  "kv_counted (snd (kv_batch pf P m hs V)) = kv_counted V + of_nat (length (takeWhile (\<lambda>h. length h = 16) hs))"
proof (induction hs arbitrary: V)
  case (Cons raw hs)
  show ?case
  proof (cases "length raw = 16")
    case True
    obtain r V1 where f: "kv_find (composite_key pf m raw) V = (r, V1)" by force
    then show ?thesis using True Cons.IH by (cases r) (auto simp: parse_prefix_hash_def ac_simps)
  qed (simp add: parse_prefix_hash_def)
qed simp

lemma kv_step_counted:
  assumes "kv_step pf P r V = Inr (x, V')"
  shows "kv_counted V' = kv_counted V + of_nat (keys_looked_up r)"
proof (cases r)
  case (DoLookup req)
  obtain q V1 where f: "kv_find (composite_key pf (lq_model_id req) (lq_prefix_hash req)) V = (q, V1)" by force
  then show ?thesis
    using assms DoLookup
    by (cases q) (auto simp: kv_lookup_def parse_prefix_hash_def Let_def split: if_splits option.splits list.splits)
next
  case (DoBatch req)
  then show ?thesis
    using assms kv_batch_counted [of pf P "bq_model_id req" "bq_prefix_hashes req" V]
    by (metis keys_looked_up.simps(2) kv_step.simps(2) snd_apfst snd_conv sum.inject(2))
next
  case (DoStore now stream)
  then have "kv_store pf P stream V = Inr (x, V')" using assms by simp
  then show ?thesis using DoStore by (cases rule: kv_store_cases) (simp_all add: kv_counted_def)
next
  case (DoGet req n)
  obtain q V1 where f: "kv_find (composite_key pf (gq_model_id req) (gq_prefix_hash req)) V = (q, V1)" by force
  then show ?thesis
    using assms DoGet by (cases q) (auto simp: kv_get_def parse_prefix_hash_def split: if_splits)
next
  case (DoDelete req)
  then show ?thesis using assms by (auto simp: kv_delete_def kv_counted_def split: sum.splits option.splits)
qed (use assms in \<open>auto simp: kv_counted_def kv_tick_def\<close>)

end
