(* ===== verification/ServiceCorrect.thy ===== *)
theory ServiceCorrect
  imports KvSpec
begin

text \<open>
  The cache service implements \<open>KvSpec\<close>. \<open>svc_step\<close> runs a handler of the service for a request,
  and the task of \<open>get\<close> right after its handler. \<open>svc_inv\<close> is the invariant between index and allocator:
  every index entry has one block, which is owned, is not shared with another entry, and reads back
  verified data. \<open>kv_of\<close> is the abstraction.

  The proofs use the allocator through the interpretation \<open>ba\<close> and the index through \<open>idx\<close> only.
\<close>

section \<open>One request\<close>

definition stamp_of :: "proto_location \<Rightarrow> stamp" where
  "stamp_of x = (px_node_id x, px_generation_id x)"

fun svc_step :: "platform \<Rightarrow> request \<Rightarrow> cache_service \<Rightarrow> (reply \<times> cache_service) res" where
  "svc_step pf (DoLookup req) S =
     rbind (lookup pf req S) (\<lambda>(r, S1).
     Inr (case_sum Refused (\<lambda>m. LookupReply (lr_found m) (lr_is_local m) (map stamp_of (lr_blocks m))) r, S1))"
| "svc_step pf (DoBatch req) S =
     rbind (batch_lookup pf req S) (\<lambda>(r, S1).
     Inr (case_sum Refused (\<lambda>m. BatchReply (br_found m) (map stamp_of (br_blocks m))) r, S1))"
| "svc_step pf (DoStore now stream) S =
     rbind (store pf now stream S) (\<lambda>(r, ts, S1).
     Inr (case_sum Refused (\<lambda>m. StoreReply m (map (\<lambda>t. (pt_key t, pt_generation t)) ts)) r, S1))"
| "svc_step pf (DoGet req n) S =
     rbind (get pf req S) (\<lambda>(r, S1).
     case r of
       Inl st \<Rightarrow> Inr (Refused st, S1)
     | Inr entry \<Rightarrow> rbind (get_task pf (\<lambda>_. svc_allocator S1) entry n) (\<lambda>ms. Inr (GetReply ms, S1)))"
| "svc_step pf (DoDelete req) S =
     rbind (delete req S) (\<lambda>(r, S1). Inr (case_sum Refused DeleteReply r, S1))"
| "svc_step pf DoStats S = Inr (StatsReply (service_stats S), S)"
| "svc_step pf (DoHealth now) S = Inr (HealthReply (health now S), S)"
| "svc_step pf Tick S =
     (let st = cs_state S; m = cfg_memory (as_config st);
          (level, changed) = monitor_tick (mem_pressure_warn m) (mem_pressure_critical m) (mem_pressure_reject m)
                               (as_allocator st) (as_pressure_level st)
      in Inr (Silent, S\<lparr>cs_state := st\<lparr>as_pressure_level := level\<rparr>\<rparr>))"
| "svc_step pf (WatchUpdate R) S =
     Inr (Silent, S\<lparr>cs_state := (cs_state S)\<lparr>as_remote_index := map_option (\<lambda>_. R) (as_remote_index (cs_state S))\<rparr>\<rparr>)"

definition svc_run :: "platform \<Rightarrow> request list \<Rightarrow> cache_service \<Rightarrow> (reply list \<times> cache_service) res" where
  "svc_run pf = run_steps (svc_step pf)"

section \<open>Invariant and abstraction\<close>

definition entry_handle :: "index_entry \<Rightarrow> block_handle" where
  "entry_handle e = block_handle_of (hd (ie_blocks e))"

definition entry_value :: "platform \<Rightarrow> block_allocator \<Rightarrow> index_entry \<Rightarrow> u64 \<times> bytes" where
  "entry_value pf A e =
     (loc_generation (hd (ie_blocks e)),
      case read_verified pf A (entry_handle e) of Inr (Some d) \<Rightarrow> d | _ \<Rightarrow> [])"

definition entry_ok :: "platform \<Rightarrow> block_allocator \<Rightarrow> index_entry \<Rightarrow> bool" where
  "entry_ok pf A e \<longleftrightarrow>
     (\<exists>g d. entry_handle e \<in> ba_live A \<and> ie_blocks e = [location_of A (entry_handle e) g] \<and>
        read_verified pf A (entry_handle e) = Inr (Some d))"

definition handles_fit :: "block_allocator \<Rightarrow> bool" where
  "handles_fit A \<longleftrightarrow> mp_pool_id (ba_pool A) = 0 \<and> mp_total_size (ba_pool A) < 2 ^ 64"

definition svc_inv :: "platform \<Rightarrow> cache_service \<Rightarrow> bool" where
  "svc_inv pf S \<longleftrightarrow>
     store_inv (svc_allocator S) \<and> handles_fit (svc_allocator S) \<and> index_inv (svc_index S) \<and>
     (\<forall>x \<in> set (index_view (svc_index S)). entry_ok pf (svc_allocator S) (snd x)) \<and>
     distinct (map (\<lambda>x. entry_handle (snd x)) (index_view (svc_index S)))"

definition kv_params_of :: "cache_service \<Rightarrow> kv_params" where
  "kv_params_of S =
     \<lparr>kp_total_blocks = mp_total_blocks (ba_pool (svc_allocator S)),
      kp_block_size = mp_block_size (ba_pool (svc_allocator S)),
      kp_max_entries = bi_capacity (svc_index S), kp_node_id = svc_node_id S,
      kp_publish = (as_metadata (cs_state S) \<noteq> None), kp_start_time = cs_start_time S,
      kp_config = as_config (cs_state S)\<rparr>"

definition kv_of :: "platform \<Rightarrow> cache_service \<Rightarrow> kv_state" where
  "kv_of pf S =
     \<lparr>kv_entries = map (apsnd (entry_value pf (svc_allocator S))) (index_view (svc_index S)),
      kv_used = card (ba_live (svc_allocator S)), kv_generation = ba_generation (svc_allocator S),
      kv_level = as_pressure_level (cs_state S), kv_remote = as_remote_index (cs_state S),
      kv_hits = cs_cache_hits S, kv_misses = cs_cache_misses S, kv_evictions = cs_evictions S\<rparr>"

text \<open>A step of the service that agrees with a step of the specification, panics included.\<close>

definition refines :: "platform \<Rightarrow> kv_params \<Rightarrow> ('o \<times> cache_service) res \<Rightarrow> ('o \<times> kv_state) res \<Rightarrow> bool" where
  "refines pf P r s \<longleftrightarrow>
     (case s of
        Inl f \<Rightarrow> r = Inl f
      | Inr (x, V) \<Rightarrow> (\<exists>S. r = Inr (x, S) \<and> svc_inv pf S \<and> kv_params_of S = P \<and> kv_of pf S = V))"

lemma refines_simps [simp]:
  "refines pf P r (Inl f) \<longleftrightarrow> r = Inl f"
  "refines pf P r (Inr (x, V)) \<longleftrightarrow> (\<exists>S. r = Inr (x, S) \<and> svc_inv pf S \<and> kv_params_of S = P \<and> kv_of pf S = V)"
  by (simp_all add: refines_def)

section \<open>Handles and entries\<close>

lemma set_simps [simp]:
  "svc_allocator (set_allocator A S) = A" "svc_allocator (set_index I S) = svc_allocator S"
  "svc_index (set_index I S) = I" "svc_index (set_allocator A S) = svc_index S"
  "svc_allocator (hit S) = svc_allocator S" "svc_allocator (miss S) = svc_allocator S"
  "svc_index (hit S) = svc_index S" "svc_index (miss S) = svc_index S"
  "svc_node_id (set_index I S) = svc_node_id S" "svc_node_id (set_allocator A S) = svc_node_id S"
  "svc_node_id (hit S) = svc_node_id S" "svc_node_id (miss S) = svc_node_id S"
  "svc_allocator (S\<lparr>cs_evictions := n\<rparr>) = svc_allocator S" "svc_index (S\<lparr>cs_evictions := n\<rparr>) = svc_index S"
  "svc_node_id (S\<lparr>cs_evictions := n\<rparr>) = svc_node_id S"
  by (simp_all add: svc_allocator_def svc_index_def svc_node_id_def set_allocator_def set_index_def hit_def miss_def)

lemma handle_of_location:
  assumes "store_inv A" and "handles_fit A" and "h \<in> ba_live A"
  shows "block_handle_of (location_of A h g) = h"
proof -
  let ?p = "ba_pool A"
  obtain i where i: "h = handle_of ?p i" "i < mp_total_blocks ?p"
    using assms(3) by (auto simp: live_handles_def live_indices_def)
  have wf: "mp_total_size ?p = mp_total_blocks ?p * mp_block_size ?p" "0 < mp_total_blocks ?p"
    using assms(1) by (simp_all add: store_inv_def alloc_inv_def pool_inv_def pool_wf_def)
  have "i * mp_block_size ?p \<le> mp_total_size ?p" "mp_block_size ?p \<le> mp_total_size ?p"
    using i(2) wf by simp_all
  then have "i * mp_block_size ?p < 2 ^ 64" "mp_block_size ?p < 2 ^ 64"
    using assms(2) by (simp_all add: handles_fit_def)
  then show ?thesis
    using assms(2) by (simp add: block_handle_of_def location_of_def i(1) handle_of_def handles_fit_def unat_of_nat del: of_nat_mult)
qed

lemma location_of_geometry: "geometry A' = geometry A \<Longrightarrow> location_of A' h g = location_of A h g"
  by (simp add: geometry_def location_of_def)

lemma handles_fit_geometry: "geometry A' = geometry A \<Longrightarrow> handles_fit A' = handles_fit A"
  by (simp add: geometry_def handles_fit_def)

lemma entry_okD:
  assumes "entry_ok pf A e"
  obtains g d where "entry_handle e \<in> ba_live A" and "ie_blocks e = [location_of A (entry_handle e) g]"
    and "read_verified pf A (entry_handle e) = Inr (Some d)" and "entry_value pf A e = (g, d)"
proof -
  obtain g d where *: "entry_handle e \<in> ba_live A" "ie_blocks e = [location_of A (entry_handle e) g]"
      "read_verified pf A (entry_handle e) = Inr (Some d)"
    using assms by (auto simp: entry_ok_def)
  then have "entry_value pf A e = (g, d)" unfolding entry_value_def *(2) *(3) by (simp add: location_of_def)
  then show ?thesis using that * by blast
qed

lemma entry_ok_keep:
  assumes "entry_ok pf A e" and "geometry A' = geometry A" and "entry_handle e \<in> ba_live A'"
    and "read_verified pf A' (entry_handle e) = read_verified pf A (entry_handle e)"
  shows "entry_ok pf A' e" and "entry_value pf A' e = entry_value pf A e"
proof -
  obtain g d where "ie_blocks e = [location_of A (entry_handle e) g]" "read_verified pf A (entry_handle e) = Inr (Some d)"
    using entry_okD [OF assms(1)] by metis
  then show "entry_ok pf A' e"
    unfolding entry_ok_def assms(4) location_of_geometry [OF assms(2)] using assms(3) by blast
  show "entry_value pf A' e = entry_value pf A e" by (simp add: entry_value_def assms(4))
qed

lemma svc_invD:
  assumes "svc_inv pf S"
  shows "store_inv (svc_allocator S)" and "handles_fit (svc_allocator S)" and "index_inv (svc_index S)"
    and "x \<in> set (index_view (svc_index S)) \<Longrightarrow> entry_ok pf (svc_allocator S) (snd x)"
    and "distinct (map (\<lambda>x. entry_handle (snd x)) (index_view (svc_index S)))"
  using assms by (simp_all add: svc_inv_def)

section \<open>Lookups\<close>

lemma counter_simps [simp]:
  "svc_inv pf (hit S) = svc_inv pf S" "svc_inv pf (miss S) = svc_inv pf S"
  "kv_params_of (hit S) = kv_params_of S" "kv_params_of (miss S) = kv_params_of S"
  "kv_of pf (hit S) = kv_hit (kv_of pf S)" "kv_of pf (miss S) = kv_miss (kv_of pf S)"
  by (simp_all add: svc_inv_def kv_params_of_def kv_of_def kv_hit_def kv_miss_def)
     (simp_all add: hit_def miss_def)

lemma set_index_state [simp]:
  "as_remote_index (cs_state (set_index I S)) = as_remote_index (cs_state S)"
  "as_metadata (cs_state (set_index I S)) = as_metadata (cs_state S)"
  "as_metadata (cs_state (set_allocator A S)) = as_metadata (cs_state S)"
  "as_pressure_level (cs_state (set_index I S)) = as_pressure_level (cs_state S)"
  by (simp_all add: set_index_def set_allocator_def)

lemma find_ok:
  assumes "svc_inv pf S"
  obtains r I where "index_lookup k (svc_index S) = Inr (r, I)" and "svc_inv pf (set_index I S)"
    and "kv_params_of (set_index I S) = kv_params_of S"
    and "kv_find k (kv_of pf S) = (map_option (entry_value pf (svc_allocator S)) r, kv_of pf (set_index I S))"
    and "\<And>e. r = Some e \<Longrightarrow> entry_ok pf (svc_allocator S) e"
proof -
  let ?xs = "index_view (svc_index S)"
  note inv = svc_invD [OF assms]
  obtain I where I: "index_lookup k (svc_index S) = Inr (fst (cache_lookup k ?xs), I)" "index_inv I"
      "bi_capacity I = bi_capacity (svc_index S)" "index_view I = snd (cache_lookup k ?xs)"
    using idx.lk_ok [OF inv(3)] by blast
  have "entry_ok pf (svc_allocator S) e" if "fst (cache_lookup k ?xs) = Some e" for e
  proof -
    have "map_of ?xs k = Some e" using that by (auto simp: cache_lookup_def split: option.splits)
    from inv(4) [OF map_of_SomeD [OF this]] show ?thesis by simp
  qed
  moreover have "svc_inv pf (set_index I S)"
    using inv(1,2) inv(4) I(2,4) cache_lookup_set [of k ?xs] cache_lookup_distinct [OF inv(5), of k]
    unfolding svc_inv_def by auto
  moreover have "kv_params_of (set_index I S) = kv_params_of S"
    using I(3) by (simp add: kv_params_of_def) (simp add: set_index_def)
  moreover have "kv_find k (kv_of pf S) =
      (map_option (entry_value pf (svc_allocator S)) (fst (cache_lookup k ?xs)), kv_of pf (set_index I S))"
    using I(4) by (simp add: kv_find_def kv_of_def cache_lookup_apsnd split_beta) (simp add: set_index_def)
  ultimately show ?thesis using that [OF I(1)] by blast
qed

lemma local_stamp:
  "entry_ok pf A e \<Longrightarrow> entry_value pf A e = (g, d) \<Longrightarrow>
     map (stamp_of \<circ> local_location S) (ie_blocks e) = [(svc_node_id S, g)]"
  by (erule entry_okD) (simp add: stamp_of_def local_location_def location_of_def)

lemma kv_params_sel [simp]:
  "kp_node_id (kv_params_of S) = svc_node_id S" "kp_block_size (kv_params_of S) = mp_block_size (ba_pool (svc_allocator S))"
  "kp_total_blocks (kv_params_of S) = mp_total_blocks (ba_pool (svc_allocator S))"
  "kp_max_entries (kv_params_of S) = bi_capacity (svc_index S)"
  by (simp_all add: kv_params_of_def)

lemma lookup_refines:
  assumes "svc_inv pf S"
  shows "refines pf (kv_params_of S) (svc_step pf (DoLookup req) S) (kv_step pf (kv_params_of S) (DoLookup req) (kv_of pf S))"
proof (cases "parse_prefix_hash (lq_prefix_hash req)")
  case (Inl st)
  then show ?thesis using assms by (simp add: kv_lookup_def lookup_def)
next
  case (Inr h)
  let ?k = "composite_key pf (lq_model_id req) h"
  obtain r I where f: "index_lookup ?k (svc_index S) = Inr (r, I)" "svc_inv pf (set_index I S)"
      "kv_params_of (set_index I S) = kv_params_of S"
      "kv_find ?k (kv_of pf S) = (map_option (entry_value pf (svc_allocator S)) r, kv_of pf (set_index I S))"
      "\<And>e. r = Some e \<Longrightarrow> entry_ok pf (svc_allocator S) e"
    using find_ok [OF assms] by blast
  have rem: "kv_remote (kv_of pf S) = as_remote_index (cs_state S)" by (simp add: kv_of_def)
  show ?thesis
  proof (cases r)
    case None
    then show ?thesis
      using Inr f(1-4) rem
      by (simp add: kv_lookup_def lookup_def Let_def stamp_of_def split: option.split list.split)
  next
    case (Some e)
    obtain g d where "entry_value pf (svc_allocator S) e = (g, d)" by force
    then show ?thesis
      using Inr f(1-4) Some local_stamp [OF f(5)]
      by (simp add: kv_lookup_def lookup_def Let_def)
  qed
qed

lemma batch_refines:
  assumes "svc_inv pf S"
  shows "refines pf (kv_params_of S) 
     (rbind (batch_loop pf m hs fs ls S) (\<lambda>(r, S1). Inr (map_sum id (\<lambda>x. (br_found x, map stamp_of (br_blocks x))) r, S1)))
     (Inr (apfst (map_sum id (\<lambda>(gs, ms). (fs @ gs, map stamp_of ls @ ms))) (kv_batch pf (kv_params_of S) m hs (kv_of pf S))))"
  using assms
proof (induction hs arbitrary: fs ls S)
  case Nil
  then show ?case by simp
next
  case (Cons raw hs)
  show ?case
  proof (cases "parse_prefix_hash raw")
    case (Inl st)
    then show ?thesis using Cons.prems by simp
  next
    case (Inr h)
    let ?k = "composite_key pf m h"
    obtain r I where f: "index_lookup ?k (svc_index S) = Inr (r, I)" "svc_inv pf (set_index I S)"
        "kv_params_of (set_index I S) = kv_params_of S"
        "kv_find ?k (kv_of pf S) = (map_option (entry_value pf (svc_allocator S)) r, kv_of pf (set_index I S))"
        "\<And>e. r = Some e \<Longrightarrow> entry_ok pf (svc_allocator S) e"
      using find_ok [OF Cons.prems] by blast
    show ?thesis
    proof (cases r)
      case None
      then show ?thesis
        using Cons.IH [of "miss (set_index I S)" "fs @ [False]" ls] Inr f(1-4)
        by (simp add: Let_def apfst_def map_prod_def split_beta sum.map_comp comp_def)
    next
      case (Some e)
      obtain g d where "entry_value pf (svc_allocator S) e = (g, d)" by force
      then show ?thesis
        using Cons.IH [of "hit (set_index I S)" "fs @ [True]" "ls @ map (local_location (set_index I S)) (ie_blocks e)"]
          Inr f(1-4) Some local_stamp [OF f(5)]
        by (simp add: Let_def apfst_def map_prod_def split_beta sum.map_comp comp_def)
    qed
  qed
qed

section \<open>Stores\<close>

lemma entries_keep:
  assumes "\<forall>x \<in> set xs. entry_ok pf A (snd x) \<and> entry_handle (snd x) \<in> ba_live A'" and "geometry A' = geometry A"
    and "\<forall>h \<in> ba_live A. read_verified pf A' h = read_verified pf A h"
  shows "\<forall>x \<in> set xs. entry_ok pf A' (snd x)"
    and "map (apsnd (entry_value pf A')) xs = map (apsnd (entry_value pf A)) xs"
proof -
  have "entry_ok pf A' (snd x) \<and> entry_value pf A' (snd x) = entry_value pf A (snd x)" if "x \<in> set xs" for x
  proof -
    have ok: "entry_ok pf A (snd x)" "entry_handle (snd x) \<in> ba_live A'" using assms(1) that by auto
    have "entry_handle (snd x) \<in> ba_live A" using entry_okD [OF ok(1)] by metis
    then show ?thesis using entry_ok_keep [OF ok(1) assms(2) ok(2)] assms(3) by blast
  qed
  then show "\<forall>x \<in> set xs. entry_ok pf A' (snd x)"
    and "map (apsnd (entry_value pf A')) xs = map (apsnd (entry_value pf A)) xs"
    by (auto simp: apsnd_def map_prod_def split_beta)
qed

lemma new_entry:
  assumes "store_inv A" and "handles_fit A" and "geometry A = geometry A0" and "h \<in> ba_live A"
    and "read_verified pf A h = Inr (Some d)" and "ie_blocks e = [location_of A0 h g]"
  shows "entry_handle e = h" and "entry_ok pf A e" and "entry_value pf A e = (g, d)"
proof -
  have loc: "location_of A0 h g = location_of A h g" using location_of_geometry [OF assms(3)] by simp
  show eh: "entry_handle e = h"
    using handle_of_location [OF assms(1,2,4), of g] by (simp add: entry_handle_def assms(6) loc)
  show "entry_ok pf A e" unfolding entry_ok_def eh using assms(4,5,6) loc by auto
  show "entry_value pf A e = (g, d)" using assms(5,6) by (simp add: entry_value_def eh location_of_def)
qed

lemma put_ok:
  assumes "svc_inv pf S" and "length d \<le> ba_max_data (svc_allocator S)"
    and "card (ba_live (svc_allocator S)) < mp_total_blocks (ba_pool (svc_allocator S))"
  defines "g \<equiv> ba_generation (svc_allocator S)"
  obtains h A I ev es where "allocate_and_write pf (svc_allocator S) d = Inr (Some (location_of (svc_allocator S) h g, h), A)"
    and "index_insert k [location_of (svc_allocator S) h g] t (svc_index S) = Inr (ev, I)"
    and "svc_inv pf (set_index I (set_allocator A S))"
    and "kv_params_of (set_index I (set_allocator A S)) = kv_params_of S"
    and "cache_insert (bi_capacity (svc_index S)) k (g, d) (kv_entries (kv_of pf S)) = (ev, es)"
    and "kv_of pf (set_index I (set_allocator A S)) =
      (kv_of pf S)\<lparr>kv_entries := es, kv_used := kv_used (kv_of pf S) + 1, kv_generation := g + 1\<rparr>"
proof -
  let ?xs = "index_view (svc_index S)" and ?c = "bi_capacity (svc_index S)" and ?A0 = "svc_allocator S"
  note inv = svc_invD [OF assms(1)]
  obtain h A where w: "allocate_and_write pf ?A0 d = Inr (Some (location_of ?A0 h g, h), A)" "store_inv A"
      "h \<notin> ba_live ?A0" "ba_live A = insert h (ba_live ?A0)" "geometry A = geometry ?A0" "ba_generation A = g + 1"
      "read_verified pf A h = Inr (Some d)" "\<forall>h' \<in> ba_live ?A0. read_verified pf A h' = read_verified pf ?A0 h'"
    using ba.wr_Some [OF inv(1) assms(2,3), of pf] unfolding g_def by blast
  define e where "e = \<lparr>ie_blocks = [location_of ?A0 h g], ie_created_at = t\<rparr>"
  obtain I where I: "index_put k e (svc_index S) = Inr (fst (cache_insert ?c k e ?xs), I)" "index_inv I"
      "bi_capacity I = ?c" "index_view I = snd (cache_insert ?c k e ?xs)"
    using idx.ins_ok [OF inv(3)] by blast
  define S' where "S' = set_index I (set_allocator A S)"
  have sel: "svc_allocator S' = A" "svc_index S' = I" by (simp_all add: S'_def)
  have fit: "handles_fit A" using inv(2) handles_fit_geometry [OF w(5)] by simp
  have h: "h \<in> ba_live A" using w(4) by simp
  have "ie_blocks e = [location_of ?A0 h g]" by (simp add: e_def)
  note new = new_entry [OF w(2) fit w(5) h w(7) this]
  have live: "entry_handle (snd x) \<in> ba_live ?A0" if "x \<in> set ?xs" for x using entry_okD [OF inv(4) [OF that]] by metis
  then have "\<forall>x \<in> set ?xs. entry_ok pf ?A0 (snd x) \<and> entry_handle (snd x) \<in> ba_live A" using inv(4) w(4) by blast
  note keep = entries_keep [OF this w(5,8)]
  have "entry_handle (snd (k, e)) \<notin> (\<lambda>x. entry_handle (snd x)) ` set ?xs" using w(3) new(1) live by force
  then have "distinct (map (\<lambda>x. entry_handle (snd x)) (index_view I))"
    unfolding I(4) by (rule cache_insert_distinct [OF inv(5)])
  moreover have "entry_ok pf A (snd x)" if "x \<in> set (index_view I)" for x
    using that keep(1) new(2) cache_insert_set [of ?c k e ?xs] unfolding I(4) by auto
  ultimately have inv': "svc_inv pf S'" using w(2) fit I(2) unfolding svc_inv_def sel by blast
  have pars: "kv_params_of S' = kv_params_of S"
    using w(5) I(3) by (simp add: kv_params_of_def S'_def geometry_def) (simp add: set_index_def set_allocator_def)
  have "cache_insert ?c k (g, d) (kv_entries (kv_of pf S)) = (fst (cache_insert ?c k e ?xs), kv_entries (kv_of pf S'))"
    using cache_insert_apsnd [of ?c k "entry_value pf A" e ?xs] keep(2) new(3) I(4)
    by (simp add: kv_of_def sel map_prod_def split_beta)
  moreover have "kv_of pf S' = (kv_of pf S)\<lparr>kv_entries := kv_entries (kv_of pf S'),
       kv_used := kv_used (kv_of pf S) + 1, kv_generation := g + 1\<rparr>"
    using w(3,4,6) by (simp add: kv_of_def sel) (simp add: S'_def set_index_def set_allocator_def)
  ultimately show ?thesis
    using that [OF w(1) _ inv' [unfolded S'_def] pars [unfolded S'_def]] I(1)
    unfolding S'_def index_put_def e_def by simp
qed

lemma evictions_simps [simp]:
  "svc_inv pf (S\<lparr>cs_evictions := n\<rparr>) = svc_inv pf S"
  "kv_params_of (S\<lparr>cs_evictions := n\<rparr>) = kv_params_of S"
  "kv_of pf (S\<lparr>cs_evictions := n\<rparr>) = (kv_of pf S)\<lparr>kv_evictions := n\<rparr>"
  "cs_evictions (set_index I S) = cs_evictions S" "cs_evictions (set_allocator A S) = cs_evictions S"
  by (simp_all add: svc_inv_def kv_params_of_def kv_of_def)
     (simp_all add: set_index_def set_allocator_def)

lemma kv_of_sel [simp]:
  "kv_level (kv_of pf S) = as_pressure_level (cs_state S)" "kv_used (kv_of pf S) = card (ba_live (svc_allocator S))"
  "kv_generation (kv_of pf S) = ba_generation (svc_allocator S)" "kv_evictions (kv_of pf S) = cs_evictions S"
  by (simp_all add: kv_of_def)

lemma set_allocator_same [simp]: "set_allocator (svc_allocator S) S = S"
  by (simp add: set_allocator_def svc_allocator_def)

text \<open>What \<open>store\<close> does after the stream has been read.\<close>

definition store_data ::
    "platform \<Rightarrow> u64 option \<Rightarrow> hash16 \<Rightarrow> bytes \<Rightarrow> cache_service \<Rightarrow>
     ((status + store_response) \<times> publish_task list \<times> cache_service) res" where
  "store_data pf now k d S =
     rbind (allocate_and_write pf (svc_allocator S) d) (\<lambda>(r, A).
     case r of
       None \<Rightarrow> Inr (Inl (Status ResourceExhausted ''memory pool exhausted''), [], set_allocator A S)
     | Some (loc, handle) \<Rightarrow>
         rbind (index_insert k [loc] (monotonic_now now) (svc_index S)) (\<lambda>(evicted, I).
         let S2 = set_index I (set_allocator A S) in
         Inr (Inr \<lparr>sr_success = True, sr_error_message = [], sr_generation_id = loc_generation loc\<rparr>,
              (case as_metadata (cs_state S) of
                 None \<Rightarrow> []
               | Some _ \<Rightarrow> [\<lparr>pt_key = k, pt_offset = loc_offset loc, pt_size = loc_block_size loc,
                             pt_generation = loc_generation loc\<rparr>]),
              S2\<lparr>cs_evictions := cs_evictions S2 + of_nat (length evicted)\<rparr>)))"

lemma store_split:
  "store pf now stream S =
     (if as_pressure_level (cs_state S) \<ge> PRESSURE_REJECT
      then Inr (Inl (Status ResourceExhausted
             (''memory pressure too high '' @ [CHR 0xE2, CHR 0x80, CHR 0x94] @ '' store rejected'')), [], S)
      else rbind (store_args pf stream) (\<lambda>a. case a of Inl st \<Rightarrow> Inr (Inl st, [], S) | Inr (k, d) \<Rightarrow> store_data pf now k d S))"
  unfolding store_def store_args_def store_data_def Let_def
  by (simp cong: option.case_cong split: sum.split)

lemma store_data_refines:
  assumes "svc_inv pf S"
  shows "refines pf (kv_params_of S)
     (rbind (store_data pf now k d S) (\<lambda>(r, ts, S1).
        Inr (case_sum Refused (\<lambda>m. StoreReply m (map (\<lambda>t. (pt_key t, pt_generation t)) ts)) r, S1)))
     (Inr (kv_put (kv_params_of S) k d (kv_of pf S)))"
proof (cases "length d \<le> ba_max_data (svc_allocator S) \<and>
    card (ba_live (svc_allocator S)) < mp_total_blocks (ba_pool (svc_allocator S))")
  case False
  note inv = svc_invD [OF assms]
  have full: "ba_max_data (svc_allocator S) < length d \<or>
      card (ba_live (svc_allocator S)) = mp_total_blocks (ba_pool (svc_allocator S))"
    using False ba.live_ok [OF inv(1)] by linarith
  then have "allocate_and_write pf (svc_allocator S) d = Inr (None, svc_allocator S)"
    using ba.wr_None [OF inv(1)] by blast
  then have "store_data pf now k d S = Inr (Inl (Status ResourceExhausted ''memory pool exhausted''), [], S)"
    by (simp add: store_data_def)
  moreover have "kv_put (kv_params_of S) k d (kv_of pf S) =
      (Refused (Status ResourceExhausted ''memory pool exhausted''), kv_of pf S)"
    unfolding kv_put_def kv_params_sel kv_of_sel using full by (rule if_P)
  ultimately show ?thesis using assms by simp
next
  case True
  define g where "g = ba_generation (svc_allocator S)"
  obtain h A I ev es where p: "allocate_and_write pf (svc_allocator S) d = Inr (Some (location_of (svc_allocator S) h g, h), A)"
      "index_insert k [location_of (svc_allocator S) h g] (monotonic_now now) (svc_index S) = Inr (ev, I)"
      "svc_inv pf (set_index I (set_allocator A S))" "kv_params_of (set_index I (set_allocator A S)) = kv_params_of S"
      "cache_insert (bi_capacity (svc_index S)) k (g, d) (kv_entries (kv_of pf S)) = (ev, es)"
      "kv_of pf (set_index I (set_allocator A S)) =
        (kv_of pf S)\<lparr>kv_entries := es, kv_used := kv_used (kv_of pf S) + 1, kv_generation := g + 1\<rparr>"
    by (rule put_ok [OF assms conjunct1 [OF True] conjunct2 [OF True], of k "monotonic_now now", folded g_def], rule that)
  have pub: "kp_publish (kv_params_of S) \<longleftrightarrow> as_metadata (cs_state S) \<noteq> None" by (simp add: kv_params_of_def)
  have room: "\<not> (ba_max_data (svc_allocator S) < length d \<or>
      card (ba_live (svc_allocator S)) = mp_total_blocks (ba_pool (svc_allocator S)))" using True by simp
  have gen: "loc_generation (location_of (svc_allocator S) h g) = g" by (simp add: location_of_def)
  show ?thesis
    unfolding store_data_def kv_put_def kv_params_sel kv_of_sel if_not_P [OF room] p(1) g_def [symmetric]
    using p(2-6) pub gen
    by (cases "as_metadata (cs_state S)") (simp_all add: Let_def)
qed

lemma store_refines:
  assumes "svc_inv pf S"
  shows "refines pf (kv_params_of S) (svc_step pf (DoStore now stream) S)
     (kv_step pf (kv_params_of S) (DoStore now stream) (kv_of pf S))"
proof (cases "store_args pf stream")
  case (Inl f)
  then show ?thesis using assms by (simp add: store_split kv_store_def)
next
  case (Inr a)
  show ?thesis
  proof (cases a)
    case (Inl st)
    then show ?thesis using assms \<open>store_args pf stream = Inr a\<close> by (simp add: store_split kv_store_def)
  next
    case (Inr kd)
    obtain k d where kd: "kd = (k, d)" by force
    then show ?thesis
      using assms Inr \<open>store_args pf stream = Inr a\<close> store_data_refines [OF assms, of now k d]
      by (simp add: store_split kv_store_def)
  qed
qed

section \<open>Reads and deletes\<close>

lemma get_task_ok:
  assumes "read_verified pf (As 0) (entry_handle e) = Inr (Some d)" and "ie_blocks e = [loc]"
  shows "get_task pf As e n =
    Inr (take n [Inr (GetHead \<lparr>gh_total_size = loc_block_size loc, gh_num_blocks = 1, gh_generation_id = loc_generation loc\<rparr>),
                 Inr (GetData d)])"
proof -
  have "unat (loc_block_size loc) < 2 ^ 64" using unsigned_less [of "loc_block_size loc", where ?'a = nat] by simp
  then show ?thesis
    using assms by (cases n; cases "n - 1") (auto simp: get_task_def entry_handle_def Let_def)
qed

lemma get_refines:
  assumes "svc_inv pf S"
  shows "refines pf (kv_params_of S) (svc_step pf (DoGet req n) S) (kv_step pf (kv_params_of S) (DoGet req n) (kv_of pf S))"
proof (cases "parse_prefix_hash (gq_prefix_hash req)")
  case (Inl st)
  then show ?thesis using assms by (simp add: kv_get_def get_def)
next
  case (Inr h)
  let ?k = "composite_key pf (gq_model_id req) h"
  obtain r I where f: "index_lookup ?k (svc_index S) = Inr (r, I)" "svc_inv pf (set_index I S)"
      "kv_params_of (set_index I S) = kv_params_of S"
      "kv_find ?k (kv_of pf S) = (map_option (entry_value pf (svc_allocator S)) r, kv_of pf (set_index I S))"
      "\<And>e. r = Some e \<Longrightarrow> entry_ok pf (svc_allocator S) e"
    using find_ok [OF assms] by blast
  show ?thesis
  proof (cases r)
    case None
    then show ?thesis using Inr f(1-4) by (simp add: kv_get_def get_def Let_def)
  next
    case (Some e)
    obtain g d where e: "ie_blocks e = [location_of (svc_allocator S) (entry_handle e) g]"
        "read_verified pf (svc_allocator S) (entry_handle e) = Inr (Some d)" "entry_value pf (svc_allocator S) e = (g, d)"
      using entry_okD [OF f(5) [OF Some]] by metis
    have "get_task pf (\<lambda>_. svc_allocator S) e n = Inr (take n (kv_messages (kv_params_of S) g d))"
      unfolding get_task_ok [of pf "\<lambda>_. svc_allocator S", OF e(2,1)] by (simp add: kv_messages_def location_of_def)
    then show ?thesis using Inr f(1-4) Some e(3) by (simp add: kv_get_def get_def Let_def)
  qed
qed

lemma remove_ok:
  assumes "svc_inv pf S" and "map_of (index_view (svc_index S)) k = Some e"
  obtains I A where "index_remove k (svc_index S) = Inr (Some e, I)" and "length (ie_blocks e) = 1"
    and "free_blocks (ie_blocks e) (svc_allocator S) = Inr A" and "svc_inv pf (set_allocator A (set_index I S))"
    and "kv_params_of (set_allocator A (set_index I S)) = kv_params_of S"
    and "kv_of pf (set_allocator A (set_index I S)) =
      (kv_of pf S)\<lparr>kv_entries := drop_key k (kv_entries (kv_of pf S)), kv_used := kv_used (kv_of pf S) - 1\<rparr>"
proof -
  let ?xs = "index_view (svc_index S)" and ?A0 = "svc_allocator S"
  note inv = svc_invD [OF assms(1)]
  have mem: "(k, e) \<in> set ?xs" using assms(2) by (rule map_of_SomeD)
  obtain g d where e: "entry_handle e \<in> ba_live ?A0" "ie_blocks e = [location_of ?A0 (entry_handle e) g]"
    using entry_okD [OF inv(4) [OF mem]] by (metis snd_conv)
  obtain A where A: "ba_deallocate ?A0 (entry_handle e) = Inr A" "store_inv A" "ba_live A = ba_live ?A0 - {entry_handle e}"
      "geometry A = geometry ?A0" "ba_generation A = ba_generation ?A0" "\<forall>h. read_verified pf A h = read_verified pf ?A0 h"
    using ba.de_ok [OF inv(1) e(1), of pf] by blast
  obtain I where I: "index_remove k (svc_index S) = Inr (Some e, I)" "index_inv I" "bi_capacity I = bi_capacity (svc_index S)"
      "index_view I = drop_key k ?xs"
    using idx.rm_ok [OF inv(3), of k] assms(2) by (auto simp: cache_remove_def)
  define S' where "S' = set_allocator A (set_index I S)"
  have sel: "svc_allocator S' = A" "svc_index S' = I" by (simp_all add: S'_def)
  have other: "entry_handle (snd x) \<noteq> entry_handle e" if "x \<in> set (drop_key k ?xs)" for x
    using that mem inv(5) by (auto simp: distinct_map inj_on_def)
  have "\<forall>x \<in> set (drop_key k ?xs). entry_ok pf ?A0 (snd x) \<and> entry_handle (snd x) \<in> ba_live A"
  proof
    fix x assume x: "x \<in> set (drop_key k ?xs)"
    then have ok: "entry_ok pf ?A0 (snd x)" using inv(4) by simp
    then have "entry_handle (snd x) \<in> ba_live ?A0" by (rule entry_okD)
    then show "entry_ok pf ?A0 (snd x) \<and> entry_handle (snd x) \<in> ba_live A" using ok other [OF x] A(3) by simp
  qed
  note keep = entries_keep [OF this A(4)]
  have "svc_inv pf S'"
    using A(2,6) handles_fit_geometry [OF A(4)] inv(2) I(2,4) keep(1) distinct_map_drop_key [OF inv(5)]
    unfolding svc_inv_def sel by simp
  moreover have "kv_params_of S' = kv_params_of S"
    using A(4) I(3) by (simp add: kv_params_of_def S'_def geometry_def) (simp add: set_index_def set_allocator_def)
  moreover have "kv_of pf S' = (kv_of pf S)\<lparr>kv_entries := drop_key k (kv_entries (kv_of pf S)), kv_used := kv_used (kv_of pf S) - 1\<rparr>"
    using keep(2) A(3,5,6) e(1) I(4)
    by (simp add: kv_of_def sel drop_key_apsnd card_Diff_singleton) (simp add: S'_def set_index_def set_allocator_def)
  moreover have "free_blocks (ie_blocks e) ?A0 = Inr A"
    using A(1) handle_of_location [OF inv(1,2) e(1), of g] by (subst e(2)) simp
  moreover have "length (ie_blocks e) = 1" using e(2) by (metis length_Cons list.size(3) One_nat_def)
  ultimately show ?thesis using that [OF I(1)] by (simp add: S'_def)
qed

lemma delete_refines:
  assumes "svc_inv pf S"
  shows "refines pf (kv_params_of S) (svc_step pf (DoDelete req) S) (kv_step pf (kv_params_of S) (DoDelete req) (kv_of pf S))"
proof (cases "parse_prefix_hash (dq_prefix_hash req)")
  case (Inl st)
  then show ?thesis using assms by (simp add: kv_delete_def delete_def)
next
  case (Inr h)
  let ?xs = "index_view (svc_index S)"
  have es: "map_of (kv_entries (kv_of pf S)) h = map_option (entry_value pf (svc_allocator S)) (map_of ?xs h)"
    by (simp add: kv_of_def map_of_apsnd)
  show ?thesis
  proof (cases "map_of ?xs h")
    case None
    have "index_remove h (svc_index S) = Inr (None, svc_index S)"
      using None map_of_view [OF svc_invD(3) [OF assms], of h] by (simp add: index_remove_def)
    moreover have "set_index (svc_index S) S = S" by (simp add: set_index_def svc_index_def)
    ultimately show ?thesis using Inr None es assms by (simp add: kv_delete_def delete_def Let_def)
  next
    case (Some e)
    then show ?thesis
      using remove_ok [OF assms Some] Inr es by (fastforce simp: kv_delete_def delete_def Let_def)
  qed
qed

section \<open>The refinement\<close>

lemma used_blocks:
  "svc_inv pf S \<Longrightarrow> ps_used_blocks (ba_stats (svc_allocator S)) = card (ba_live (svc_allocator S))"
  using card_live_handles [of "ba_pool (svc_allocator S)"]
  by (simp add: svc_inv_def store_inv_def alloc_inv_def ba_stats_def stats_def Let_def)

lemma step_refines_kv:
  assumes "svc_inv pf S"
  shows "refines pf (kv_params_of S) (svc_step pf r S) (kv_step pf (kv_params_of S) r (kv_of pf S))"
proof (cases r)
  case (DoBatch req)
  obtain x V where b: "kv_batch pf (kv_params_of S) (bq_model_id req) (bq_prefix_hashes req) (kv_of pf S) = (x, V)"
    by force
  have x: "map_sum id (\<lambda>(gs, ms). ([] @ gs, map stamp_of [] @ ms)) x = x" by (cases x) auto
  obtain y S1 where "batch_loop pf (bq_model_id req) (bq_prefix_hashes req) [] [] S = Inr (y, S1)" "svc_inv pf S1"
      "map_sum id (\<lambda>x. (br_found x, map stamp_of (br_blocks x))) y = x" "kv_params_of S1 = kv_params_of S" "kv_of pf S1 = V"
    using batch_refines [OF assms, of "bq_model_id req" "bq_prefix_hashes req" "[]" "[]"]
    unfolding b apfst_conv x refines_simps by auto
  then show ?thesis using DoBatch b by (cases y) (auto simp: batch_lookup_def)
next
  case DoStats
  have "mp_total_size (ba_pool (svc_allocator S)) =
      mp_total_blocks (ba_pool (svc_allocator S)) * mp_block_size (ba_pool (svc_allocator S))"
    using assms by (simp add: svc_inv_def store_inv_def alloc_inv_def pool_inv_def pool_wf_def)
  then have "kv_stats (kv_params_of S) (kv_of pf S) = service_stats S"
    using used_blocks [OF assms]
    by (simp add: kv_stats_def service_stats_def Let_def ba_stats_def stats_def kv_of_def)
  then show ?thesis using assms DoStats by simp
next
  case (DoHealth now)
  then show ?thesis using assms by (simp add: kv_health_def health_def kv_params_of_def)
next
  case Tick
  have "pool_usage (ba_stats (svc_allocator S)) = kv_usage (kv_params_of S) (kv_of pf S)"
    using used_blocks [OF assms] by (simp add: pool_usage_def kv_usage_def ba_stats_def stats_def Let_def)
  then show ?thesis
    using assms Tick
    by (simp add: Let_def monitor_tick_def kv_tick_def svc_inv_def kv_params_of_def kv_of_def svc_allocator_def
        svc_index_def svc_node_id_def)
next
  case (WatchUpdate R)
  then show ?thesis
    using assms by (simp add: svc_inv_def kv_params_of_def kv_of_def svc_allocator_def svc_index_def svc_node_id_def)
qed (use assms lookup_refines store_refines get_refines delete_refines in \<open>simp_all only:\<close>)

lemma run_refines_kv:
  assumes "svc_inv pf S"
  shows "refines pf (kv_params_of S) (svc_run pf rs S) (kv_run pf (kv_params_of S) rs (kv_of pf S))"
  using assms
proof (induction rs arbitrary: S)
  case Nil
  then show ?case by (simp add: svc_run_def kv_run_def)
next
  case (Cons r rs)
  show ?case
  proof (cases "kv_step pf (kv_params_of S) r (kv_of pf S)")
    case (Inl f)
    then show ?thesis using step_refines_kv [OF Cons.prems, of r] by (simp add: svc_run_def kv_run_def)
  next
    case (Inr xV)
    obtain x V where xV: "xV = (x, V)" by force
    obtain S1 where S1: "svc_step pf r S = Inr (x, S1)" "svc_inv pf S1" "kv_params_of S1 = kv_params_of S" "kv_of pf S1 = V"
      using step_refines_kv [OF Cons.prems, of r] Inr xV by auto
    show ?thesis
      using Cons.IH [OF S1(2)] S1 Inr xV
      by (cases "kv_run pf (kv_params_of S) rs V") (auto simp: svc_run_def kv_run_def)
  qed
qed

end
