(* ===== verification/ServiceProps.thy ===== *)
theory ServiceProps
  imports ServiceCorrect
begin

text \<open>
  What clients of the cache service can rely on, and what they cannot: consequences of the
  refinement of \<open>ServiceCorrect\<close>, and properties of single handlers. All statements are about the
  handlers of \<^verbatim>\<open>crates/cmx-agent/src/grpc.rs\<close>, run by \<^const>\<open>svc_step\<close>.
\<close>

section \<open>From steps to runs\<close>

lemma svc_inv_kv_wf:
  assumes "svc_inv pf S"
  shows "kv_wf (kv_of pf S)" and "length (index_view (svc_index S)) = index_len (svc_index S)"
    and "kv_used (kv_of pf S) \<le> kp_total_blocks (kv_params_of S)"
proof -
  let ?xs = "index_view (svc_index S)"
  note inv = svc_invD [OF assms]
  have "(\<lambda>x. entry_handle (snd x)) ` set ?xs \<subseteq> ba_live (svc_allocator S)"
    using inv(4) by (auto simp: entry_ok_def)
  then have "card ((\<lambda>x. entry_handle (snd x)) ` set ?xs) \<le> card (ba_live (svc_allocator S))"
    using ba.live_ok [OF inv(1)] by (intro card_mono) simp_all
  then have "length ?xs \<le> card (ba_live (svc_allocator S))"
    using distinct_card [OF inv(5)] by simp
  then show "kv_wf (kv_of pf S)"
    using idx.distinct_view [OF inv(3)] by (simp add: kv_wf_def kv_of_def comp_def)
  show "length ?xs = index_len (svc_index S)" by (rule view_len [OF inv(3)])
  show "kv_used (kv_of pf S) \<le> kp_total_blocks (kv_params_of S)" using ba.live_ok [OF inv(1)] by simp
qed

lemma step_kv:
  assumes "svc_inv pf S" and "svc_step pf r S = Inr (x, S')"
  shows "svc_inv pf S'" and "kv_params_of S' = kv_params_of S"
    and "kv_step pf (kv_params_of S) r (kv_of pf S) = Inr (x, kv_of pf S')"
proof -
  have "refines pf (kv_params_of S) (Inr (x, S')) (kv_step pf (kv_params_of S) r (kv_of pf S))"
    using step_refines_kv [OF assms(1), of r] assms(2) by simp
  then show "svc_inv pf S'" "kv_params_of S' = kv_params_of S"
      "kv_step pf (kv_params_of S) r (kv_of pf S) = Inr (x, kv_of pf S')"
    by (auto simp: refines_def split: sum.splits prod.splits)
qed

text \<open>Rule of induction for runs: a relation between the trace so far and the state.\<close>

lemma svc_run_induct [consumes 2, case_names start step]:
  assumes "svc_inv pf S" and "svc_run pf rs S = Inr (os, S')"
    and "Q [] S"
    and "\<And>ts r x S1 S2. Q ts S1 \<Longrightarrow> r \<in> set rs \<Longrightarrow> svc_inv pf S1 \<Longrightarrow> kv_params_of S1 = kv_params_of S \<Longrightarrow>
      svc_step pf r S1 = Inr (x, S2) \<Longrightarrow> Q (ts @ [(r, x)]) S2"
  shows "Q (zip rs os) S' \<and> svc_inv pf S' \<and> kv_params_of S' = kv_params_of S \<and> length os = length rs"
proof -
  have "Q (ts @ zip rs' os) S' \<and> svc_inv pf S' \<and> kv_params_of S' = kv_params_of S \<and> length os = length rs'"
    if "svc_inv pf S1" "svc_run pf rs' S1 = Inr (os, S')" "Q ts S1" "set rs' \<subseteq> set rs" "kv_params_of S1 = kv_params_of S"
    for ts rs' S1
    using that
  proof (induction rs' arbitrary: ts S1 os)
    case Nil
    then show ?case by (simp add: svc_run_def)
  next
    case (Cons r rs')
    obtain x S2 os' where x: "svc_step pf r S1 = Inr (x, S2)" "svc_run pf rs' S2 = Inr (os', S')" "os = x # os'"
      using Cons.prems(2) by (auto simp: svc_run_def)
    note k = step_kv [OF Cons.prems(1) x(1)]
    have "Q (ts @ [(r, x)]) S2" using assms(4) [OF Cons.prems(3) _ Cons.prems(1,5) x(1)] Cons.prems(4) by simp
    from Cons.IH [OF k(1) x(2) this] show ?case using Cons.prems(4,5) k(2) x(3) by simp
  qed
  from this [OF assms(1,2), of "[]"] assms(3) show ?thesis by simp
qed

section \<open>A small service\<close>

definition demo_state :: agent_state where
  "demo_state = \<lparr>as_allocator = demo_alloc, as_index = index_new 4, as_node_id = ''n1'', as_config = default_config,
     as_metadata = None, as_pressure_level = 0, as_remote_index = None, as_hash_ring = None\<rparr>"

definition demo_service :: cache_service where
  "demo_service = service_new 0 demo_state"

lemma fresh_service_inv:
  assumes "store_inv (as_allocator st)" and "handles_fit (as_allocator st)" and "as_index st = index_new c"
  shows "svc_inv pf (service_new now st)" and "kv_entries (kv_of pf (service_new now st)) = []"
  using assms index_new_inv index_new_view
  by (simp_all add: svc_inv_def service_new_def svc_allocator_def svc_index_def kv_of_def)

lemma demo_service_inv: "svc_inv pf demo_service" and demo_service_empty: "kv_entries (kv_of pf demo_service) = []"
proof -
  have "store_inv demo_alloc" using demo_alloc_inv by (simp add: store_inv_def demo_alloc_def demo_pool_def allocator_new_def)
  moreover have "handles_fit demo_alloc" by (simp add: handles_fit_def demo_alloc_def demo_pool_def allocator_new_def)
  ultimately show "svc_inv pf demo_service" "kv_entries (kv_of pf demo_service) = []"
    using fresh_service_inv [of demo_state 4] by (simp_all add: demo_service_def demo_state_def)
qed

lemma demo_service_params:
  "as_pressure_level (cs_state demo_service) = 0" "ba_generation (svc_allocator demo_service) = 1"
  "mp_block_size (ba_pool (svc_allocator demo_service)) = 32" "card (ba_live (svc_allocator demo_service)) = 0"
  "mp_total_blocks (ba_pool (svc_allocator demo_service)) = 4" "bi_capacity (svc_index demo_service) = 4"
  using card_live_handles [OF demo_pool_inv]
  by (simp_all add: demo_service_def demo_state_def service_new_def svc_allocator_def svc_index_def demo_alloc_def
      allocator_new_def demo_pool_def index_new_def)

definition demo_header :: "bytes \<Rightarrow> store_header" where
  "demo_header h = \<lparr>sh_prefix_hash = h, sh_num_blocks = 1, sh_total_size = 2, sh_model_id = []\<rparr>"

definition demo_put :: "u8 \<Rightarrow> bytes \<Rightarrow> request" where
  "demo_put b d = DoStore None [Inr (Some (StoreHead (demo_header (replicate 16 b)))), Inr (Some (StoreData d))]"

definition demo_get :: "u8 \<Rightarrow> request" where
  "demo_get b = DoGet \<lparr>gq_prefix_hash = replicate 16 b, gq_num_blocks = 1, gq_source_node_id = [], gq_model_id = []\<rparr> 5"

definition demo_delete :: "u8 \<Rightarrow> request" where
  "demo_delete b = DoDelete \<lparr>dq_prefix_hash = replicate 16 b\<rparr>"

lemma demo_put_args: 
  "store_args pf [Inr (Some (StoreHead (demo_header (replicate 16 b)))), Inr (Some (StoreData d))] = Inr (Inr (replicate 16 b, d))"
  by (simp add: store_args_def store_header_of_def demo_header_def parse_prefix_hash_def composite_key_def)

section \<open>Properties\<close>

text \<open>C1: The cache service refines its specification. Take any service state in which the index and the
  allocator agree, and any interleaving of lookups, batch lookups, stores, gets, deletes, statistics and health
  requests, iterations of the pressure monitor and updates by the watch task. The service panics
  exactly when the specification says so. Otherwise every reply is the reply of a bounded LRU map
  from key to generation and data, over a pool of which every successful store takes one block and every
  successful delete returns one, and the final state again satisfies the invariant and
  abstracts to the final state of that map.\<close>

theorem service_refines_kv:
  assumes "svc_inv pf S"
  shows "case kv_run pf (kv_params_of S) rs (kv_of pf S) of
      Inl f \<Rightarrow> svc_run pf rs S = Inl f
    | Inr (os, V) \<Rightarrow> \<exists>S'. svc_run pf rs S = Inr (os, S') \<and> svc_inv pf S' \<and> kv_params_of S' = kv_params_of S \<and> kv_of pf S' = V"
  using run_refines_kv [OF assms, of rs] by (simp add: refines_def)

theorem service_refines_kv_witness:
  "\<exists>os S'. svc_run demo_pf [demo_put 1 [7, 8], demo_get 1, demo_get 2] demo_service = Inr (os, S') \<and>
     os ! 1 = GetReply [Inr (GetHead \<lparr>gh_total_size = 32, gh_num_blocks = 1, gh_generation_id = 1\<rparr>), Inr (GetData [7, 8])] \<and>
     os ! 2 = Refused (Status NotFound ''prefix hash not found in cache'')"
proof -
  let ?rs = "[demo_put 1 [7, 8], demo_get 1, demo_get 2]"
  have V: "kv_entries (kv_of demo_pf demo_service) = []" by (rule demo_service_empty)
  note lv = demo_service_params
  have "kv_run demo_pf (kv_params_of demo_service) ?rs (kv_of demo_pf demo_service) = Inr (os, V') \<Longrightarrow>
      os ! 1 = GetReply [Inr (GetHead \<lparr>gh_total_size = 32, gh_num_blocks = 1, gh_generation_id = 1\<rparr>), Inr (GetData [7, 8])] \<and>
      os ! 2 = Refused (Status NotFound ''prefix hash not found in cache'')" for os V'
    using lv V
    by (auto simp: kv_run_def demo_put_def demo_get_def kv_store_def demo_put_args kv_put_def Let_def cache_insert_def
        HEADER_SIZE_def PRESSURE_REJECT_def kv_get_def parse_prefix_hash_def composite_key_def kv_find_def
        cache_lookup_def kv_hit_def kv_messages_def)
  moreover have "\<exists>os V'. kv_run demo_pf (kv_params_of demo_service) ?rs (kv_of demo_pf demo_service) = Inr (os, V')"
    using lv V
    by (auto simp: kv_run_def demo_put_def demo_get_def kv_store_def demo_put_args PRESSURE_REJECT_def split: prod.split)
  ultimately show ?thesis
    using service_refines_kv [OF demo_service_inv, of demo_pf ?rs] by (auto split: sum.splits)
qed

lemma demo_run:
  "\<exists>os S'. svc_run demo_pf [demo_put 1 [7], demo_put 2 [8, 9], demo_delete 1] demo_service = Inr (os, S') \<and>
     kv_entries (kv_of demo_pf S') = [(replicate 16 2, 2, [8, 9])] \<and> svc_inv demo_pf S' \<and>
     kv_params_of S' = kv_params_of demo_service \<and> kv_level (kv_of demo_pf S') = 0 \<and>
     track_all demo_pf (zip [demo_put 1 [7], demo_put 2 [8, 9], demo_delete 1] os) Map.empty = [replicate 16 2 \<mapsto> (2, [8, 9])]"
proof -
  let ?rs = "[demo_put 1 [7], demo_put 2 [8, 9], demo_delete 1]"
  have "\<exists>os V. kv_run demo_pf (kv_params_of demo_service) ?rs (kv_of demo_pf demo_service) = Inr (os, V) \<and>
      kv_entries V = [(replicate 16 2, 2, [8, 9])] \<and> kv_level V = 0 \<and>
      track_all demo_pf (zip ?rs os) Map.empty = [replicate 16 2 \<mapsto> (2, [8, 9])]"
    using demo_service_params demo_service_empty [of demo_pf]
    by (simp add: kv_run_def demo_put_def demo_delete_def kv_store_def demo_put_args kv_put_def Let_def cache_insert_def
        HEADER_SIZE_def PRESSURE_REJECT_def kv_delete_def parse_prefix_hash_def fun_upd_twist)
  then show ?thesis using run_refines_kv [OF demo_service_inv, of demo_pf ?rs] by (fastforce simp: refines_def)
qed

lemma get_kv:
  assumes "svc_inv pf S" and "svc_step pf (DoGet req n) S = Inr (GetReply ms, S')"
  shows "\<exists>g d. map_of (kv_entries (kv_of pf S)) (composite_key pf (gq_model_id req) (gq_prefix_hash req)) = Some (g, d) \<and>
    ms = take n (kv_messages (kv_params_of S) g d)"
proof -
  let ?k = "composite_key pf (gq_model_id req) (gq_prefix_hash req)"
  obtain r V1 where f: "kv_find ?k (kv_of pf S) = (r, V1)" by force
  note kv = kv_find_frame(1) [OF svc_inv_kv_wf(1) [OF assms(1)] f]
  show ?thesis
    using step_kv(3) [OF assms] f kv [symmetric]
    by (cases r) (auto simp: kv_get_def parse_prefix_hash_def split: if_splits)
qed

lemma get_found:
  assumes "svc_inv pf S" and "length (gq_prefix_hash req) = 16"
    and "index_contains (composite_key pf (gq_model_id req) (gq_prefix_hash req)) (svc_index S)"
  shows "\<exists>entry S1. get pf req S = Inr (Inr entry, S1)"
proof -
  let ?k = "composite_key pf (gq_model_id req) (gq_prefix_hash req)"
  obtain e where "fmlookup (bi_map (svc_index S)) ?k = Some e"
    using assms(3) by (auto simp: index_contains_def fmlookup_dom_iff)
  then have "map_of (index_view (svc_index S)) ?k = Some e" using map_of_view [OF svc_invD(3) [OF assms(1)]] by simp
  then show ?thesis
    using idx.lk_ok [OF svc_invD(3) [OF assms(1)], of ?k] assms(2)
    by (auto simp: get_def parse_prefix_hash_def cache_lookup_def Let_def)
qed

lemma run_track:
  assumes "svc_inv pf S" and "kv_entries (kv_of pf S) = []" and "svc_run pf rs S = Inr (os, S')"
  shows "map_of (kv_entries (kv_of pf S')) \<subseteq>\<^sub>m track_all pf (zip rs os) Map.empty"
    and "mp_total_blocks (ba_pool (svc_allocator S)) \<le> bi_capacity (svc_index S) \<Longrightarrow>
      map_of (kv_entries (kv_of pf S')) = track_all pf (zip rs os) Map.empty"
proof -
  have app: "track_all pf (ts @ [t]) C = track pf t (track_all pf ts C)" for ts t C
    by (induction ts arbitrary: C) simp_all
  let ?Q = "\<lambda>ts S1. map_of (kv_entries (kv_of pf S1)) \<subseteq>\<^sub>m track_all pf ts Map.empty"
  have "?Q (zip rs os) S' \<and> svc_inv pf S' \<and> kv_params_of S' = kv_params_of S \<and> length os = length rs"
    using assms(1,3)
  proof (induction rule: svc_run_induct)
    case (step ts r x S1 S2)
    then show ?case
      using kv_step_track [OF step_kv(3) [OF step(3,5)] svc_inv_kv_wf(1) [OF step(3)] step(1)] by (simp only: app)
  qed (simp add: assms(2))
  then show "?Q (zip rs os) S'" by blast
  assume cap: "mp_total_blocks (ba_pool (svc_allocator S)) \<le> bi_capacity (svc_index S)"
  let ?E = "\<lambda>ts S1. map_of (kv_entries (kv_of pf S1)) = track_all pf ts Map.empty"
  have "?E (zip rs os) S' \<and> svc_inv pf S' \<and> kv_params_of S' = kv_params_of S \<and> length os = length rs"
    using assms(1,3)
  proof (induction rule: svc_run_induct)
    case (step ts r x S1 S2)
    have "kp_total_blocks (kv_params_of S1) \<le> kp_max_entries (kv_params_of S1)" using step(4) cap by simp
    from kv_step_track_exact [OF step_kv(3) [OF step(3,5)] svc_inv_kv_wf(1) [OF step(3)] this svc_inv_kv_wf(3) [OF step(3)]]
    show ?case using step(1) by (simp only: app)
  qed (simp add: assms(2))
  then show "?E (zip rs os) S'" by blast
qed

text \<open>C6: A get never returns anything but the data of the last store. Start with an empty index and
  run any requests; then what a get streams is the header and the data that the last successful
  store under this key has sent, with the generation that store has returned, and the key has not been deleted since.
  If the index has room for as many entries as the pool has blocks, the converse holds too: what is
  indexed is exactly what has been stored and not deleted.\<close>

theorem get_returns_last_store:
  assumes "svc_inv pf S" and "kv_entries (kv_of pf S) = []" and "svc_run pf rs S = Inr (os, S')"
  shows "(\<forall>req n ms S''. svc_step pf (DoGet req n) S' = Inr (GetReply ms, S'') \<longrightarrow>
      (\<exists>g d. track_all pf (zip rs os) Map.empty (composite_key pf (gq_model_id req) (gq_prefix_hash req)) = Some (g, d) \<and>
        ms = take n (kv_messages (kv_params_of S) g d))) \<and>
    (mp_total_blocks (ba_pool (svc_allocator S)) \<le> bi_capacity (svc_index S) \<longrightarrow>
      map_of (kv_entries (kv_of pf S')) = track_all pf (zip rs os) Map.empty)"
proof -
  have "svc_inv pf S' \<and> kv_params_of S' = kv_params_of S"
    using svc_run_induct [OF assms(1,3), of "\<lambda>_ _. True"] by simp
  then show ?thesis
    using run_track [OF assms(1-3)] get_kv [of pf S'] unfolding map_le_def by (metis domI)
qed

theorem get_returns_last_store_witness:
  "\<exists>os S'. svc_run demo_pf [demo_put 1 [7], demo_put 2 [8, 9], demo_delete 1] demo_service = Inr (os, S') \<and>
     map_of (kv_entries (kv_of demo_pf S')) = [replicate 16 2 \<mapsto> (2, [8, 9])] \<and>
     (\<forall>ms S''. svc_step demo_pf (demo_get 1) S' \<noteq> Inr (GetReply ms, S''))"
proof -
  obtain os S' where r: "svc_run demo_pf [demo_put 1 [7], demo_put 2 [8, 9], demo_delete 1] demo_service = Inr (os, S')"
      "track_all demo_pf (zip [demo_put 1 [7], demo_put 2 [8, 9], demo_delete 1] os) Map.empty = [replicate 16 2 \<mapsto> (2, [8, 9])]"
    using demo_run by blast
  note g = get_returns_last_store [OF demo_service_inv demo_service_empty r(1), unfolded r(2)]
  have "svc_step demo_pf (demo_get 1) S' \<noteq> Inr (GetReply ms, S'')" for ms S''
    using conjunct1 [OF g, rule_format, of "\<lparr>gq_prefix_hash = replicate 16 1, gq_num_blocks = 1, gq_source_node_id = [],
        gq_model_id = []\<rparr>" 5 ms S''] unfolding demo_get_def composite_key_def by auto
  moreover have "map_of (kv_entries (kv_of demo_pf S')) = [replicate 16 2 \<mapsto> (2, [8, 9])]"
    using conjunct2 [OF g] demo_service_params by simp
  ultimately show ?thesis using r(1) by blast
qed

lemma store_args_Inl:
  "store_args pf stream = Inl f \<longleftrightarrow> f = CapacityOverflow \<and>
     (\<exists>header. store_header_of stream = Inr header \<and> length (sh_prefix_hash header) = 16 \<and> 2 ^ 63 \<le> unat (sh_total_size header))"
  by (auto simp: store_args_def parse_prefix_hash_def split: sum.splits)

lemma kv_store_Inl:
  "kv_store pf P stream V = Inl f \<longleftrightarrow> kv_level V < PRESSURE_REJECT \<and> store_args pf stream = Inl f"
proof (cases "store_args pf stream")
  case (Inr a)
  then show ?thesis by (cases a) (auto simp: kv_store_def split_beta)
qed (auto simp: kv_store_def not_le)

lemma step_panics_iff:
  assumes "svc_inv pf S"
  shows "svc_step pf r S = Inl f \<longleftrightarrow>
    (\<exists>now stream. r = DoStore now stream \<and> as_pressure_level (cs_state S) < PRESSURE_REJECT \<and> store_args pf stream = Inl f)"
proof -
  have "svc_step pf r S = Inl f \<longleftrightarrow> kv_step pf (kv_params_of S) r (kv_of pf S) = Inl f"
    using step_refines_kv [OF assms, of r] by (auto simp: refines_def split: sum.splits)
  also have "\<dots> \<longleftrightarrow> (\<exists>now stream. r = DoStore now stream \<and> as_pressure_level (cs_state S) < PRESSURE_REJECT \<and> store_args pf stream = Inl f)"
    by (cases r) (auto simp: kv_store_Inl)
  finally show ?thesis .
qed

lemma run_completes:
  assumes "svc_inv pf S"
    and "\<forall>now stream header. DoStore now stream \<in> set rs \<longrightarrow> store_header_of stream = Inr header \<longrightarrow>
      unat (sh_total_size header) < 2 ^ 63"
  shows "\<exists>os S'. svc_run pf rs S = Inr (os, S') \<and> length os = length rs \<and> svc_inv pf S'"
  using assms
proof (induction rs arbitrary: S)
  case Nil
  then show ?case by (simp add: svc_run_def)
next
  case (Cons r rs)
  have "svc_step pf r S \<noteq> Inl f" for f
    using Cons.prems(2) unfolding step_panics_iff [OF Cons.prems(1)] store_args_Inl by fastforce
  then obtain x S1 where x: "svc_step pf r S = Inr (x, S1)" by (metis sum.exhaust surj_pair)
  then obtain os S' where "svc_run pf rs S1 = Inr (os, S')" "length os = length rs" "svc_inv pf S'"
    using Cons.IH [OF step_kv(1) [OF Cons.prems(1) x]] Cons.prems(2) by auto
  then show ?case using x by (simp add: svc_run_def)
qed

text \<open>C12: Which requests panic. In a good state exactly one does: a store that the pressure level does not
  reject, whose first message is a header with a 16-byte hash and announces \<open>2 ^ 63\<close> bytes or more; it panics in the capacity computation
  of the buffer. (Smaller sizes are taken to be available here; a process that runs out of memory
  aborts, which is part of the model of \<open>main\<close>.) So a run in which no store header announces that much always completes,
  with one reply per request, and keeps the invariant.\<close>

theorem service_never_panics:
  assumes "svc_inv pf S"
  shows "(svc_step pf r S = Inl f \<longleftrightarrow>
      f = CapacityOverflow \<and> as_pressure_level (cs_state S) < PRESSURE_REJECT \<and>
      (\<exists>now stream header. r = DoStore now stream \<and> store_header_of stream = Inr header \<and>
        length (sh_prefix_hash header) = 16 \<and> 2 ^ 63 \<le> unat (sh_total_size header))) \<and>
    ((\<forall>now stream header. DoStore now stream \<in> set rs \<longrightarrow> store_header_of stream = Inr header \<longrightarrow>
        unat (sh_total_size header) < 2 ^ 63) \<longrightarrow>
      (\<exists>os S'. svc_run pf rs S = Inr (os, S') \<and> length os = length rs \<and> svc_inv pf S'))"
  using step_panics_iff [OF assms, of r f] run_completes [OF assms, of rs] unfolding store_args_Inl by blast

theorem service_never_panics_witness:
  "(\<exists>os S'. svc_run demo_pf [demo_put 1 [7], demo_get 1, Tick, demo_delete 1, DoStats] demo_service = Inr (os, S') \<and> length os = 5) \<and>
   svc_step demo_pf (DoStore None [Inr (Some (StoreHead (demo_header (replicate 16 1) \<lparr>sh_total_size := 2 ^ 63\<rparr>)))]) demo_service =
     Inl CapacityOverflow"
proof -
  let ?rs = "[demo_put 1 [7], demo_get 1, Tick, demo_delete 1, DoStats]"
  let ?stream = "[Inr (Some (StoreHead (demo_header (replicate 16 1) \<lparr>sh_total_size := 2 ^ 63\<rparr>)))]"
  note p = service_never_panics [OF demo_service_inv, of demo_pf "DoStore None ?stream" CapacityOverflow ?rs]
  have "\<forall>now stream header. DoStore now stream \<in> set ?rs \<longrightarrow>
      store_header_of stream = Inr header \<longrightarrow> unat (sh_total_size header) < 2 ^ 63"
    by (auto simp: demo_put_def demo_get_def demo_delete_def store_header_of_def demo_header_def)
  from mp [OF conjunct2 [OF p] this]
  have run: "\<exists>os S'. svc_run demo_pf ?rs demo_service = Inr (os, S') \<and> length os = 5" by force
  have "as_pressure_level (cs_state demo_service) < PRESSURE_REJECT" by (simp add: demo_service_params PRESSURE_REJECT_def)
  moreover have "\<exists>header. store_header_of ?stream = Inr header \<and> length (sh_prefix_hash header) = 16 \<and>
      2 ^ 63 \<le> unat (sh_total_size header)"
    by (simp add: store_header_of_def demo_header_def)
  ultimately have "svc_step demo_pf (DoStore None ?stream) demo_service = Inl CapacityOverflow" using conjunct1 [OF p] by blast
  with run show ?thesis by blast
qed

section \<open>Memory\<close>

text \<open>Blocks in use that no index entry refers to.\<close>

definition orphans :: "cache_service \<Rightarrow> usize" where
  "orphans S = ps_used_blocks (ba_stats (svc_allocator S)) - index_len (svc_index S)"

lemma orphans_kv: "svc_inv pf S \<Longrightarrow> orphans S = kv_orphans (kv_of pf S)"
  using svc_inv_kv_wf(2) [of pf S]
  by (simp add: orphans_def used_blocks kv_orphans_def) (simp add: kv_of_def)

lemma index_contains_kv:
  "svc_inv pf S \<Longrightarrow> index_contains k (svc_index S) \<longleftrightarrow> k \<in> fst ` set (kv_entries (kv_of pf S))"
  using index_inv_lookup [OF svc_invD(3), of pf S k]
  by (simp add: kv_of_def index_contains_def fmlookup_dom_iff image_image flip: view_keys)

lemma store_succeeds:
  assumes "svc_inv pf S" and "as_pressure_level (cs_state S) < PRESSURE_REJECT"
    and "store_args pf stream = Inr (Inr (k, d))" and "length d \<le> ba_max_data (svc_allocator S)"
    and "ps_used_blocks (ba_stats (svc_allocator S)) < mp_total_blocks (ba_pool (svc_allocator S))"
  obtains m ps S' where "svc_step pf (DoStore now stream) S = Inr (StoreReply m ps, S')" and "svc_inv pf S'"
    and "kv_params_of S' = kv_params_of S" and "as_pressure_level (cs_state S') = as_pressure_level (cs_state S)"
    and "ps_used_blocks (ba_stats (svc_allocator S')) = ps_used_blocks (ba_stats (svc_allocator S)) + 1"
    and "index_contains k (svc_index S')"
    and "index_len (svc_index S') \<le> index_len (svc_index S) + of_bool (\<not> index_contains k (svc_index S))"
proof -
  let ?V = "kv_of pf S" and ?P = "kv_params_of S"
  obtain ev es where ci: "cache_insert (kp_max_entries ?P) k (kv_generation ?V, d) (kv_entries ?V) = (ev, es)" by force
  have "\<not> (kp_block_size ?P - HEADER_SIZE < length d \<or> kv_used ?V = kp_total_blocks ?P)"
    using assms(4,5) used_blocks [OF assms(1)] by simp
  then obtain m ps where "kv_store pf ?P stream ?V = Inr (StoreReply m ps, ?V\<lparr>kv_entries := es, kv_used := kv_used ?V + 1,
      kv_generation := kv_generation ?V + 1, kv_evictions := kv_evictions ?V + of_nat (length ev)\<rparr>)"
    using assms(2,3) ci by (simp add: kv_store_def kv_put_def Let_def not_le)
  then obtain S' where S': "svc_step pf (DoStore now stream) S = Inr (StoreReply m ps, S')" "svc_inv pf S'" "kv_params_of S' = ?P"
      "kv_of pf S' = ?V\<lparr>kv_entries := es, kv_used := kv_used ?V + 1,
      kv_generation := kv_generation ?V + 1, kv_evictions := kv_evictions ?V + of_nat (length ev)\<rparr>"
    using step_refines_kv [OF assms(1), of "DoStore now stream"] by auto
  have "kv_entries (kv_of pf S') = es" "kv_level (kv_of pf S') = kv_level ?V" "kv_used (kv_of pf S') = kv_used ?V + 1"
    unfolding S'(4) by simp_all
  moreover have "(k, kv_generation ?V, d) \<in> set es" using ci by (auto simp: cache_insert_def split: if_splits)
  moreover have "length es \<le> length (kv_entries ?V) + of_bool (k \<notin> fst ` set (kv_entries ?V))"
    using cache_insert_length [of "kv_entries ?V" "kp_max_entries ?P" k "(kv_generation ?V, d)"] ci
      svc_inv_kv_wf(1) [OF assms(1)] by (simp add: kv_wf_def of_bool_def split: if_splits)
  moreover have "length (kv_entries ?V) = index_len (svc_index S)" "length (kv_entries (kv_of pf S')) = index_len (svc_index S')"
    using svc_inv_kv_wf(2) [OF assms(1)] svc_inv_kv_wf(2) [OF S'(2)] by (simp_all add: kv_of_def)
  ultimately show ?thesis
    using that [OF S'(1-3)] used_blocks [OF assms(1)] used_blocks [OF S'(2)]
    by (force simp: index_contains_kv [OF assms(1)] index_contains_kv [OF S'(2)])
qed

text \<open>C13: Orphaned blocks never come back. A block that no index entry refers to stays allocated for
  good: over any run the number of such blocks only grows, and a successful store adds one for the
  entry it overwrites and one for every entry it evicts. The comment in the code says that the
  evicted blocks are freed.\<close>

theorem orphans_never_reclaimed:
  assumes "svc_inv pf S"
  shows "(\<forall>rs os S'. svc_run pf rs S = Inr (os, S') \<longrightarrow> orphans S \<le> orphans S') \<and>
    (\<forall>now stream m ps S' k d. svc_step pf (DoStore now stream) S = Inr (StoreReply m ps, S') \<longrightarrow>
      store_args pf stream = Inr (Inr (k, d)) \<longrightarrow>
      (\<exists>n. orphans S' = orphans S + n + of_bool (index_contains k (svc_index S)) \<and>
         cs_evictions S' = cs_evictions S + of_nat n))"
proof (intro conjI allI impI)
  fix rs os S'
  assume run: "svc_run pf rs S = Inr (os, S')"
  have "orphans S \<le> orphans S' \<and> svc_inv pf S' \<and> kv_params_of S' = kv_params_of S \<and> length os = length rs"
    using assms run
  proof (induction rule: svc_run_induct)
    case (step ts r x S1 S2)
    have "kv_orphans (kv_of pf S1) \<le> kv_orphans (kv_of pf S2)"
      by (rule kv_step_orphans [OF step_kv(3) [OF step(3,5)] svc_inv_kv_wf(1) [OF step(3)]])
    then show ?case using step(1) orphans_kv [OF step(3)] orphans_kv [OF step_kv(1) [OF step(3,5)]] by simp
  qed simp
  then show "orphans S \<le> orphans S'" by blast
next
  fix now stream m ps S' k d
  assume st: "svc_step pf (DoStore now stream) S = Inr (StoreReply m ps, S')" and a: "store_args pf stream = Inr (Inr (k, d))"
  have "kv_store pf (kv_params_of S) stream (kv_of pf S) = Inr (StoreReply m ps, kv_of pf S')"
    using step_kv(3) [OF assms st] by simp
  then show "\<exists>n. orphans S' = orphans S + n + of_bool (index_contains k (svc_index S)) \<and>
      cs_evictions S' = cs_evictions S + of_nat n"
  proof (cases rule: kv_store_cases)
    case (put k' d' ev es)
    have kk: "k' = k" using put(2) a by simp
    have "kv_evictions (kv_of pf S') = kv_evictions (kv_of pf S) + of_nat (length ev)" using put(7) by simp
    moreover have "kv_orphans (kv_of pf S') = kv_orphans (kv_of pf S) + length ev + of_bool (index_contains k (svc_index S))"
      using put_orphans [OF svc_inv_kv_wf(1) [OF assms] put(6,7)] index_contains_kv [OF assms, of k] kk by simp
    ultimately show ?thesis using orphans_kv [OF assms] orphans_kv [OF step_kv(1) [OF assms st]] by auto
  qed simp
qed

lemma demo_step:
  obtains m ps S1 where "svc_step demo_pf (demo_put 1 [7]) demo_service = Inr (StoreReply m ps, S1)" and "svc_inv demo_pf S1"
    and "kv_params_of S1 = kv_params_of demo_service" and "as_pressure_level (cs_state S1) = 0"
    and "ps_used_blocks (ba_stats (svc_allocator S1)) = 1" and "index_contains (replicate 16 1) (svc_index S1)"
proof -
  have fits: "length [7 :: u8] \<le> ba_max_data (svc_allocator demo_service)" by (simp add: demo_service_params HEADER_SIZE_def)
  have none: "ps_used_blocks (ba_stats (svc_allocator demo_service)) = 0" "index_len (svc_index demo_service) = 0"
    using used_blocks [OF demo_service_inv] demo_service_params svc_inv_kv_wf(2) [OF demo_service_inv] demo_service_empty
    by (simp_all add: kv_of_def)
  have pre: "as_pressure_level (cs_state demo_service) < PRESSURE_REJECT"
      "ps_used_blocks (ba_stats (svc_allocator demo_service)) < mp_total_blocks (ba_pool (svc_allocator demo_service))"
    using demo_service_params none by (simp_all add: PRESSURE_REJECT_def)
  show ?thesis
    by (rule store_succeeds [OF demo_service_inv [of demo_pf] pre(1) demo_put_args [of demo_pf 1] fits pre(2), of None,
          folded demo_put_def, unfolded none demo_service_params],
        rule that) simp_all
qed

theorem orphans_never_reclaimed_witness:
  "\<exists>m ps S1 m' ps' S2. svc_step demo_pf (demo_put 1 [7]) demo_service = Inr (StoreReply m ps, S1) \<and>
     svc_step demo_pf (demo_put 1 [8]) S1 = Inr (StoreReply m' ps', S2) \<and> orphans S1 < orphans S2"
proof -
  obtain m ps S1 where S1: "svc_step demo_pf (demo_put 1 [7]) demo_service = Inr (StoreReply m ps, S1)" "svc_inv demo_pf S1"
      "kv_params_of S1 = kv_params_of demo_service" "as_pressure_level (cs_state S1) = 0"
      "ps_used_blocks (ba_stats (svc_allocator S1)) = 1" "index_contains (replicate 16 1) (svc_index S1)"
    using demo_step by metis
  have P: "mp_block_size (ba_pool (svc_allocator S1)) = 32" "mp_total_blocks (ba_pool (svc_allocator S1)) = 4"
    using arg_cong [OF S1(3), of kp_block_size] arg_cong [OF S1(3), of kp_total_blocks] demo_service_params by simp_all
  have "as_pressure_level (cs_state S1) < PRESSURE_REJECT" "length [8 :: u8] \<le> ba_max_data (svc_allocator S1)"
      "ps_used_blocks (ba_stats (svc_allocator S1)) < mp_total_blocks (ba_pool (svc_allocator S1))"
    using S1 P by (simp_all add: PRESSURE_REJECT_def HEADER_SIZE_def)
  then obtain m' ps' S2 where S2: "svc_step demo_pf (demo_put 1 [8]) S1 = Inr (StoreReply m' ps', S2)"
    using store_succeeds [OF S1(2) _ demo_put_args [of demo_pf 1 "[8]"], of None] unfolding demo_put_def by metis
  have "orphans S1 < orphans S2"
    using conjunct2 [OF orphans_never_reclaimed [OF S1(2)], rule_format, OF S2 [unfolded demo_put_def] demo_put_args] S1(6) by auto
  then show ?thesis using S1(1) S2 by blast
qed

lemma store_until_full:
  assumes "svc_inv pf S" and "as_pressure_level (cs_state S) < PRESSURE_REJECT"
    and "store_args pf stream = Inr (Inr (k, d))" and "length d \<le> ba_max_data (svc_allocator S)"
    and "ps_used_blocks (ba_stats (svc_allocator S)) + n = mp_total_blocks (ba_pool (svc_allocator S))"
  shows "\<exists>os S'. svc_run pf (replicate n (DoStore now stream)) S = Inr (os, S') \<and> length os = n \<and>
    (\<forall>x \<in> set os. \<exists>m ps. x = StoreReply m ps) \<and> svc_inv pf S' \<and>
    index_len (svc_index S') \<le> index_len (svc_index S) + of_bool (\<not> index_contains k (svc_index S)) \<and>
    ps_used_blocks (ba_stats (svc_allocator S')) = mp_total_blocks (ba_pool (svc_allocator S'))"
  using assms
proof (induction n arbitrary: S)
  case 0
  then show ?case by (simp add: svc_run_def)
next
  case (Suc n)
  have "ps_used_blocks (ba_stats (svc_allocator S)) < mp_total_blocks (ba_pool (svc_allocator S))" using Suc.prems(5) by simp
  from store_succeeds [OF Suc.prems(1-4) this, of now] obtain m ps S1 where
    S1: "svc_step pf (DoStore now stream) S = Inr (StoreReply m ps, S1)" "svc_inv pf S1" "kv_params_of S1 = kv_params_of S"
      "as_pressure_level (cs_state S1) = as_pressure_level (cs_state S)"
      "ps_used_blocks (ba_stats (svc_allocator S1)) = ps_used_blocks (ba_stats (svc_allocator S)) + 1"
      "index_contains k (svc_index S1)"
      "index_len (svc_index S1) \<le> index_len (svc_index S) + of_bool (\<not> index_contains k (svc_index S))"
    by metis
  have P: "mp_block_size (ba_pool (svc_allocator S1)) = mp_block_size (ba_pool (svc_allocator S))"
      "mp_total_blocks (ba_pool (svc_allocator S1)) = mp_total_blocks (ba_pool (svc_allocator S))"
    using arg_cong [OF S1(3), of kp_block_size] arg_cong [OF S1(3), of kp_total_blocks] by simp_all
  obtain os S' where "svc_run pf (replicate n (DoStore now stream)) S1 = Inr (os, S')" "length os = n"
      "\<forall>x \<in> set os. \<exists>m ps. x = StoreReply m ps" "svc_inv pf S'" "index_len (svc_index S') \<le> index_len (svc_index S1)"
      "ps_used_blocks (ba_stats (svc_allocator S')) = mp_total_blocks (ba_pool (svc_allocator S'))"
    using Suc.IH [OF S1(2) _ Suc.prems(3)] Suc.prems(2,4,5) S1(4-6) P by auto
  then show ?case using S1(1,7) by (auto simp: svc_run_def)
qed

lemma full_pool_refuses:
  assumes "svc_inv pf S" and "ps_used_blocks (ba_stats (svc_allocator S)) = mp_total_blocks (ba_pool (svc_allocator S))"
  shows "svc_step pf (DoStore now stream) S \<noteq> Inr (StoreReply m ps, S')"
proof
  assume "svc_step pf (DoStore now stream) S = Inr (StoreReply m ps, S')"
  then have "kv_store pf (kv_params_of S) stream (kv_of pf S) = Inr (StoreReply m ps, kv_of pf S')"
    using step_kv(3) [OF assms(1)] by fastforce
  then show False using assms(2) used_blocks [OF assms(1)] by (cases rule: kv_store_cases) simp_all
qed

text \<open>C14: Overwriting one key uses up the pool. From a state whose pressure level does not reject stores, as
  many stores of one and the same key as there are free blocks all succeed, with at most one more
  index entry in the end. Then the pool is exhausted: in that state no store succeeds, whatever
  its key and size, although at most one of these blocks can still be read.\<close>

theorem overwrite_exhausts_pool:
  assumes "svc_inv pf S" and "as_pressure_level (cs_state S) < PRESSURE_REJECT"
    and "store_args pf stream = Inr (Inr (k, d))" and "length d \<le> ba_max_data (svc_allocator S)"
    and "ps_used_blocks (ba_stats (svc_allocator S)) + n = mp_total_blocks (ba_pool (svc_allocator S))"
  shows "\<exists>os S'. svc_run pf (replicate n (DoStore now stream)) S = Inr (os, S') \<and> length os = n \<and>
    (\<forall>x \<in> set os. \<exists>m ps. x = StoreReply m ps) \<and> index_len (svc_index S') \<le> index_len (svc_index S) + 1 \<and>
    (\<forall>now' stream' m ps S''. svc_step pf (DoStore now' stream') S' \<noteq> Inr (StoreReply m ps, S''))"
proof -
  obtain os S' where S': "svc_run pf (replicate n (DoStore now stream)) S = Inr (os, S')" "length os = n"
      "\<forall>x \<in> set os. \<exists>m ps. x = StoreReply m ps" "svc_inv pf S'"
      "index_len (svc_index S') \<le> index_len (svc_index S) + of_bool (\<not> index_contains k (svc_index S))"
      "ps_used_blocks (ba_stats (svc_allocator S')) = mp_total_blocks (ba_pool (svc_allocator S'))"
    using store_until_full [OF assms, of now] by blast
  then have "index_len (svc_index S') \<le> index_len (svc_index S) + 1" by (simp add: of_bool_def split: if_splits)
  then show ?thesis using S' full_pool_refuses [OF S'(4,6)] by blast
qed

theorem overwrite_exhausts_pool_witness:
  "\<exists>os S'. svc_run demo_pf (replicate 4 (demo_put 1 [7])) demo_service = Inr (os, S') \<and>
     (\<forall>m ps S''. svc_step demo_pf (demo_put 2 []) S' \<noteq> Inr (StoreReply m ps, S''))"
proof -
  have pre: "as_pressure_level (cs_state demo_service) < PRESSURE_REJECT"
      "length [7 :: u8] \<le> ba_max_data (svc_allocator demo_service)"
      "ps_used_blocks (ba_stats (svc_allocator demo_service)) + 4 = mp_total_blocks (ba_pool (svc_allocator demo_service))"
    using demo_service_params used_blocks [OF demo_service_inv] by (simp_all add: PRESSURE_REJECT_def HEADER_SIZE_def)
  show ?thesis
    using overwrite_exhausts_pool [OF demo_service_inv [of demo_pf] pre(1) demo_put_args [of demo_pf 1] pre(2,3), of None]
    unfolding demo_put_def by blast
qed

lemma run_no_evict:
  assumes "svc_inv pf S" and "mp_total_blocks (ba_pool (svc_allocator S)) \<le> bi_capacity (svc_index S)"
    and "svc_run pf rs S = Inr (os, S')"
  shows "cs_evictions S' = cs_evictions S"
proof -
  have "cs_evictions S' = cs_evictions S \<and> svc_inv pf S' \<and> kv_params_of S' = kv_params_of S \<and> length os = length rs"
    using assms(1,3)
  proof (induction rule: svc_run_induct)
    case (step ts r x S1 S2)
    have "kp_total_blocks (kv_params_of S1) \<le> kp_max_entries (kv_params_of S1)" using step(4) assms(2) by simp
    from kv_step_no_evict [OF step_kv(3) [OF step(3,5)] svc_inv_kv_wf(1) [OF step(3)] this svc_inv_kv_wf(3) [OF step(3)]]
    show ?case using step(1) by simp
  qed simp
  then show ?thesis by blast
qed

text \<open>C15: Eviction is dead code in the configuration the agent uses. If the index may hold as many entries as the
  pool has blocks, no store ever evicts an entry: every block holds at most one entry, so the
  pool is exhausted before the index is full. The eviction counter of any run stays what it was.\<close>

theorem eviction_never_happens:
  assumes "svc_inv pf S" and "mp_total_blocks (ba_pool (svc_allocator S)) \<le> bi_capacity (svc_index S)"
    and "svc_run pf rs S = Inr (os, S')"
  shows "cs_evictions S' = cs_evictions S"
  by (rule run_no_evict [OF assms])

theorem eviction_never_happens_witness:
  "\<exists>os S'. svc_run demo_pf [demo_put 1 [7], demo_put 2 [8, 9], demo_delete 1] demo_service = Inr (os, S') \<and>
     cs_evictions S' = cs_evictions demo_service"
proof -
  obtain os S' where r: "svc_run demo_pf [demo_put 1 [7], demo_put 2 [8, 9], demo_delete 1] demo_service = Inr (os, S')"
    using demo_run by blast
  have "mp_total_blocks (ba_pool (svc_allocator demo_service)) \<le> bi_capacity (svc_index demo_service)"
    by (simp add: demo_service_params)
  from eviction_never_happens [OF demo_service_inv this r] r show ?thesis by blast
qed

lemma delete_kv:
  assumes "svc_inv pf S" and "length (dq_prefix_hash req) = 16"
  obtains S' where "delete req S = Inr (Inr \<lparr>dr_success = index_contains (dq_prefix_hash req) (svc_index S),
        dr_blocks_freed = of_bool (index_contains (dq_prefix_hash req) (svc_index S))\<rparr>, S')" and "svc_inv pf S'"
    and "map_of (kv_entries (kv_of pf S')) = (map_of (kv_entries (kv_of pf S)))(dq_prefix_hash req := None)"
    and "kv_used (kv_of pf S') = kv_used (kv_of pf S) - of_bool (index_contains (dq_prefix_hash req) (svc_index S))"
proof -
  let ?h = "dq_prefix_hash req" and ?es = "kv_entries (kv_of pf S)"
  obtain x V where xV: "kv_delete req (kv_of pf S) = (x, V)" by force
  obtain S' where S': "svc_step pf (DoDelete req) S = Inr (x, S')" "svc_inv pf S'" "kv_of pf S' = V"
    using step_refines_kv [OF assms(1), of "DoDelete req"] xV by auto
  have c: "index_contains ?h (svc_index S) \<longleftrightarrow> map_of ?es ?h \<noteq> None"
    unfolding index_contains_kv [OF assms(1)] by (simp add: map_of_eq_None_iff)
  have x: "x = DeleteReply \<lparr>dr_success = index_contains ?h (svc_index S), dr_blocks_freed = of_bool (index_contains ?h (svc_index S))\<rparr>"
      "map_of (kv_entries V) = (map_of ?es)(?h := None)"
      "kv_used V = kv_used (kv_of pf S) - of_bool (index_contains ?h (svc_index S))"
    using xV c assms(2) by (auto simp: kv_delete_def parse_prefix_hash_def split: option.splits)
  obtain y where "delete req S = Inr (y, S')" "x = case_sum Refused DeleteReply y" using S'(1) by auto
  then have "delete req S = Inr (Inr \<lparr>dr_success = index_contains ?h (svc_index S),
        dr_blocks_freed = of_bool (index_contains ?h (svc_index S))\<rparr>, S')"
    using x(1) by (cases y) auto
  then show ?thesis using that S'(2) x(2,3) S'(3) by blast
qed

text \<open>C18: A delete removes exactly its key and returns exactly its block: it reports success if and only if
  the raw hash is indexed, frees one block in that case and none otherwise, and leaves the
  data of every other key readable and unchanged. A delete does not take a model, so an entry
  stored under a model stays, unless its derived key is the raw hash itself.\<close>

theorem delete_spec:
  assumes "svc_inv pf S" and "length (dq_prefix_hash req) = 16"
  shows "\<exists>S'. delete req S = Inr (Inr \<lparr>dr_success = index_contains (dq_prefix_hash req) (svc_index S),
        dr_blocks_freed = of_bool (index_contains (dq_prefix_hash req) (svc_index S))\<rparr>, S') \<and> svc_inv pf S' \<and>
    ps_used_blocks (ba_stats (svc_allocator S')) =
      ps_used_blocks (ba_stats (svc_allocator S)) - of_bool (index_contains (dq_prefix_hash req) (svc_index S)) \<and>
    \<not> index_contains (dq_prefix_hash req) (svc_index S') \<and>
    (\<forall>m h. composite_key pf m h \<noteq> dq_prefix_hash req \<longrightarrow>
       map_of (kv_entries (kv_of pf S')) (composite_key pf m h) = map_of (kv_entries (kv_of pf S)) (composite_key pf m h))"
proof -
  obtain S' where S': "delete req S = Inr (Inr \<lparr>dr_success = index_contains (dq_prefix_hash req) (svc_index S),
        dr_blocks_freed = of_bool (index_contains (dq_prefix_hash req) (svc_index S))\<rparr>, S')" "svc_inv pf S'"
      "map_of (kv_entries (kv_of pf S')) = (map_of (kv_entries (kv_of pf S)))(dq_prefix_hash req := None)"
      "kv_used (kv_of pf S') = kv_used (kv_of pf S) - of_bool (index_contains (dq_prefix_hash req) (svc_index S))"
    by (rule delete_kv [OF assms], rule that)
  have "\<not> index_contains (dq_prefix_hash req) (svc_index S')"
    unfolding index_contains_kv [OF S'(2)] map_of_eq_None_iff [symmetric] S'(3) by simp
  then show ?thesis
    using S' used_blocks [OF assms(1)] used_blocks [OF S'(2)] by (intro exI [of _ S']) simp
qed

theorem delete_spec_witness:
  "\<exists>m ps S1 S2. svc_step demo_pf (demo_put 1 [7]) demo_service = Inr (StoreReply m ps, S1) \<and>
     delete \<lparr>dq_prefix_hash = replicate 16 1\<rparr> S1 = Inr (Inr \<lparr>dr_success = True, dr_blocks_freed = 1\<rparr>, S2) \<and>
     ps_used_blocks (ba_stats (svc_allocator S2)) = 0"
proof -
  obtain m ps S1 where S1: "svc_step demo_pf (demo_put 1 [7]) demo_service = Inr (StoreReply m ps, S1)" "svc_inv demo_pf S1"
      "ps_used_blocks (ba_stats (svc_allocator S1)) = 1" "index_contains (replicate 16 1) (svc_index S1)"
    using demo_step by metis
  from delete_spec [OF S1(2), of "\<lparr>dq_prefix_hash = replicate 16 1\<rparr>"] show ?thesis
    using S1 by auto
qed

section \<open>Keys, counters, pressure\<close>

lemma str_bytes_inj: "str_bytes s = str_bytes t \<Longrightarrow> s = t"
proof -
  have "inj (of_char :: char \<Rightarrow> u8)"
    by (rule injI) (metis of_char_u8 of_char_eqI)
  then have "inj (map (of_char :: char \<Rightarrow> u8))" by (rule inj_mapI)
  then show "str_bytes s = str_bytes t \<Longrightarrow> s = t" unfolding str_bytes_def by (rule injD)
qed

text \<open>C32: Models do not share entries. If two different pairs of model and 16-byte hash are given the same index
  key, then SHA-256 itself is to blame: either the two different inputs model followed by hash
  collide on the first 16 bytes of their digests, or one of the pairs has no model and its raw hash is the
  truncated digest of the other.\<close>

theorem composite_key_isolation:
  assumes "length h = 16" and "length h' = 16" and "composite_key pf m h = composite_key pf m' h'" and "(m, h) \<noteq> (m', h')"
  shows "(m \<noteq> [] \<and> m' \<noteq> [] \<and> str_bytes m @ h \<noteq> str_bytes m' @ h' \<and>
      take 16 (sha256_of pf (str_bytes m @ h)) = take 16 (sha256_of pf (str_bytes m' @ h'))) \<or>
    (m = [] \<and> m' \<noteq> [] \<and> h = take 16 (sha256_of pf (str_bytes m' @ h'))) \<or>
    (m \<noteq> [] \<and> m' = [] \<and> h' = take 16 (sha256_of pf (str_bytes m @ h)))"
proof -
  have "str_bytes m @ h = str_bytes m' @ h' \<Longrightarrow> m = m' \<and> h = h'"
    using assms(1,2) by (metis append_eq_append_conv str_bytes_inj)
  then show ?thesis using assms(3,4) by (auto simp: composite_key_def split: if_splits)
qed

theorem composite_key_isolation_witness:
  "take 16 (sha256_of demo_pf (str_bytes ''ab'' @ replicate 16 0)) = take 16 (sha256_of demo_pf (str_bytes ''ba'' @ replicate 16 0))"
proof -
  have "composite_key demo_pf ''ab'' (replicate 16 0) = composite_key demo_pf ''ba'' (replicate 16 0)"
    by (simp add: composite_key_def demo_pf_def demo_sha_def str_bytes_def)
  then show ?thesis using composite_key_isolation [of "replicate 16 0" "replicate 16 0" demo_pf "''ab''" "''ba''"] by simp
qed

text \<open>Hits and misses account for every lookup: over any run, the sum of the two counters grows by
  one for every well-formed key that a lookup, a get or a batch has looked up (a batch stops at its first malformed
  key), modulo \<open>2 ^ 64\<close>, and by nothing else.\<close>

lemma hits_and_misses_accurate:
  assumes "svc_inv pf S" and "svc_run pf rs S = Inr (os, S')"
  shows "cs_cache_hits S' + cs_cache_misses S' =
    cs_cache_hits S + cs_cache_misses S + of_nat (sum_list (map keys_looked_up rs))"
proof -
  have c: "kv_counted (kv_of pf S) = cs_cache_hits S + cs_cache_misses S" for S by (simp add: kv_counted_def kv_of_def)
  have "kv_counted (kv_of pf S') = kv_counted (kv_of pf S) + of_nat (sum_list (map (keys_looked_up \<circ> fst) (zip rs os))) \<and>
      svc_inv pf S' \<and> kv_params_of S' = kv_params_of S \<and> length os = length rs"
    using assms
  proof (induction rule: svc_run_induct)
    case (step ts r x S1 S2)
    show ?case using step(1) kv_step_counted [OF step_kv(3) [OF step(3,5)]] by simp
  qed simp
  then have "kv_counted (kv_of pf S') = kv_counted (kv_of pf S) + of_nat (sum_list (map (keys_looked_up \<circ> fst) (zip rs os)))"
      "length os = length rs" by blast+
  then show ?thesis unfolding c by (simp flip: map_map)
qed

text \<open>C30: Backpressure. With validated thresholds, one iteration of the monitor on a full pool sets the reject
  level; from then on every store, well-formed or not, is refused with the pressure message before its stream
  is read, nothing is changed, and the node reports itself unhealthy.\<close>

theorem full_pool_backpressure:
  assumes "svc_inv pf S" and "validate (as_config (cs_state S)) = Inr ()"
    and "ps_used_blocks (ba_stats (svc_allocator S)) = mp_total_blocks (ba_pool (svc_allocator S))"
  shows "\<exists>S'. svc_step pf Tick S = Inr (Silent, S') \<and> as_pressure_level (cs_state S') = PRESSURE_REJECT \<and>
    (\<forall>now stream. store pf now stream S' = Inr (Inl (Status ResourceExhausted
       (''memory pressure too high '' @ [CHR 0xE2, CHR 0x80, CHR 0x94] @ '' store rejected'')), [], S')) \<and>
    (\<forall>now. \<not> hs_healthy (health now S'))"
proof -
  let ?m = "cfg_memory (as_config (cs_state S))" and ?A = "svc_allocator S"
  obtain r where r: "mem_pressure_reject ?m = Fin r" "r \<le> 1"
    using assms(2) unfolding validate_ok_iff thresholds_ok_def by blast
  have "0 < mp_total_blocks (ba_pool ?A)"
    using svc_invD(1) [OF assms(1)] by (simp add: store_inv_def alloc_inv_def pool_inv_def pool_wf_def)
  then have "pool_usage (ba_stats ?A) = Fin 1"
    using usage_full [of "ba_stats ?A"] assms(3) by (simp add: ba_stats_def stats_def Let_def)
  then have l: "fst (monitor_tick (mem_pressure_warn ?m) (mem_pressure_critical ?m) (mem_pressure_reject ?m)
      (as_allocator (cs_state S)) p) = PRESSURE_REJECT" for p
    using r by (simp add: monitor_tick_def level_of_def f64_ge_def svc_allocator_def Let_def)
  define S' where "S' = S\<lparr>cs_state := (cs_state S)\<lparr>as_pressure_level := PRESSURE_REJECT\<rparr>\<rparr>"
  have "svc_step pf Tick S = Inr (Silent, S')" using l by (simp add: Let_def split_beta S'_def)
  moreover have "as_pressure_level (cs_state S') = PRESSURE_REJECT" by (simp add: S'_def)
  ultimately show ?thesis by (intro exI [of _ S']) (simp add: store_def health_def)
qed

theorem full_pool_backpressure_witness:
  "\<exists>os S1 S2. svc_run demo_pf (replicate 4 (demo_put 1 [7])) demo_service = Inr (os, S1) \<and>
     svc_step demo_pf Tick S1 = Inr (Silent, S2) \<and> \<not> hs_healthy (health 0 S2)"
proof -
  have pre: "as_pressure_level (cs_state demo_service) < PRESSURE_REJECT"
      "length [7 :: u8] \<le> ba_max_data (svc_allocator demo_service)"
      "ps_used_blocks (ba_stats (svc_allocator demo_service)) + 4 = mp_total_blocks (ba_pool (svc_allocator demo_service))"
    using demo_service_params used_blocks [OF demo_service_inv] by (simp_all add: PRESSURE_REJECT_def HEADER_SIZE_def)
  obtain os S1 where S1: "svc_run demo_pf (replicate 4 (demo_put 1 [7])) demo_service = Inr (os, S1)" "svc_inv demo_pf S1"
      "ps_used_blocks (ba_stats (svc_allocator S1)) = mp_total_blocks (ba_pool (svc_allocator S1))"
    using store_until_full [OF demo_service_inv [of demo_pf] pre(1) demo_put_args [of demo_pf 1] pre(2,3), of None]
    unfolding demo_put_def by blast
  have "kv_params_of S1 = kv_params_of demo_service"
    using svc_run_induct [OF demo_service_inv S1(1), of "\<lambda>_ _. True"] by simp
  then have "as_config (cs_state S1) = default_config"
    by (simp add: kv_params_of_def demo_service_def service_new_def demo_state_def)
  then show ?thesis using full_pool_backpressure [OF S1(2) _ S1(3)] S1(1) default_config_valid by metis
qed

end
