(* ===== verification/GetStream.thy ===== *)
theory GetStream
  imports ServiceProps
begin

text \<open>
  The task that \<open>get\<close> spawns reads its block after the handler has returned, so other requests run in
  between. This theory shows what such an interleaving can do to the stream: nothing, as long as
  the key itself is not deleted, and a silent mix-up of data if it is deleted and the block is reused.
\<close>

section \<open>Blocks that survive a request\<close>

text \<open>Between two states a block stays owned and readable, and gets no new index entry.\<close>

definition keeps :: "platform \<Rightarrow> block_handle \<Rightarrow> cache_service \<Rightarrow> cache_service \<Rightarrow> bool" where
  "keeps pf h S S' \<longleftrightarrow>
     h \<in> ba_live (svc_allocator S') \<and> read_verified pf (svc_allocator S') h = read_verified pf (svc_allocator S) h \<and>
     (\<forall>x \<in> set (index_view (svc_index S')). entry_handle (snd x) = h \<longrightarrow> x \<in> set (index_view (svc_index S)))"

lemma keeps_refl: "h \<in> ba_live (svc_allocator S) \<Longrightarrow> keeps pf h S S"
  by (simp add: keeps_def)

lemma keeps_trans: "keeps pf h S S1 \<Longrightarrow> keeps pf h S1 S2 \<Longrightarrow> keeps pf h S S2"
  by (simp add: keeps_def)

lemma keeps_live: "keeps pf h S S' \<Longrightarrow> h \<in> ba_live (svc_allocator S')"
  by (simp add: keeps_def)

lemma keeps_counters [simp]:
  "keeps pf h S (hit S') = keeps pf h S S'" "keeps pf h S (miss S') = keeps pf h S S'"
  "keeps pf h S (S'\<lparr>cs_evictions := n\<rparr>) = keeps pf h S S'"
  "keeps pf h (hit S) S' = keeps pf h S S'" "keeps pf h (miss S) S' = keeps pf h S S'"
  by (simp_all add: keeps_def)

lemma find_keeps:
  assumes "svc_inv pf S" and "h \<in> ba_live (svc_allocator S)" and "index_lookup k (svc_index S) = Inr (r, I)"
  shows "keeps pf h S (set_index I S)" and "svc_inv pf (set_index I S)"
proof -
  have "index_view I = snd (cache_lookup k (index_view (svc_index S)))"
    using idx.lk_ok [OF svc_invD(3) [OF assms(1)], of k] assms(3) by auto
  then show "keeps pf h S (set_index I S)"
    using assms(2) cache_lookup_set [of k "index_view (svc_index S)"] by (auto simp: keeps_def)
  show "svc_inv pf (set_index I S)"
    by (rule find_ok [OF assms(1), of k]) (use assms(3) in simp)
qed

lemma lookup_keeps:
  assumes "svc_inv pf S" and "h \<in> ba_live (svc_allocator S)" and "lookup pf req S = Inr (r, S')"
  shows "keeps pf h S S'"
  using assms find_keeps(1) [OF assms(1,2)] keeps_refl [OF assms(2)]
  by (auto simp: lookup_def Let_def split: sum.splits option.splits list.splits)

lemma get_keeps:
  assumes "svc_inv pf S" and "h \<in> ba_live (svc_allocator S)" and "get pf req S = Inr (r, S')"
  shows "keeps pf h S S'"
  using assms find_keeps(1) [OF assms(1,2)] keeps_refl [OF assms(2)]
  by (auto simp: get_def Let_def split: sum.splits option.splits)

lemma batch_keeps:
  "svc_inv pf S \<Longrightarrow> h \<in> ba_live (svc_allocator S) \<Longrightarrow> batch_loop pf m hs fs ls S = Inr (r, S') \<Longrightarrow> keeps pf h S S'"
proof (induction hs arbitrary: fs ls S)
  case Nil
  then show ?case by (simp add: keeps_refl)
next
  case (Cons raw hs)
  show ?case
  proof (cases "parse_prefix_hash raw")
    case (Inl st)
    then show ?thesis using Cons.prems by (simp add: keeps_refl)
  next
    case (Inr p)
    obtain q I where q: "index_lookup (composite_key pf m p) (svc_index S) = Inr (q, I)"
      using find_ok [OF Cons.prems(1)] by metis
    note f = find_keeps [OF Cons.prems(1,2) q]
    let ?S1 = "case q of None \<Rightarrow> miss (set_index I S) | Some e \<Rightarrow> hit (set_index I S)"
    have S1: "svc_inv pf ?S1" "keeps pf h S ?S1" using f by (auto split: option.split)
    obtain fs' ls' where "batch_loop pf m hs fs' ls' ?S1 = Inr (r, S')"
      using Cons.prems(3) Inr q by (cases q) (auto simp: Let_def)
    from Cons.IH [OF S1(1) keeps_live [OF S1(2)] this] show ?thesis using keeps_trans S1(2) by blast
  qed
qed

lemma store_effect:
  assumes "store pf now stream S = Inr (y, ts, S')"
  shows "S' = S \<or> (\<exists>k d. store_args pf stream = Inr (Inr (k, d)) \<and> store_data pf now k d S = Inr (y, ts, S'))"
proof (cases "store_args pf stream")
  case (Inr a)
  then show ?thesis using assms by (cases a) (auto simp: store_split split: if_splits)
qed (use assms in \<open>auto simp: store_split split: if_splits\<close>)

lemma store_keeps:
  assumes "svc_inv pf S" and "h \<in> ba_live (svc_allocator S)" and "store_data pf now k d S = Inr (r, ts, S')"
  shows "keeps pf h S S'"
proof -
  let ?A = "svc_allocator S"
  note inv = svc_invD [OF assms(1)]
  show ?thesis
  proof (cases rule: ba.wr_cases [OF inv(1), of pf d, case_names full stored])
    case full
    then show ?thesis using assms(2,3) by (simp add: store_data_def keeps_refl)
  next
    case (stored h1 A')
    define e where "e = \<lparr>ie_blocks = [location_of ?A h1 (ba_generation ?A)], ie_created_at = monotonic_now now\<rparr>"
    obtain ev I where I: "index_insert k (ie_blocks e) (monotonic_now now) (svc_index S) = Inr (ev, I)"
        "index_view I = snd (cache_insert (bi_capacity (svc_index S)) k e (index_view (svc_index S)))"
      using idx.ins_ok [OF inv(3), of k e] by (auto simp: index_put_def e_def)
    have "keeps pf h S (set_index I (set_allocator A' S))"
    proof -
      have "handles_fit A'" "h1 \<in> ba_live A'" using handles_fit_geometry [OF stored(7)] inv(2) stored(6) by simp_all
      then have "entry_handle e = h1" using new_entry(1) [OF stored(4) _ stored(7) _ stored(9), of e] by (simp add: e_def)
      then have "entry_handle e \<noteq> h" using stored(5) assms(2) by blast
      then show ?thesis
        using cache_insert_set [of "bi_capacity (svc_index S)" k e "index_view (svc_index S)"] I(2) stored(6,10) assms(2)
        by (auto simp: keeps_def)
    qed
    then show ?thesis using assms(3) stored(1) I(1) by (auto simp: store_data_def e_def Let_def)
  qed
qed

lemma deleted_block:
  assumes "svc_inv pf S" and "(dq_prefix_hash req, e) \<in> set (index_view (svc_index S))"
    and "entry_handle e \<in> ba_live (svc_allocator S)" and "ie_blocks e = [location_of (svc_allocator S) (entry_handle e) g]"
    and "delete req S = Inr (r, S')" and "length (dq_prefix_hash req) = 16"
  shows "ba_deallocate (svc_allocator S) (entry_handle e) = Inr (svc_allocator S')"
    and "index_view (svc_index S') = drop_key (dq_prefix_hash req) (index_view (svc_index S))" and "svc_inv pf S'"
proof -
  let ?k = "dq_prefix_hash req"
  note inv = svc_invD [OF assms(1)]
  obtain A where A: "ba_deallocate (svc_allocator S) (entry_handle e) = Inr A" using ba.de_ok [OF inv(1) assms(3)] by blast
  have "map_of (index_view (svc_index S)) ?k = Some e" using assms(2) idx.distinct_view [OF inv(3)] by simp
  then obtain I where I: "index_remove ?k (svc_index S) = Inr (Some e, I)" "index_view I = drop_key ?k (index_view (svc_index S))"
    using idx.rm_ok [OF inv(3), of ?k] by (auto simp: cache_remove_def)
  have "free_blocks (ie_blocks e) (svc_allocator S) = Inr A"
    using A handle_of_location [OF inv(1,2) assms(3), of g] by (subst assms(4)) simp
  then have "S' = set_allocator A (set_index I S)"
    using assms(5,6) I(1) by (simp add: delete_def parse_prefix_hash_def Let_def)
  then show "ba_deallocate (svc_allocator S) (entry_handle e) = Inr (svc_allocator S')"
      "index_view (svc_index S') = drop_key ?k (index_view (svc_index S))"
    using A I(2) by simp_all
  have "svc_step pf (DoDelete req) S = Inr (case_sum Refused DeleteReply r, S')" using assms(5) by simp
  then show "svc_inv pf S'" by (rule step_kv(1) [OF assms(1)])
qed

lemma delete_keeps:
  assumes "svc_inv pf S" and "h \<in> ba_live (svc_allocator S)" and "delete req S = Inr (r, S')"
    and "\<forall>e. (dq_prefix_hash req, e) \<in> set (index_view (svc_index S)) \<longrightarrow> entry_handle e \<noteq> h"
  shows "keeps pf h S S'"
proof (cases "length (dq_prefix_hash req) = 16 \<and> map_of (index_view (svc_index S)) (dq_prefix_hash req) \<noteq> None")
  case False
  have "S' = set_index (svc_index S) S \<or> S' = S"
    using False assms(3) map_of_view [OF svc_invD(3) [OF assms(1)]]
    by (auto simp: delete_def parse_prefix_hash_def index_remove_def split: if_splits)
  then show ?thesis using assms(2) by (auto simp: keeps_def)
next
  case True
  note inv = svc_invD [OF assms(1)]
  obtain e where e: "(dq_prefix_hash req, e) \<in> set (index_view (svc_index S))" using True map_of_SomeD by fastforce
  obtain g where eh: "entry_handle e \<in> ba_live (svc_allocator S)" "ie_blocks e = [location_of (svc_allocator S) (entry_handle e) g]"
    using entry_okD [OF inv(4) [OF e]] by (metis snd_conv)
  note d = deleted_block [OF assms(1) e eh assms(3) conjunct1 [OF True]]
  have "ba_live (svc_allocator S') = ba_live (svc_allocator S) - {entry_handle e}"
      "\<forall>h'. read_verified pf (svc_allocator S') h' = read_verified pf (svc_allocator S) h'"
    using ba.de_ok [OF inv(1) eh(1), of pf] d(1) by auto
  then show ?thesis using d(2) assms(2,4) e by (auto simp: keeps_def)
qed

lemma step_keeps:
  assumes "svc_inv pf S" and "h \<in> ba_live (svc_allocator S)" and "svc_step pf r S = Inr (x, S')"
    and "\<forall>req e. r = DoDelete req \<longrightarrow> (dq_prefix_hash req, e) \<in> set (index_view (svc_index S)) \<longrightarrow> entry_handle e \<noteq> h"
  shows "keeps pf h S S'"
proof (cases r)
  case (DoLookup req)
  then show ?thesis using assms(3) lookup_keeps [OF assms(1,2)] by auto
next
  case (DoBatch req)
  then show ?thesis using assms(3) batch_keeps [OF assms(1,2)] by (auto simp: batch_lookup_def)
next
  case (DoStore now stream)
  then obtain y ts where "store pf now stream S = Inr (y, ts, S')" using assms(3) by auto
  from store_effect [OF this] show ?thesis using store_keeps [OF assms(1,2)] keeps_refl [OF assms(2)] by blast
next
  case (DoGet req n)
  then obtain y S1 where y: "get pf req S = Inr (y, S1)" using assms(3) by auto
  then have "S' = S1" using assms(3) DoGet by (cases y) auto
  then show ?thesis using get_keeps [OF assms(1,2) y] by blast
next
  case (DoDelete req)
  then obtain y where "delete req S = Inr (y, S')" using assms(3) by auto
  then show ?thesis using delete_keeps [OF assms(1,2)] DoDelete assms(4) by blast
qed (use assms in \<open>auto simp: keeps_def svc_allocator_def svc_index_def Let_def split_beta\<close>)

lemma get_entry:
  assumes "svc_inv pf S" and "get pf req S = Inr (Inr entry, S1)"
  defines "k \<equiv> composite_key pf (gq_model_id req) (gq_prefix_hash req)"
  shows "svc_inv pf S1" and "(k, entry) \<in> set (index_view (svc_index S1))" and "length (gq_prefix_hash req) = 16"
    and "svc_allocator S1 = svc_allocator S"
proof -
  show len: "length (gq_prefix_hash req) = 16"
    using assms(2) by (auto simp: get_def parse_prefix_hash_def split: if_splits)
  obtain I where I: "index_lookup k (svc_index S) = Inr (Some entry, I)" "S1 = hit (set_index I S)"
    using assms(2) len by (auto simp: get_def parse_prefix_hash_def k_def Let_def split: option.splits)
  then have "index_view I = snd (cache_lookup k (index_view (svc_index S)))"
      "fst (cache_lookup k (index_view (svc_index S))) = Some entry"
    using idx.lk_ok [OF svc_invD(3) [OF assms(1)], of k] by auto
  then have "(k, entry) \<in> set (index_view I)" by (auto simp: cache_lookup_def split: option.splits)
  then show "(k, entry) \<in> set (index_view (svc_index S1))" using I(2) by simp
  show "svc_allocator S1 = svc_allocator S" using I(2) by simp
  show "svc_inv pf S1" using find_ok [OF assms(1), of k] I by (metis counter_simps(1) sum.inject(2) prod.inject)
qed

section \<open>Properties\<close>

text \<open>C11: A stream in progress is not disturbed by other requests. Let \<open>get\<close> have found its entry, and let any
  requests, monitor iterations and watch updates run before the task reads the block: stores, also of the same
  key, gets and deletes of other keys included, but no delete of this key. Then the task streams exactly the
  header and the data that it would have streamed at once.\<close>

theorem get_stream_stable:
  assumes "svc_inv pf S" and "get pf req S = Inr (Inr entry, S1)" and "svc_run pf rs S1 = Inr (os, S2)"
    and "\<forall>r \<in> set rs. \<forall>d. r = DoDelete d \<longrightarrow> dq_prefix_hash d \<noteq> composite_key pf (gq_model_id req) (gq_prefix_hash req)"
  shows "get_task pf (\<lambda>_. svc_allocator S2) entry n = get_task pf (\<lambda>_. svc_allocator S1) entry n \<and>
    (\<exists>g d. map_of (kv_entries (kv_of pf S)) (composite_key pf (gq_model_id req) (gq_prefix_hash req)) = Some (g, d) \<and>
      get_task pf (\<lambda>_. svc_allocator S2) entry n = Inr (take n (kv_messages (kv_params_of S) g d)))"
proof -
  let ?k = "composite_key pf (gq_model_id req) (gq_prefix_hash req)" and ?h = "entry_handle entry"
  note e = get_entry [OF assms(1,2)]
  obtain g d where ok: "?h \<in> ba_live (svc_allocator S1)" "ie_blocks entry = [location_of (svc_allocator S1) ?h g]"
      "read_verified pf (svc_allocator S1) ?h = Inr (Some d)"
    using entry_okD [OF svc_invD(4) [OF e(1,2)]] by (metis snd_conv)
  have own: "fst x = ?k" if "x \<in> set (index_view (svc_index S1))" "entry_handle (snd x) = ?h" for x
    using svc_invD(5) [OF e(1)] that e(2) by (auto simp: distinct_map inj_on_def)
  have "keeps pf ?h S1 S2 \<and> svc_inv pf S2 \<and> kv_params_of S2 = kv_params_of S1 \<and> length os = length rs"
    using e(1) assms(3)
  proof (induction rule: svc_run_induct)
    case start
    show ?case using ok(1) by (rule keeps_refl)
  next
    case (step ts r x Sa Sb)
    have "entry_handle q \<noteq> ?h" if "r = DoDelete dr" "(dq_prefix_hash dr, q) \<in> set (index_view (svc_index Sa))" for dr q
      using own [of "(dq_prefix_hash dr, q)"] step(1,2) assms(4) that by (auto simp: keeps_def)
    then show ?case using step_keeps [OF step(3) keeps_live [OF step(1)] step(5)] keeps_trans step(1) by blast
  qed
  then have rd: "read_verified pf (svc_allocator S2) ?h = Inr (Some d)" using ok(3) by (simp add: keeps_def)
  have eq: "get_task pf (\<lambda>_. svc_allocator S2) entry n = get_task pf (\<lambda>_. svc_allocator S1) entry n"
    unfolding get_task_ok [of pf "\<lambda>_. svc_allocator S2", OF rd ok(2)] get_task_ok [of pf "\<lambda>_. svc_allocator S1", OF ok(3,2)] ..
  obtain ms where ms: "get_task pf (\<lambda>_. svc_allocator S1) entry n = Inr ms"
    using get_task_ok [of pf "\<lambda>_. svc_allocator S1", OF ok(3,2)] by blast
  then have "svc_step pf (DoGet req n) S = Inr (GetReply ms, S1)" using assms(2) by simp
  from get_kv [OF assms(1) this] show ?thesis using eq ms by auto
qed

theorem get_stream_stable_witness:
  "\<exists>m ps S0 entry S1 os S2. svc_step demo_pf (demo_put 1 [7]) demo_service = Inr (StoreReply m ps, S0) \<and>
     get demo_pf \<lparr>gq_prefix_hash = replicate 16 1, gq_num_blocks = 1, gq_source_node_id = [], gq_model_id = []\<rparr> S0 =
       Inr (Inr entry, S1) \<and>
     svc_run demo_pf [Tick, demo_put 1 [8], demo_delete 2] S1 = Inr (os, S2) \<and>
     get_task demo_pf (\<lambda>_. svc_allocator S2) entry 5 = get_task demo_pf (\<lambda>_. svc_allocator S1) entry 5"
proof -
  let ?req = "\<lparr>gq_prefix_hash = replicate 16 1, gq_num_blocks = 1, gq_source_node_id = [], gq_model_id = []\<rparr>"
  let ?rs = "[Tick, demo_put 1 [8], demo_delete 2]"
  obtain m ps S0 where S0: "svc_step demo_pf (demo_put 1 [7]) demo_service = Inr (StoreReply m ps, S0)" "svc_inv demo_pf S0"
      "index_contains (replicate 16 1) (svc_index S0)"
    using demo_step by metis
  obtain entry S1 where S1: "get demo_pf ?req S0 = Inr (Inr entry, S1)"
    using get_found [OF S0(2), of ?req] S0(3) by (auto simp: composite_key_def)
  note e = get_entry [OF S0(2) S1]
  have "\<forall>now stream header. DoStore now stream \<in> set ?rs \<longrightarrow>
      store_header_of stream = Inr header \<longrightarrow> unat (sh_total_size header) < 2 ^ 63"
    by (auto simp: demo_put_def demo_delete_def store_header_of_def demo_header_def)
  then obtain os S2 where S2: "svc_run demo_pf ?rs S1 = Inr (os, S2)" using run_completes [OF e(1)] by blast
  have "\<forall>r \<in> set ?rs. \<forall>d. r = DoDelete d \<longrightarrow> dq_prefix_hash d \<noteq> composite_key demo_pf (gq_model_id ?req) (gq_prefix_hash ?req)"
    by (auto simp: demo_put_def demo_delete_def composite_key_def)
  from get_stream_stable [OF S0(2) S1 S2 this, of 5] show ?thesis using S0(1) S1 S2 by blast
qed

lemma step_getD:
  assumes "svc_step pf (DoGet req n) S = Inr (GetReply ms, S')"
  shows "\<exists>entry. get pf req S = Inr (Inr entry, S')"
proof -
  obtain y S1 where y: "get pf req S = Inr (y, S1)" using assms by auto
  then show ?thesis using assms by (cases y) auto
qed

lemma step_storeD:
  assumes "svc_step pf (DoStore now stream) S = Inr (StoreReply m ps, S')"
  shows "\<exists>ts. store pf now stream S = Inr (Inr m, ts, S')"
proof -
  obtain y ts S1 where y: "store pf now stream S = Inr (y, ts, S1)" using assms by auto
  then show ?thesis using assms by (cases y) auto
qed

lemma written_handle:
  "allocate_and_write pf A d = Inr (Some (l, h), A') \<Longrightarrow> \<exists>p. allocate (ba_pool A) = Some (h, p)"
  by (auto simp: allocate_and_write_def Let_def split: if_splits option.splits)

lemma store_success:
  assumes "svc_inv pf S" and "store pf now stream S = Inr (Inr m, ts, S')" and "store_args pf stream = Inr (Inr (k, d))"
  obtains l h where "allocate_and_write pf (svc_allocator S) d = Inr (Some (l, h), svc_allocator S')"
    and "read_verified pf (svc_allocator S') h = Inr (Some d)"
proof -
  have sd: "store_data pf now k d S = Inr (Inr m, ts, S')" using assms(2,3) by (auto simp: store_split split: if_splits)
  show ?thesis
  proof (cases rule: ba.wr_cases [OF svc_invD(1) [OF assms(1)], of pf d, case_names full stored])
    case full
    then show ?thesis using sd by (simp add: store_data_def)
  next
    case (stored h A')
    then have "svc_allocator S' = A'" using sd by (auto simp: store_data_def Let_def)
    then show ?thesis using that stored(1,9) by blast
  qed
qed

text \<open>The free list is a stack: the block of a deleted entry is the next one to be handed out.\<close>

lemma block_reused:
  assumes "svc_inv pf S" and "(k, e) \<in> set (index_view (svc_index S))" and "length k = 16"
    and "delete \<lparr>dq_prefix_hash = k\<rparr> S = Inr (m, S1)"
    and "store pf now stream S1 = Inr (Inr m', ts, S2)" and "store_args pf stream = Inr (Inr (k', d'))"
  shows "read_verified pf (svc_allocator S2) (entry_handle e) = Inr (Some d')"
proof -
  let ?h = "entry_handle e"
  note inv = svc_invD [OF assms(1)]
  obtain g where ok: "?h \<in> ba_live (svc_allocator S)" "ie_blocks e = [location_of (svc_allocator S) ?h g]"
    using entry_okD [OF inv(4) [OF assms(2)]] by (metis snd_conv)
  obtain p where p: "deallocate (ba_pool (svc_allocator S)) ?h = Inr p" "allocate p = Some (?h, ba_pool (svc_allocator S))"
    using dealloc_then_alloc [of "ba_pool (svc_allocator S)" ?h] ok(1) inv(1) by (auto simp: store_inv_def alloc_inv_def)
  have S1: "ba_pool (svc_allocator S1) = p" "svc_inv pf S1"
    using deleted_block [OF assms(1) _ ok assms(4)] assms(2,3) p(1) by (auto simp: ba_deallocate_Inr)
  obtain l h where h: "allocate_and_write pf (svc_allocator S1) d' = Inr (Some (l, h), svc_allocator S2)"
      "read_verified pf (svc_allocator S2) h = Inr (Some d')"
    using store_success [OF S1(2) assms(5,6)] by metis
  have "h = ?h" using written_handle [OF h(1)] S1(1) p(2) by auto
  then show ?thesis using h(2) by simp
qed

text \<open>A stream can silently carry the data of another key. If the key is deleted after the handler of \<open>get\<close> has
  found its entry, and another key is stored before the task reads the block, then the free list hands out the
  very same block, and the task streams the data of the new key under a header with the
  generation of the old one. The checksum is that of the new data, so it verifies, and the generation is never compared.\<close>

lemma get_stream_race:
  assumes "svc_inv pf S" and "gq_model_id req = []" and "get pf req S = Inr (Inr entry, S1)"
    and "delete \<lparr>dq_prefix_hash = gq_prefix_hash req\<rparr> S1 = Inr (m, S2)"
    and "store pf now stream S2 = Inr (Inr m', ts, S3)" and "store_args pf stream = Inr (Inr (k', d'))"
  shows "\<exists>g d. map_of (kv_entries (kv_of pf S)) (gq_prefix_hash req) = Some (g, d) \<and>
    get_task pf (\<lambda>_. svc_allocator S3) entry n = Inr (take n (kv_messages (kv_params_of S) g d'))"
proof -
  let ?k = "gq_prefix_hash req" and ?h = "entry_handle entry"
  have key: "composite_key pf (gq_model_id req) (gq_prefix_hash req) = ?k" by (simp add: composite_key_def assms(2))
  note e = get_entry [OF assms(1,3), unfolded key]
  note inv1 = svc_invD [OF e(1)]
  obtain g d where ok: "?h \<in> ba_live (svc_allocator S1)" "ie_blocks entry = [location_of (svc_allocator S1) ?h g]"
      "read_verified pf (svc_allocator S1) ?h = Inr (Some d)" "entry_value pf (svc_allocator S1) entry = (g, d)"
    using entry_okD [OF inv1(4) [OF e(2)]] by (metis snd_conv)
  have "read_verified pf (svc_allocator S3) ?h = Inr (Some d')" by (rule block_reused [OF e(1-3) assms(4-6)])
  then have task: "get_task pf (\<lambda>_. svc_allocator S3) entry n = Inr (take n (kv_messages (kv_params_of S1) g d'))"
    using get_task_ok [of pf "\<lambda>_. svc_allocator S3" entry d' "location_of (svc_allocator S1) ?h g" n] ok(2)
    by (simp add: kv_messages_def location_of_def)
  have step: "svc_step pf (DoGet req 0) S = Inr (GetReply [], S1)"
    using assms(3) get_task_ok [of pf "\<lambda>_. svc_allocator S1", OF ok(3,2), of 0] by simp
  have "map_of (index_view (svc_index S1)) ?k = Some entry" using e(2) idx.distinct_view [OF inv1(3)] by simp
  then have "map_of (kv_entries (kv_of pf S1)) ?k = Some (g, d)" using ok(4) by (simp add: kv_of_def map_of_apsnd)
  moreover have "kv_frame (kv_of pf S) (kv_of pf S1)"
    using step_kv(3) [OF assms(1) step] svc_inv_kv_wf(1) [OF assms(1)] by (cases rule: kv_step_cases) auto
  ultimately have "map_of (kv_entries (kv_of pf S)) ?k = Some (g, d)" by (simp add: kv_frame_def)
  then show ?thesis using task step_kv(2) [OF assms(1) step] by auto
qed

end
