(* ===== verification/AgentMain.thy ===== *)
theory AgentMain
  imports ServiceProps
begin

text \<open>
  The agent process, \<^verbatim>\<open>crates/cmx-agent/src/main.rs\<close>: how start-up composes the components, the
  limit it puts on connections, what it serves, and what happens at shutdown.

  The surroundings of the process are one record: the file system, the TOML parser, the environment, the
  host name, the metrics exporter, \<open>mmap\<close>, the memory the system grants to the global allocator, the etcd client and the clock. The state of
  etcd is threaded through the calls. Log lines are not modelled, and the tonic server is the list of requests it dispatches. The first pool of
  the process gets identifier 0, the initial value of \<open>NEXT_POOL_ID\<close>.
\<close>

section \<open>Start-up\<close>

record 'e surroundings =
  file_exists :: "string \<Rightarrow> bool"
  read_file :: "string \<Rightarrow> string option"
  toml_parse :: "string \<Rightarrow> config_document option"
  env_var :: "string \<Rightarrow> string option"
  host_name :: "bytes option"
  metrics_install :: "socket_addr \<Rightarrow> bool"
  os_mmap :: "usize \<Rightarrow> io_error + usize"
  etcd_connect :: "string list \<Rightarrow> etcd_error + unit"
  etcd :: "'e etcd_api"
  json :: codec
  crypto :: platform
  now_instant :: u64
  filter_parses :: "string \<Rightarrow> bool"
  create_file :: "string \<Rightarrow> bool"
  bind_addr :: "socket_addr \<Rightarrow> bool"
  signals_install :: bool
  can_reserve :: "usize \<Rightarrow> bool"

datatype startup_error =
    LoadFailed load_error
  | ValidationFailed "config_error list"
  | BadMetricsAddr
  | MetricsFailed
  | PoolFailed pool_error
  | BadListenAddr

definition load_config :: "('e, 'm) surroundings_scheme \<Rightarrow> string \<Rightarrow> startup_error + agent_config" where
  "load_config W path =
     (if file_exists W path
      then map_sum LoadFailed id (load (read_file W) (toml_parse W) path)
      else Inr default_config)"





text \<open>\<^verbatim>\<open>crates/cmx-agent/src/metrics.rs\<close>: the exporter of a third-party crate, installed or not.\<close>

definition install_metrics_recorder :: "('e, 'm) surroundings_scheme \<Rightarrow> socket_addr \<Rightarrow> startup_error + unit" where
  "install_metrics_recorder W addr = (if metrics_install W addr then Inr () else Inl MetricsFailed)"

text \<open>The etcd client: a failure to register or to keep the lease alive is only logged.\<close>

definition connect_metadata :: "('e, 'm) surroundings_scheme \<Rightarrow> agent_config \<Rightarrow> 'e \<Rightarrow> metadata_client option \<times> 'e" where
  "connect_metadata W config e =
     (case connect (etcd_connect W) (md_etcd_endpoints (cfg_metadata config)) (ag_node_id (cfg_agent config))
             (ag_listen_addr (cfg_agent config)) (sint (md_lease_ttl_seconds (cfg_metadata config))) of
        Inr client \<Rightarrow>
          (case register_node (etcd W) (json W) client e of
             (Inl _, client1, e1) \<Rightarrow> (Some client1, e1)
           | (Inr _, client1, e1) \<Rightarrow> (Some client1, snd (start_keepalive (etcd W) client1 e1)))
      | Inl _ \<Rightarrow> (None, e))"

definition init_ring :: "('e, 'm) surroundings_scheme \<Rightarrow> agent_config \<Rightarrow> metadata_client option \<Rightarrow> 'e \<Rightarrow> hash_ring \<times> 'e" where
  "init_ring W config metadata e =
     (let ring = ring_new (pl_vnodes_per_node (cfg_placement config)) in
      case metadata of
        None \<Rightarrow> (ring, e)
      | Some _ \<Rightarrow> (add_node (crypto W) (ag_node_id (cfg_agent config)) ring, snd (start_block_watch (etcd W) e)))"

text \<open>From the loaded configuration to the service.\<close>

definition startup_with ::
    "('e, 'm) surroundings_scheme \<Rightarrow> agent_config \<Rightarrow> 'e \<Rightarrow> (startup_error + cache_service \<times> socket_addr) \<times> 'e" where
  "startup_with W config0 e =
     (case validate config0 of
        Inl errors \<Rightarrow> (Inl (ValidationFailed errors), e)
      | Inr _ \<Rightarrow>
      let config = resolve_node_id (env_var W) (host_name W) config0 in
      case parse_socket_addr (mt_listen_addr (cfg_metrics config)) of
        None \<Rightarrow> (Inl BadMetricsAddr, e)
      | Some metrics_addr \<Rightarrow>
      (case install_metrics_recorder W metrics_addr of
        Inl err \<Rightarrow> (Inl err, e)
      | Inr _ \<Rightarrow>
      (case fst (pool_new (os_mmap W) 0 (mem_total_size (cfg_memory config)) (mem_block_size (cfg_memory config))) of
        Inl err \<Rightarrow> (Inl (PoolFailed err), e)
      | Inr pool \<Rightarrow>
      let allocator = allocator_new pool 0;
          max_entries = mem_total_size (cfg_memory config) div mem_block_size (cfg_memory config);
          index = index_new max_entries;
          (metadata, e1) = connect_metadata W config e;
          (ring, e2) = init_ring W config metadata e1;
          agent_state = \<lparr>as_allocator = allocator, as_index = index, as_node_id = ag_node_id (cfg_agent config),
                         as_config = config, as_metadata = metadata, as_pressure_level = 0,
                         as_remote_index = Some remote_new, as_hash_ring = Some ring\<rparr>;
          service = service_new (now_instant W) agent_state
      in case parse_socket_addr (ag_listen_addr (cfg_agent config)) of
           None \<Rightarrow> (Inl BadListenAddr, e2)
         | Some addr \<Rightarrow> (Inr (service, addr), e2))))"

definition startup ::
    "('e, 'm) surroundings_scheme \<Rightarrow> string \<Rightarrow> 'e \<Rightarrow> (startup_error + cache_service \<times> socket_addr) \<times> 'e" where
  "startup W path e =
     (case load_config W path of
        Inl err \<Rightarrow> (Inl err, e)
      | Inr config \<Rightarrow> startup_with W config e)"

text \<open>The server: \<open>concurrency_limit_per_connection\<close> is set from the option named requests per second.\<close>

definition concurrency_limit :: "agent_config \<Rightarrow> usize option" where
  "concurrency_limit config =
     (if ag_max_requests_per_second (cfg_agent config) > 0
      then Some (unat (ag_max_requests_per_second (cfg_agent config))) else None)"







section \<open>Lemmas\<close>

lemma resolve_node_id_frame [simp]:
  "cfg_memory (resolve_node_id env hn c) = cfg_memory c" "cfg_metrics (resolve_node_id env hn c) = cfg_metrics c"
  "ag_listen_addr (cfg_agent (resolve_node_id env hn c)) = ag_listen_addr (cfg_agent c)"
  "cfg_placement (resolve_node_id env hn c) = cfg_placement c" "cfg_metadata (resolve_node_id env hn c) = cfg_metadata c"
  by (simp_all add: resolve_node_id_def split: option.split)

lemma startup_ok:
  assumes "load_config W path = Inr config" and "validate config = Inr ()"
    and "parse_socket_addr (mt_listen_addr (cfg_metrics config)) = Some ma" and "metrics_install W ma"
    and "os_mmap W (mem_total_size (cfg_memory config)) = Inr base"
  obtains p md ring e1 e2 addr where
    "startup W path e = (Inr (service_new (now_instant W)
       \<lparr>as_allocator = allocator_new p 0,
        as_index = index_new (mem_total_size (cfg_memory config) div mem_block_size (cfg_memory config)),
        as_node_id = ag_node_id (cfg_agent (resolve_node_id (env_var W) (host_name W) config)),
        as_config = resolve_node_id (env_var W) (host_name W) config, as_metadata = md, as_pressure_level = 0,
        as_remote_index = Some remote_new, as_hash_ring = Some ring\<rparr>, addr), e2)"
    and "pool_new (os_mmap W) 0 (mem_total_size (cfg_memory config)) (mem_block_size (cfg_memory config)) = (Inr p, 1)"
    and "connect_metadata W (resolve_node_id (env_var W) (host_name W) config) e = (md, e1)"
    and "init_ring W (resolve_node_id (env_var W) (host_name W) config) md e1 = (ring, e2)"
    and "parse_socket_addr (ag_listen_addr (cfg_agent config)) = Some addr"
proof -
  let ?c = "resolve_node_id (env_var W) (host_name W) config"
  have sz: "0 < mem_block_size (cfg_memory config)" "0 < mem_total_size (cfg_memory config)"
      "mem_block_size (cfg_memory config) dvd mem_total_size (cfg_memory config)"
    and "parse_socket_addr (ag_listen_addr (cfg_agent config)) \<noteq> None"
    using assms(2) unfolding validate_ok_iff sizes_ok_def by simp_all
  then obtain addr where addr: "parse_socket_addr (ag_listen_addr (cfg_agent config)) = Some addr" by blast
  obtain p where p: "pool_new (os_mmap W) 0 (mem_total_size (cfg_memory config)) (mem_block_size (cfg_memory config)) = (Inr p, 1)"
    using sz assms(5) by (simp add: pool_new_def Let_def dvd_eq_mod_eq_0)
  obtain md e1 where md: "connect_metadata W ?c e = (md, e1)" by force
  obtain ring e2 where ring: "init_ring W ?c md e1 = (ring, e2)" by force
  show ?thesis
    by (rule that [OF _ p md ring addr]) (use assms(1-4) p md ring addr in \<open>simp add: startup_def startup_with_def install_metrics_recorder_def Let_def\<close>)
qed

lemma startup_Inr:
  assumes "startup W path e = (Inr (S, addr), e')"
  obtains config ma base where "load_config W path = Inr config" and "validate config = Inr ()"
    and "parse_socket_addr (mt_listen_addr (cfg_metrics config)) = Some ma" and "metrics_install W ma"
    and "os_mmap W (mem_total_size (cfg_memory config)) = Inr base"
proof -
  obtain config where c: "load_config W path = Inr config" using assms by (cases "load_config W path") (auto simp: startup_def startup_with_def install_metrics_recorder_def)
  then have v: "validate config = Inr ()" using assms by (cases "validate config") (auto simp: startup_def startup_with_def install_metrics_recorder_def)
  obtain ma where m: "parse_socket_addr (mt_listen_addr (cfg_metrics config)) = Some ma"
    using assms c v by (cases "parse_socket_addr (mt_listen_addr (cfg_metrics config))") (auto simp: startup_def startup_with_def install_metrics_recorder_def Let_def)
  have i: "metrics_install W ma" using assms c v m by (cases "metrics_install W ma") (auto simp: startup_def startup_with_def install_metrics_recorder_def Let_def)
  obtain base where "os_mmap W (mem_total_size (cfg_memory config)) = Inr base"
  proof (cases "os_mmap W (mem_total_size (cfg_memory config))")
    case (Inl err)
    have "0 < mem_block_size (cfg_memory config)" "0 < mem_total_size (cfg_memory config)"
        "mem_block_size (cfg_memory config) dvd mem_total_size (cfg_memory config)"
      using v unfolding validate_ok_iff sizes_ok_def by simp_all
    then show ?thesis using assms c v m i Inl by (simp add: startup_def startup_with_def install_metrics_recorder_def Let_def pool_new_def dvd_eq_mod_eq_0)
  qed (use that in blast)
  then show ?thesis using that c v m i by blast
qed

lemma startup_service:
  assumes "startup W path e = (Inr (S, addr), e')"
  obtains config p md ring where "load_config W path = Inr config" and "validate config = Inr ()"
    and "fst (pool_new (os_mmap W) 0 (mem_total_size (cfg_memory config)) (mem_block_size (cfg_memory config))) = Inr p"
    and "S = service_new (now_instant W)
       \<lparr>as_allocator = allocator_new p 0,
        as_index = index_new (mem_total_size (cfg_memory config) div mem_block_size (cfg_memory config)),
        as_node_id = ag_node_id (cfg_agent (resolve_node_id (env_var W) (host_name W) config)),
        as_config = resolve_node_id (env_var W) (host_name W) config, as_metadata = md, as_pressure_level = 0,
        as_remote_index = Some remote_new, as_hash_ring = Some ring\<rparr>"
proof (rule startup_Inr [OF assms])
  fix config ma base
  assume h: "load_config W path = Inr config" "validate config = Inr ()"
    "parse_socket_addr (mt_listen_addr (cfg_metrics config)) = Some ma" "metrics_install W ma"
    "os_mmap W (mem_total_size (cfg_memory config)) = Inr base"
  show thesis
    by (rule startup_ok [OF h, of e]) (use assms that h(1,2) in auto)
qed

text \<open>The configurations for which the block arithmetic of the service is exact.\<close>

definition sizes_in_range :: "memory_section \<Rightarrow> bool" where
  "sizes_in_range m \<longleftrightarrow>
     HEADER_SIZE \<le> mem_block_size m \<and> mem_block_size m - HEADER_SIZE < 2 ^ 32 \<and>
     mem_total_size m div mem_block_size m \<le> 2 ^ 32 \<and> mem_total_size m < 2 ^ 64"

lemma fresh_agent_inv:
  assumes "sizes_ok m" and "sizes_in_range m" and "fst (pool_new mmap 0 (mem_total_size m) (mem_block_size m)) = Inr p"
    and "as_allocator st = allocator_new p 0" and "as_index st = index_new (mem_total_size m div mem_block_size m)"
  shows "svc_inv pf (service_new now st) \<and> kv_entries (kv_of pf (service_new now st)) = [] \<and>
    mp_total_blocks (ba_pool (svc_allocator (service_new now st))) = bi_capacity (svc_index (service_new now st)) \<and>
    ps_used_blocks (ba_stats (svc_allocator (service_new now st))) = 0"
proof -
  have sz: "0 < mem_block_size m" "0 < mem_total_size m" "mem_block_size m dvd mem_total_size m"
      "mem_total_size m div mem_block_size m \<le> 2 ^ 32"
    using assms(1,2) by (simp_all add: sizes_ok_def sizes_in_range_def)
  obtain base where base: "mmap (mem_total_size m) = Inr base"
    using assms(3) sz by (auto simp: pool_new_def Let_def dvd_eq_mod_eq_0 split: sum.splits)
  obtain q where q: "pool_new mmap 0 (mem_total_size m) (mem_block_size m) = (Inr q, 0 + 1)" "pool_inv q" "live_handles q = {}"
      "mp_total_blocks q = mem_total_size m div mem_block_size m" "mp_block_size q = mem_block_size m"
      "mp_total_size q = mem_total_size m" "mp_pool_id q = 0"
    by (rule pool_new_establishes [where mmap = mmap and nid = 0, OF sz base], rule that)
  have p: "p = q" using assms(3) q(1) by simp
  have A: "store_inv (as_allocator st)" "handles_fit (as_allocator st)"
    using q assms(2,4) by (simp_all add: store_inv_def alloc_inv_def handles_fit_def allocator_new_def sizes_in_range_def p)
  have sel: "svc_allocator (service_new now st) = allocator_new q 0" "svc_index (service_new now st) = as_index st"
    using assms(4) p by (simp_all add: svc_allocator_def svc_index_def service_new_def)
  have "ps_used_blocks (ba_stats (allocator_new q 0)) = card (live_handles q)"
    using card_live_handles [OF q(2)] by (simp add: ba_stats_def stats_def allocator_new_def Let_def)
  then show ?thesis
    using fresh_service_inv [OF A assms(5), of pf now] q(3,4) assms(5)
    by (simp add: sel index_new_capacity) (simp add: allocator_new_def)
qed

lemma startup_inv:
  assumes "startup W path e = (Inr (S, addr), e')" and "sizes_in_range (cfg_memory (as_config (cs_state S)))"
  shows "svc_inv pf S" and "kv_entries (kv_of pf S) = []" and "cs_evictions S = 0"
    and "mp_total_blocks (ba_pool (svc_allocator S)) = bi_capacity (svc_index S)"
    and "ps_used_blocks (ba_stats (svc_allocator S)) = 0"
proof -
  obtain config p md ring where c: "validate config = Inr ()"
      "fst (pool_new (os_mmap W) 0 (mem_total_size (cfg_memory config)) (mem_block_size (cfg_memory config))) = Inr p"
    and S: "S = service_new (now_instant W)
       \<lparr>as_allocator = allocator_new p 0,
        as_index = index_new (mem_total_size (cfg_memory config) div mem_block_size (cfg_memory config)),
        as_node_id = ag_node_id (cfg_agent (resolve_node_id (env_var W) (host_name W) config)),
        as_config = resolve_node_id (env_var W) (host_name W) config, as_metadata = md, as_pressure_level = 0,
        as_remote_index = Some remote_new, as_hash_ring = Some ring\<rparr>"
    by (rule startup_service [OF assms(1)], rule that)
  have "sizes_in_range (cfg_memory config)" using assms(2) S by (simp add: service_new_def)
  moreover have "sizes_ok (cfg_memory config)" using c(1) unfolding validate_ok_iff by blast
  ultimately show "svc_inv pf S" "kv_entries (kv_of pf S) = []"
      "mp_total_blocks (ba_pool (svc_allocator S)) = bi_capacity (svc_index S)" "ps_used_blocks (ba_stats (svc_allocator S)) = 0"
    using fresh_agent_inv [OF _ _ c(2), of _ pf "now_instant W"] unfolding S by simp_all
  show "cs_evictions S = 0" by (simp add: S service_new_def)
qed





section \<open>Properties\<close>

text \<open>The agent starts exactly when its configuration can be loaded (or the file does not exist) and
  is valid, the address of the metrics exporter can be parsed and the exporter installs, and the memory can be
  mapped. Whether etcd can be reached, accepts the registration or the watches makes no
  difference. The listen address cannot fail any more, since validation has parsed it.\<close>

lemma startup_succeeds_iff:
  "(\<exists>S addr. fst (startup W path e) = Inr (S, addr)) \<longleftrightarrow>
    (\<exists>config ma base. load_config W path = Inr config \<and> validate config = Inr () \<and>
      parse_socket_addr (mt_listen_addr (cfg_metrics config)) = Some ma \<and> metrics_install W ma \<and>
      os_mmap W (mem_total_size (cfg_memory config)) = Inr base)"
proof
  assume "\<exists>S addr. fst (startup W path e) = Inr (S, addr)"
  then obtain S addr e' where "startup W path e = (Inr (S, addr), e')" by (metis prod.collapse)
  then show "\<exists>config ma base. load_config W path = Inr config \<and> validate config = Inr () \<and>
      parse_socket_addr (mt_listen_addr (cfg_metrics config)) = Some ma \<and> metrics_install W ma \<and>
      os_mmap W (mem_total_size (cfg_memory config)) = Inr base"
    by (rule startup_Inr) blast
next
  assume "\<exists>config ma base. load_config W path = Inr config \<and> validate config = Inr () \<and>
      parse_socket_addr (mt_listen_addr (cfg_metrics config)) = Some ma \<and> metrics_install W ma \<and>
      os_mmap W (mem_total_size (cfg_memory config)) = Inr base"
  then obtain config ma base where h: "load_config W path = Inr config" "validate config = Inr ()"
      "parse_socket_addr (mt_listen_addr (cfg_metrics config)) = Some ma" "metrics_install W ma"
      "os_mmap W (mem_total_size (cfg_memory config)) = Inr base" by blast
  show "\<exists>S addr. fst (startup W path e) = Inr (S, addr)"
    by (rule startup_ok [OF h, of e]) auto
qed

text \<open>C3: End to end. Start the agent with a configuration whose block size leaves room for the header and fits 32 bits, and with at
  most \<open>2 ^ 32\<close> blocks. Whatever requests follow, as long as no store header announces \<open>2 ^ 63\<close> bytes, they
  are all answered; what is then indexed is exactly what has been stored and not deleted, with its data and
  generation; and nothing has ever been evicted, since the index is as large as the pool.\<close>

theorem agent_end_to_end:
  assumes "startup W path e = (Inr (S, addr), e')" and "sizes_in_range (cfg_memory (as_config (cs_state S)))"
    and "\<forall>now stream header. DoStore now stream \<in> set rs \<longrightarrow> store_header_of stream = Inr header \<longrightarrow>
      unat (sh_total_size header) < 2 ^ 63"
  shows "\<exists>os S'. svc_run pf rs S = Inr (os, S') \<and> length os = length rs \<and> svc_inv pf S' \<and>
    map_of (kv_entries (kv_of pf S')) = track_all pf (zip rs os) Map.empty \<and> cs_evictions S' = 0"
proof -
  note i = startup_inv(1) [OF assms(1,2), of pf] startup_inv(2) [OF assms(1,2), of pf] startup_inv(3,4) [OF assms(1,2)]
  obtain os S' where r: "svc_run pf rs S = Inr (os, S')" "length os = length rs" "svc_inv pf S'"
    using run_completes [OF i(1) assms(3)] by blast
  have cap: "mp_total_blocks (ba_pool (svc_allocator S)) \<le> bi_capacity (svc_index S)" using i(4) by simp
  show ?thesis using r run_track(2) [OF i(1,2) r(1) cap] run_no_evict [OF i(1) cap r(1)] i(3) by auto
qed

definition demo_world :: "(string \<Rightarrow> string option) surroundings" where
  "demo_world = \<lparr>file_exists = (\<lambda>_. False), read_file = (\<lambda>_. None), toml_parse = (\<lambda>_. None), env_var = (\<lambda>_. None),
     host_name = None, metrics_install = (\<lambda>_. True), os_mmap = (\<lambda>_. Inr 4096), etcd_connect = (\<lambda>_. Inl EtcdError),
     etcd = demo_etcd, json = demo_codec, crypto = demo_pf, now_instant = 0, filter_parses = (\<lambda>_. True),
     create_file = (\<lambda>_. False), bind_addr = (\<lambda>_. True), signals_install = True,
     can_reserve = (\<lambda>n. n < 2 ^ 40)\<rparr>"

lemma demo_startup:
  obtains S addr e' where "startup demo_world ''agent.toml'' e = (Inr (S, addr), e')"
    and "sizes_in_range (cfg_memory (as_config (cs_state S)))"
proof -
  have l: "load_config demo_world ''agent.toml'' = Inr default_config" by (simp add: load_config_def demo_world_def)
  have "char_of (48 :: nat) = CHR ''0''" "char_of (57 :: nat) = CHR ''9''" by code_simp+
  then have "default_metrics_addr = show_ipv4 0 0 0 0 9090"
    by (simp add: default_metrics_addr_def show_ipv4_def str_dec.simps)
  then have m: "parse_socket_addr (mt_listen_addr (cfg_metrics default_config)) = Some (V4 (0, 0, 0, 0) 9090)"
    using parse_show_ipv4 [of 0 0 0 0 9090] by (simp add: default_config_def metrics_section_default_def)
  have i: "metrics_install demo_world (V4 (0, 0, 0, 0) 9090)"
      "os_mmap demo_world (mem_total_size (cfg_memory default_config)) = Inr 4096"
    by (simp_all add: demo_world_def)
  have "sizes_in_range (cfg_memory default_config)"
    by (simp add: sizes_in_range_def default_config_def memory_section_default_def default_block_size_def
        default_total_size_def HEADER_SIZE_def)
  then show ?thesis
    by (rule_tac startup_ok [OF l default_config_valid m i, of e], rule_tac that) (assumption, simp add: service_new_def)
qed

theorem agent_end_to_end_witness:
  "\<exists>S addr e' os S'. startup demo_world ''agent.toml'' Map.empty = (Inr (S, addr), e') \<and>
     svc_run demo_pf [demo_put 1 [7], Tick, demo_get 1] S = Inr (os, S') \<and> cs_evictions S' = 0"
proof -
  let ?rs = "[demo_put 1 [7], Tick, demo_get 1]"
  obtain S addr e' where S: "startup demo_world ''agent.toml'' Map.empty = (Inr (S, addr), e')"
      "sizes_in_range (cfg_memory (as_config (cs_state S)))"
    by (rule demo_startup)
  have "\<forall>now stream header. DoStore now stream \<in> set ?rs \<longrightarrow> store_header_of stream = Inr header \<longrightarrow>
      unat (sh_total_size header) < 2 ^ 63"
    by (auto simp: demo_put_def demo_get_def store_header_of_def demo_header_def)
  from agent_end_to_end [OF S this, of demo_pf] S(1) show ?thesis by blast
qed



text \<open>C31: A stale hit on the node itself. The agent stores a block and publishes it; its own watch task delivers the
  publication back into its own remote index. When the key is deleted, nothing is
  unpublished: a lookup then still reports a hit, on a remote node which is this very node, while a get of the
  same key answers that it is not there.\<close>

theorem own_publication_outlives_delete:
  assumes "svc_inv pf S" and "hex_ok pf" and "codec_ok cd" and "length h = 16"
    and "meta_to_json cd meta = Some val" and "bm_node_id meta = svc_node_id S" and "remote_lookup h R = None"
    and "as_remote_index (cs_state S) =
      Some (block_event pf cd \<lparr>we_type = EvPut, we_kv = Some (str_bytes (block_key pf h), str_bytes val)\<rparr> R)"
  shows "\<exists>m S1 S2 S3. delete \<lparr>dq_prefix_hash = h\<rparr> S = Inr (m, S1) \<and>
    svc_step pf (DoLookup \<lparr>lq_prefix_hash = h, lq_num_blocks = 1, lq_model_id = []\<rparr>) S1 =
      Inr (LookupReply True False [(svc_node_id S, bm_generation meta)], S2) \<and>
    svc_step pf (DoGet \<lparr>gq_prefix_hash = h, gq_num_blocks = 1, gq_source_node_id = [], gq_model_id = []\<rparr> n) S1 =
      Inr (Refused (Status NotFound ''prefix hash not found in cache''), S3)"
proof -
  let ?V = "kv_of pf S"
  have "watched_hash pf (str_bytes (block_key pf h)) = Some h" using watched_hash_block_key assms(2,4) by simp
  moreover have "meta_of_json cd (str_bytes val) = Some meta" using assms(3,5) by (simp add: codec_ok_def)
  ultimately have R: "as_remote_index (cs_state S) = Some (remote_insert h (info_of_meta meta) R)"
    using assms(8) by (simp add: block_event_def)
  have hit: "Option.bind (as_remote_index (cs_state S)) (remote_lookup h) = Some [info_of_meta meta]"
    unfolding R using assms(7) by (simp add: remote_insert_def remote_lookup_def)
  obtain x V1 where x: "kv_delete \<lparr>dq_prefix_hash = h\<rparr> ?V = (x, V1)" by force
  then obtain S1 where S1: "svc_step pf (DoDelete \<lparr>dq_prefix_hash = h\<rparr>) S = Inr (x, S1)" "svc_inv pf S1"
      "kv_params_of S1 = kv_params_of S" "kv_of pf S1 = V1"
    using step_refines_kv [OF assms(1), of "DoDelete \<lparr>dq_prefix_hash = h\<rparr>"] by auto
  have V1: "map_of (kv_entries V1) h = None" "kv_remote V1 = as_remote_index (cs_state S)"
    using x assms(4) by (auto simp: kv_delete_def parse_prefix_hash_def kv_of_def split: option.splits)
  have f: "kv_find h V1 = (None, V1)" using V1(1) by (simp add: kv_find_def cache_lookup_def)
  have node: "kp_node_id (kv_params_of S1) = svc_node_id S" using S1(3) by simp
  obtain m where "delete \<lparr>dq_prefix_hash = h\<rparr> S = Inr (m, S1)" using S1(1) by auto
  moreover have "refines pf (kv_params_of S1) (svc_step pf (DoLookup \<lparr>lq_prefix_hash = h, lq_num_blocks = 1, lq_model_id = []\<rparr>) S1)
      (Inr (LookupReply True False [(svc_node_id S, bm_generation meta)], kv_hit V1))"
    using step_refines_kv [OF S1(2), of "DoLookup \<lparr>lq_prefix_hash = h, lq_num_blocks = 1, lq_model_id = []\<rparr>"] f hit V1(2) assms(4,6)
    by (simp add: S1(4) kv_lookup_def parse_prefix_hash_def composite_key_def info_of_meta_def del: refines_simps svc_step.simps)
  moreover have "refines pf (kv_params_of S1)
      (svc_step pf (DoGet \<lparr>gq_prefix_hash = h, gq_num_blocks = 1, gq_source_node_id = [], gq_model_id = []\<rparr> n) S1)
      (Inr (Refused (Status NotFound ''prefix hash not found in cache''), kv_miss V1))"
    using step_refines_kv [OF S1(2), of "DoGet \<lparr>gq_prefix_hash = h, gq_num_blocks = 1, gq_source_node_id = [], gq_model_id = []\<rparr> n"] f assms(4)
    by (simp add: S1(4) kv_get_def parse_prefix_hash_def composite_key_def del: refines_simps svc_step.simps)
  ultimately show ?thesis unfolding refines_simps by blast
qed

theorem own_publication_outlives_delete_witness:
  "\<exists>R m ps S m' S1 S2. svc_step demo_pf (demo_put 1 [7]) demo_service = Inr (StoreReply m ps, S) \<and>
     delete \<lparr>dq_prefix_hash = replicate 16 1\<rparr> (S\<lparr>cs_state := (cs_state S)\<lparr>as_remote_index := Some R\<rparr>\<rparr>) = Inr (m', S1) \<and>
     svc_step demo_pf (DoLookup \<lparr>lq_prefix_hash = replicate 16 1, lq_num_blocks = 1, lq_model_id = []\<rparr>) S1 =
       Inr (LookupReply True False [(''n1'', 1)], S2)"
proof -
  let ?h = "replicate 16 1 :: u8 list"
  let ?meta = "\<lparr>bm_node_id = ''n1'', bm_node_addr = [], bm_offset = 96, bm_size = 32, bm_generation = 1\<rparr>"
  obtain val where val: "meta_to_json demo_codec ?meta = Some val" by (simp add: demo_codec_def demo_meta_to_json_def)
  define R where "R = block_event demo_pf demo_codec \<lparr>we_type = EvPut, we_kv = Some (str_bytes (block_key demo_pf ?h), str_bytes val)\<rparr> remote_new"
  obtain m ps S where S: "svc_step demo_pf (demo_put 1 [7]) demo_service = Inr (StoreReply m ps, S)" "svc_inv demo_pf S"
      "kv_params_of S = kv_params_of demo_service"
    using demo_step by metis
  define T where "T = S\<lparr>cs_state := (cs_state S)\<lparr>as_remote_index := Some R\<rparr>\<rparr>"
  have T: "svc_inv demo_pf T" using S(2) by (simp add: T_def svc_inv_def svc_allocator_def svc_index_def)
  have "svc_node_id S = ''n1''"
    using arg_cong [OF S(3), of kp_node_id] by (simp add: svc_node_id_def demo_service_def demo_state_def service_new_def)
  then have n: "bm_node_id ?meta = svc_node_id T" "svc_node_id T = ''n1''" by (simp_all add: T_def svc_node_id_def)
  have r: "as_remote_index (cs_state T) = Some (block_event demo_pf demo_codec
      \<lparr>we_type = EvPut, we_kv = Some (str_bytes (block_key demo_pf ?h), str_bytes val)\<rparr> remote_new)"
    by (simp add: T_def R_def)
  have "length ?h = 16" "remote_lookup ?h remote_new = None" by (simp_all add: remote_lookup_def remote_new_def)
  from own_publication_outlives_delete [OF T demo_hex_ok demo_codec_ok this(1) val n(1) this(2) r, of 0]
  obtain m' S1 S2 where "delete \<lparr>dq_prefix_hash = ?h\<rparr> T = Inr (m', S1)"
      "svc_step demo_pf (DoLookup \<lparr>lq_prefix_hash = ?h, lq_num_blocks = 1, lq_model_id = []\<rparr>) S1 = Inr (LookupReply True False [(''n1'', 1)], S2)"
    unfolding n(2) by auto
  then show ?thesis using S(1) unfolding T_def by blast
qed

end
