(* ===== verification/ServiceThreads.thy ===== *)
theory ServiceThreads
  imports ServiceProps
begin

text \<open>
  The handlers of \<^verbatim>\<open>crates/cmx-agent/src/grpc.rs\<close> as threads that interleave. The runtime is
  multi-threaded and the handlers share the allocator and the index, so a handler can be overtaken between any two
  operations on shared state: the pool's free-list mutex, the generation counter, the block memory
  (no lock at all), the shards of the \<open>DashMap\<close>, the LRU mutex and the counters.

  A \<open>thread\<close> is a program point of a handler with its local variables, and \<open>tstep\<close> runs it to the next
  one. Each step does at most one operation on shared state. \<open>CacheService\<close> has the same handlers as
  one definition each; \<open>ThreadEquiv\<close> shows that a thread left alone computes just that.

  Two things about \<open>DashMap\<close>, which is not part of the sources: \<open>get\<close> returns a guard that holds the
  shard of the key against writers until it is dropped, so \<open>lookup\<close> touches the LRU list under the guard,
  and a write to the map waits for it (\<open>blocked\<close>, with the assignment of keys to shards as an
  argument); and \<open>len\<close> adds up the shards one after the other, so its result
  need not be the size of the map at any moment (the step takes the number it returns as an argument).
  Memory accesses are sequentially consistent, and a copy of a block's bytes is one step. As in \<open>CacheService\<close>, reserving
  an announced size below \<open>2 ^ 63\<close> is taken to succeed.
\<close>

section \<open>Program points\<close>

text \<open>Who called \<open>BlockIndex::lookup\<close>: \<open>lookup\<close>, \<open>get\<close> (with the number of messages its client takes), or
  the loop of \<open>batch_lookup\<close> with its model, the hashes to come and the two vectors.\<close>

datatype finder =
    ForLookup
  | ForGet nat
  | ForBatch string "bytes list" "bool list" "proto_location list"

record store_job =
  sj_key :: hash16
  sj_data :: bytes
  sj_now :: "u64 option"

datatype thread =
    Begin request
  | BatchNext string "bytes list" "bool list" "proto_location list"
  | MapGet finder hash16
  | LruTouch finder hash16 index_entry
  | FindHit finder index_entry
  | FindMiss finder hash16
  | RemoteHit remote_block_info
  | RemoteMiss
  | PoolAllocate store_job
  | FetchGeneration store_job block_handle
  | WriteHeader store_job block_handle u64
  | WriteData store_job block_handle u64
  | ContainsKey store_job block_location
  | MapLen store_job block_location "hash16 list"
  | EvictLru store_job block_location "hash16 list"
  | MapRemoveVictim store_job block_location "hash16 list" hash16
  | MapInsert store_job block_location "hash16 list"
  | LruTouchNew store_job block_location "hash16 list"
  | AddEvictions store_job block_location "hash16 list"
  | MapRemove hash16
  | LruRemove hash16 index_entry
  | PoolDeallocate "block_location list" "block_location list"
  | StreamHeader index_entry nat
  | ReadHeader "block_location list" nat "(status + get_payload) list"
  | VerifyData block_location block_header "block_location list" nat "(status + get_payload) list"
  | CopyData block_location block_header "block_location list" nat "(status + get_payload) list"
  | LoadCounters pool_stats "u64 list"
  | StoreLevel u8
  | Finished reply

definition svc_map :: "cache_service \<Rightarrow> (hash16, index_entry) hmap" where
  "svc_map S = bi_map (svc_index S)"

definition svc_lru :: "cache_service \<Rightarrow> lru_inner" where
  "svc_lru S = bi_lru (svc_index S)"

definition svc_pool :: "cache_service \<Rightarrow> memory_pool" where
  "svc_pool S = ba_pool (svc_allocator S)"

definition set_map :: "(hash16, index_entry) hmap \<Rightarrow> cache_service \<Rightarrow> cache_service" where
  "set_map m S = set_index ((svc_index S)\<lparr>bi_map := m\<rparr>) S"

definition set_lru :: "lru_inner \<Rightarrow> cache_service \<Rightarrow> cache_service" where
  "set_lru l S = set_index ((svc_index S)\<lparr>bi_lru := l\<rparr>) S"

definition set_pool :: "memory_pool \<Rightarrow> cache_service \<Rightarrow> cache_service" where
  "set_pool p S = set_allocator ((svc_allocator S)\<lparr>ba_pool := p\<rparr>) S"

lemma svc_simps [simp]:
  "svc_map (set_map m S) = m" "svc_map (set_lru l S) = svc_map S" "svc_map (set_pool p S) = svc_map S"
  "svc_lru (set_map m S) = svc_lru S" "svc_lru (set_lru l S) = l" "svc_lru (set_pool p S) = svc_lru S"
  "svc_allocator (set_map m S) = svc_allocator S" "svc_allocator (set_lru l S) = svc_allocator S"
  "svc_allocator (set_pool p S) = (svc_allocator S)\<lparr>ba_pool := p\<rparr>"
  "svc_map (set_allocator A S) = svc_map S" "svc_lru (set_allocator A S) = svc_lru S"
  "svc_map (hit S) = svc_map S" "svc_lru (hit S) = svc_lru S" "svc_map (miss S) = svc_map S" "svc_lru (miss S) = svc_lru S"
  "svc_map (S\<lparr>cs_evictions := n\<rparr>) = svc_map S" "svc_lru (S\<lparr>cs_evictions := n\<rparr>) = svc_lru S"
  by (simp_all add: svc_map_def svc_lru_def set_map_def set_lru_def set_pool_def)

lemma svc_state_simps [simp]:
  "svc_map (S\<lparr>cs_state := (cs_state S)\<lparr>as_pressure_level := x\<rparr>\<rparr>) = svc_map S"
  "svc_lru (S\<lparr>cs_state := (cs_state S)\<lparr>as_pressure_level := x\<rparr>\<rparr>) = svc_lru S"
  "svc_allocator (S\<lparr>cs_state := (cs_state S)\<lparr>as_pressure_level := x\<rparr>\<rparr>) = svc_allocator S"
  "svc_map (S\<lparr>cs_state := (cs_state S)\<lparr>as_remote_index := R\<rparr>\<rparr>) = svc_map S"
  "svc_lru (S\<lparr>cs_state := (cs_state S)\<lparr>as_remote_index := R\<rparr>\<rparr>) = svc_lru S"
  "svc_allocator (S\<lparr>cs_state := (cs_state S)\<lparr>as_remote_index := R\<rparr>\<rparr>) = svc_allocator S"
  by (simp_all add: svc_map_def svc_lru_def svc_index_def svc_allocator_def)

section \<open>Steps\<close>

text \<open>From the request to the first operation on shared state.\<close>

definition begin_find :: "finder \<Rightarrow> platform \<Rightarrow> string \<Rightarrow> bytes \<Rightarrow> thread" where
  "begin_find f pf model_id raw_hash =
     (case parse_prefix_hash raw_hash of
        Inl st \<Rightarrow> Finished (Refused st)
      | Inr prefix_hash \<Rightarrow> MapGet f (composite_key pf model_id prefix_hash))"

definition begin_store :: "platform \<Rightarrow> u64 option \<Rightarrow> store_stream \<Rightarrow> cache_service \<Rightarrow> thread res" where
  "begin_store pf now stream S =
     (if as_pressure_level (cs_state S) \<ge> PRESSURE_REJECT
      then Inr (Finished (Refused (Status ResourceExhausted
             (''memory pressure too high '' @ [CHR 0xE2, CHR 0x80, CHR 0x94] @ '' store rejected''))))
      else case store_header_of stream of
        Inl st \<Rightarrow> Inr (Finished (Refused st))
      | Inr header \<Rightarrow>
      (case parse_prefix_hash (sh_prefix_hash header) of
        Inl st \<Rightarrow> Inr (Finished (Refused st))
      | Inr prefix_hash \<Rightarrow>
      let index_key = composite_key pf (sh_model_id header) prefix_hash in
      if unat (sh_total_size header) \<ge> 2 ^ 63 then Inl CapacityOverflow
      else case collect_chunks (tl stream) [] of
        Inl st \<Rightarrow> Inr (Finished (Refused st))
      | Inr data \<Rightarrow> Inr (PoolAllocate \<lparr>sj_key = index_key, sj_data = data, sj_now = now\<rparr>)))"

fun begin_request :: "platform \<Rightarrow> request \<Rightarrow> cache_service \<Rightarrow> (thread \<times> cache_service) res" where
  "begin_request pf (DoLookup req) S = Inr (begin_find ForLookup pf (lq_model_id req) (lq_prefix_hash req), S)"
| "begin_request pf (DoBatch req) S = Inr (BatchNext (bq_model_id req) (bq_prefix_hashes req) [] [], S)"
| "begin_request pf (DoStore now stream) S = rbind (begin_store pf now stream S) (\<lambda>t. Inr (t, S))"
| "begin_request pf (DoGet req n) S = Inr (begin_find (ForGet n) pf (gq_model_id req) (gq_prefix_hash req), S)"
| "begin_request pf (DoDelete req) S =
     Inr (case parse_prefix_hash (dq_prefix_hash req) of
            Inl st \<Rightarrow> Finished (Refused st)
          | Inr prefix_hash \<Rightarrow> MapRemove prefix_hash, S)"
| "begin_request pf DoStats S = Inr (LoadCounters (ba_stats (svc_allocator S)) [], S)"
| "begin_request pf (DoHealth now) S = Inr (Finished (HealthReply (health now S)), S)"
| "begin_request pf Tick S =
     (let st = cs_state S; m = cfg_memory (as_config st)
      in Inr (StoreLevel (fst (monitor_tick (mem_pressure_warn m) (mem_pressure_critical m) (mem_pressure_reject m)
                                (as_allocator st) (as_pressure_level st))), S))"
| "begin_request pf (WatchUpdate R) S =
     Inr (Finished Silent,
          S\<lparr>cs_state := (cs_state S)\<lparr>as_remote_index := map_option (\<lambda>_. R) (as_remote_index (cs_state S))\<rparr>\<rparr>)"

text \<open>What the caller of \<open>BlockIndex::lookup\<close> does with a hit and with a miss.\<close>

fun found_next :: "finder \<Rightarrow> index_entry \<Rightarrow> cache_service \<Rightarrow> thread" where
  "found_next ForLookup e S = Finished (LookupReply True True (map (stamp_of \<circ> local_location S) (ie_blocks e)))"
| "found_next (ForGet n) e S = StreamHeader e n"
| "found_next (ForBatch m hs fs bs) e S = BatchNext m hs (fs @ [True]) (bs @ map (local_location S) (ie_blocks e))"

fun missed_next :: "finder \<Rightarrow> thread" where
  "missed_next ForLookup = RemoteMiss"
| "missed_next (ForGet n) = Finished (Refused (Status NotFound ''prefix hash not found in cache''))"
| "missed_next (ForBatch m hs fs bs) = BatchNext m hs (fs @ [False]) bs"

text \<open>The end of a \<open>get\<close> stream whose block does not verify.\<close>

definition data_loss :: "nat \<Rightarrow> (status + get_payload) list \<Rightarrow> thread" where
  "data_loss n ms =
     Finished (GetReply (ms @ (if n = 0 then [] else [Inl (Status DataLoss ''block CRC32C verification failed'')])))"

definition block_location_for :: "cache_service \<Rightarrow> block_handle \<Rightarrow> u64 \<Rightarrow> block_location" where
  "block_location_for S handle gen =
     \<lparr>loc_node_id = ba_node_id (svc_allocator S), loc_block_index = bh_block_index handle,
      loc_offset = of_nat (bh_offset handle), loc_block_size = of_nat (pool_block_size (svc_pool S)),
      loc_generation = gen\<rparr>"

fun tstep :: "platform \<Rightarrow> usize \<Rightarrow> thread \<Rightarrow> cache_service \<Rightarrow> (thread \<times> cache_service) res" where
  "tstep pf len (Begin r) S = begin_request pf r S"
| "tstep pf len (BatchNext m [] fs bs) S = Inr (Finished (BatchReply fs (map stamp_of bs)), S)"
| "tstep pf len (BatchNext m (raw_hash # hs) fs bs) S = Inr (begin_find (ForBatch m hs fs bs) pf m raw_hash, S)"
| "tstep pf len (MapGet f k) S =
     Inr (case fmlookup (svc_map S) k of None \<Rightarrow> FindMiss f k | Some entry \<Rightarrow> LruTouch f k entry, S)"
| "tstep pf len (LruTouch f k entry) S = rbind (touch k (svc_lru S)) (\<lambda>l. Inr (FindHit f entry, set_lru l S))"
| "tstep pf len (FindHit f entry) S = Inr (found_next f entry S, hit S)"
| "tstep pf len (FindMiss ForLookup k) S =
     Inr (case Option.bind (as_remote_index (cs_state S)) (remote_lookup k) of
            Some (first # _) \<Rightarrow> RemoteHit first
          | _ \<Rightarrow> missed_next ForLookup, S)"
| "tstep pf len (FindMiss (ForGet n) k) S = Inr (missed_next (ForGet n), miss S)"
| "tstep pf len (FindMiss (ForBatch m hs fs bs) k) S = Inr (missed_next (ForBatch m hs fs bs), miss S)"
| "tstep pf len (RemoteHit first) S = Inr (Finished (LookupReply True False [(rb_node_id first, rb_generation first)]), hit S)"
| "tstep pf len RemoteMiss S = Inr (Finished (LookupReply False False []), miss S)"
| "tstep pf len (PoolAllocate j) S =
     rbind (usize_sub (overflow_checks pf) (pool_block_size (svc_pool S)) HEADER_SIZE) (\<lambda>max_data.
     let full = Finished (Refused (Status ResourceExhausted ''memory pool exhausted'')) in
     if length (sj_data j) > max_data then Inr (full, S)
     else case allocate (svc_pool S) of
       None \<Rightarrow> Inr (full, S)
     | Some (handle, p) \<Rightarrow> Inr (FetchGeneration j handle, set_pool p S))"
| "tstep pf len (FetchGeneration j handle) S =
     (let gen = ba_generation (svc_allocator S)
      in Inr (WriteHeader j handle gen, set_allocator ((svc_allocator S)\<lparr>ba_generation := gen + 1\<rparr>) S))"
| "tstep pf len (WriteHeader j handle gen) S =
     rbind (get_slice_mut (svc_pool S) handle) (\<lambda>(block_slice, put).
     if length block_slice < HEADER_SIZE then Inl SliceOutOfRange
     else rbind (write_to pf (header_new pf (sj_data j) gen) (take HEADER_SIZE block_slice)) (\<lambda>hdr.
          Inr (WriteData j handle gen, set_pool (put (hdr @ drop HEADER_SIZE block_slice)) S)))"
| "tstep pf len (WriteData j handle gen) S =
     rbind (get_slice_mut (svc_pool S) handle) (\<lambda>(block_slice, put).
     if length block_slice < HEADER_SIZE + length (sj_data j) then Inl SliceOutOfRange
     else Inr (ContainsKey j (block_location_for S handle gen),
               set_pool (put (seg_write HEADER_SIZE (sj_data j) block_slice)) S))"
| "tstep pf len (ContainsKey j loc) S =
     Inr (if sj_key j |\<in>| fmdom (svc_map S) then MapInsert j loc [] else MapLen j loc [], S)"
| "tstep pf len (MapLen j loc evicted) S =
     Inr (if len \<ge> bi_capacity (svc_index S) then EvictLru j loc evicted else MapInsert j loc evicted, S)"
| "tstep pf len (EvictLru j loc evicted) S =
     rbind (evict_lru (svc_lru S)) (\<lambda>(victim, l).
     Inr (case victim of
            Some v \<Rightarrow> MapRemoveVictim j loc evicted v
          | None \<Rightarrow> MapInsert j loc evicted, set_lru l S))"
| "tstep pf len (MapRemoveVictim j loc evicted v) S = Inr (MapLen j loc (evicted @ [v]), set_map (fmdrop v (svc_map S)) S)"
| "tstep pf len (MapInsert j loc evicted) S =
     Inr (LruTouchNew j loc evicted,
          set_map (fmupd (sj_key j) \<lparr>ie_blocks = [loc], ie_created_at = monotonic_now (sj_now j)\<rparr> (svc_map S)) S)"
| "tstep pf len (LruTouchNew j loc evicted) S =
     rbind (touch (sj_key j) (svc_lru S)) (\<lambda>l. Inr (AddEvictions j loc evicted, set_lru l S))"
| "tstep pf len (AddEvictions j loc evicted) S =
     Inr (Finished (StoreReply \<lparr>sr_success = True, sr_error_message = [], sr_generation_id = loc_generation loc\<rparr>
            (case as_metadata (cs_state S) of None \<Rightarrow> [] | Some _ \<Rightarrow> [(sj_key j, loc_generation loc)])),
          S\<lparr>cs_evictions := cs_evictions S + of_nat (length evicted)\<rparr>)"
| "tstep pf len (MapRemove k) S =
     (case fmlookup (svc_map S) k of
        None \<Rightarrow> Inr (Finished (DeleteReply \<lparr>dr_success = False, dr_blocks_freed = 0\<rparr>), S)
      | Some entry \<Rightarrow> Inr (LruRemove k entry, set_map (fmdrop k (svc_map S)) S))"
| "tstep pf len (LruRemove k entry) S =
     rbind (lru_remove k (svc_lru S)) (\<lambda>l. Inr (PoolDeallocate (ie_blocks entry) (ie_blocks entry), set_lru l S))"
| "tstep pf len (PoolDeallocate [] freed) S =
     Inr (Finished (DeleteReply \<lparr>dr_success = True, dr_blocks_freed = of_nat (length freed)\<rparr>), S)"
| "tstep pf len (PoolDeallocate (loc # locs) freed) S =
     rbind (ba_deallocate (svc_allocator S) (block_handle_of loc)) (\<lambda>A. Inr (PoolDeallocate locs freed, set_allocator A S))"
| "tstep pf len (StreamHeader entry n) S =
     rbind (sum_u64 (overflow_checks pf) (map loc_block_size (ie_blocks entry)) 0) (\<lambda>total_size.
     let header = \<lparr>gh_total_size = total_size, gh_num_blocks = of_nat (length (ie_blocks entry)),
                   gh_generation_id = (case ie_blocks entry of [] \<Rightarrow> 0 | b # _ \<Rightarrow> loc_generation b)\<rparr>
     in Inr (case n of
               0 \<Rightarrow> Finished (GetReply [])
             | Suc m \<Rightarrow> ReadHeader (ie_blocks entry) m [Inr (GetHead header)], S))"
| "tstep pf len (ReadHeader [] n ms) S = Inr (Finished (GetReply ms), S)"
| "tstep pf len (ReadHeader (loc # locs) n ms) S =
     rbind (get_slice (svc_pool S) (block_handle_of loc)) (\<lambda>block_slice.
     Inr (case read_from block_slice of
            None \<Rightarrow> data_loss n ms
          | Some header \<Rightarrow>
              if HEADER_SIZE + unat (hdr_data_size header) > length block_slice then data_loss n ms
              else VerifyData loc header locs n ms, S))"
| "tstep pf len (VerifyData loc header locs n ms) S =
     rbind (get_slice (svc_pool S) (block_handle_of loc)) (\<lambda>block_slice.
     Inr (if header_verify pf header (seg HEADER_SIZE (unat (hdr_data_size header)) block_slice)
          then CopyData loc header locs n ms else data_loss n ms, S))"
| "tstep pf len (CopyData loc header locs n ms) S =
     rbind (get_slice (svc_pool S) (block_handle_of loc)) (\<lambda>block_slice.
     Inr (case n of
            0 \<Rightarrow> Finished (GetReply ms)
          | Suc m \<Rightarrow> ReadHeader locs m (ms @ [Inr (GetData (seg HEADER_SIZE (unat (hdr_data_size header)) block_slice))]), S))"
| "tstep pf len (LoadCounters ps []) S = Inr (LoadCounters ps [cs_cache_hits S], S)"
| "tstep pf len (LoadCounters ps [hits]) S = Inr (LoadCounters ps [hits, cs_cache_misses S], S)"
| "tstep pf len (LoadCounters ps (hits # misses # _)) S =
     Inr (Finished (StatsReply
       \<lparr>ss_total_blocks = of_nat (ps_total_blocks ps), ss_used_blocks = of_nat (ps_used_blocks ps),
        ss_cache_hits = hits, ss_cache_misses = misses, ss_evictions = cs_evictions S,
        ss_memory_used_bytes = of_nat (ps_used_bytes ps), ss_memory_total_bytes = of_nat (ps_total_bytes ps)\<rparr>), S)"
| "tstep pf len (StoreLevel level) S = Inr (Finished Silent, S\<lparr>cs_state := (cs_state S)\<lparr>as_pressure_level := level\<rparr>\<rparr>)"
| "tstep pf len (Finished r) S = Inr (Finished r, S)"

section \<open>Interleaving\<close>

fun finished :: "thread \<Rightarrow> bool" where
  "finished (Finished r) \<longleftrightarrow> True"
| "finished t \<longleftrightarrow> False"

text \<open>The key whose shard a thread holds, and the key it is about to write.\<close>

fun guard_of :: "thread \<Rightarrow> hash16 option" where
  "guard_of (LruTouch f k entry) = Some k"
| "guard_of t = None"

fun write_of :: "thread \<Rightarrow> hash16 option" where
  "write_of (MapRemoveVictim j loc evicted v) = Some v"
| "write_of (MapInsert j loc evicted) = Some (sj_key j)"
| "write_of (MapRemove k) = Some k"
| "write_of t = None"

definition blocked :: "(hash16 \<Rightarrow> nat) \<Rightarrow> thread list \<Rightarrow> thread \<Rightarrow> bool" where
  "blocked shard ts t =
     (case write_of t of
        None \<Rightarrow> False
      | Some k \<Rightarrow> list_ex (\<lambda>u. case guard_of u of None \<Rightarrow> False | Some k' \<Rightarrow> shard k' = shard k) ts)"

type_synonym config = "thread list \<times> cache_service"

inductive par_step :: "platform \<Rightarrow> (hash16 \<Rightarrow> nat) \<Rightarrow> config \<Rightarrow> config \<Rightarrow> bool" for pf shard where
  par_step: "i < length ts \<Longrightarrow> \<not> finished (ts ! i) \<Longrightarrow> \<not> blocked shard ts (ts ! i) \<Longrightarrow>
     tstep pf len (ts ! i) S = Inr (t, S') \<Longrightarrow> par_step pf shard (ts, S) (ts[i := t], S')"

end
