(* ===== verification/ThreadSafety.thy ===== *)
theory ThreadSafety
  imports ServiceThreads
begin

text \<open>
  What holds of the service under every interleaving of its handlers.

  Nothing in the code protects the bytes of a block. Safety rests on ownership: a block that
  is in use belongs to exactly one index entry, to exactly one thread (a store that
  has not yet inserted it, a delete that has not yet returned it), or to nobody (an overwritten or evicted
  entry). \<open>owned\<close> is that assignment, \<open>exclusive\<close> the statement, and \<open>conc_inv\<close> the invariant built around
  it. A step is classified by what it does to the assignment (\<open>effect\<close>), and everything else
  another thread or an index entry relies on is stable under such a step (\<open>frame\<close>).

  The parameter \<open>P\<close> is any relation between keys and data that all stores of the run satisfy. The invariant keeps
  it for the index, so instances of \<open>P\<close> say where data in the index can come from.
\<close>

section \<open>Ownership\<close>

datatype owner = Entry hash16 | Worker nat

fun owns :: "thread \<Rightarrow> block_handle set" where
  "owns (FetchGeneration j h) = {h}"
| "owns (WriteHeader j h g) = {h}"
| "owns (WriteData j h g) = {h}"
| "owns (ContainsKey j loc) = {block_handle_of loc}"
| "owns (MapLen j loc ev) = {block_handle_of loc}"
| "owns (EvictLru j loc ev) = {block_handle_of loc}"
| "owns (MapRemoveVictim j loc ev v) = {block_handle_of loc}"
| "owns (MapInsert j loc ev) = {block_handle_of loc}"
| "owns (LruRemove k e) = set (map block_handle_of (ie_blocks e))"
| "owns (PoolDeallocate locs freed) = set (map block_handle_of locs)"
| "owns t = {}"

fun owned :: "config \<Rightarrow> owner \<Rightarrow> block_handle set" where
  "owned (ts, S) (Entry k) = (case fmlookup (svc_map S) k of None \<Rightarrow> {} | Some e \<Rightarrow> {entry_handle e})"
| "owned (ts, S) (Worker i) = (if i < length ts then owns (ts ! i) else {})"

definition exclusive :: "('o \<Rightarrow> 'h set) \<Rightarrow> 'h set \<Rightarrow> bool" where
  "exclusive f L \<longleftrightarrow> (\<forall>x. f x \<subseteq> L) \<and> (\<forall>x y. x \<noteq> y \<longrightarrow> f x \<inter> f y = {})"

lemma exclusiveD: "exclusive f L \<Longrightarrow> f x \<subseteq> L" "exclusive f L \<Longrightarrow> h \<in> f x \<Longrightarrow> h \<in> f y \<Longrightarrow> x = y"
  unfolding exclusive_def by blast+

text \<open>Ownership passed on: every new share is part of one old share.\<close>

lemma exclusive_pass:
  assumes "exclusive f L" and "inj p" and "\<And>x. g x \<subseteq> f (p x)" and "\<And>x. g x \<subseteq> L'"
  shows "exclusive g L'"
proof -
  have "g x \<inter> g y = {}" if "x \<noteq> y" for x y
    using that assms(1) injD [OF assms(2), of x y] assms(3) [of x] assms(3) [of y] unfolding exclusive_def by blast
  then show ?thesis using assms(4) by (simp add: exclusive_def)
qed

lemma exclusive_gain:
  assumes "exclusive f L" and "h \<notin> L" and "\<And>y. y \<noteq> x \<Longrightarrow> g y = f y" and "g x \<subseteq> insert h (f x)"
  shows "exclusive g (insert h L)"
proof -
  have sub: "f y \<subseteq> L" for y using assms(1) by (rule exclusiveD)
  have "g y \<subseteq> insert h L" for y using sub [of y] sub [of x] assms(3) [of y] assms(4) by (cases "y = x") auto
  moreover have "g y \<inter> g z = {}" if "y \<noteq> z" for y z
  proof -
    have "f y \<inter> f z = {}" "h \<notin> f y" "h \<notin> f z"
      using that assms(1,2) sub [of y] sub [of z] by (auto simp: exclusive_def)
    then show ?thesis
      using that assms(3) [of y] assms(3) [of z] assms(4) by (cases "y = x"; cases "z = x") auto
  qed
  ultimately show ?thesis by (simp add: exclusive_def)
qed

lemma inj_swap: "inj (id(a := b, b := a))"
  by (auto simp: inj_def)

section \<open>What a thread relies on\<close>

definition all_handles :: "block_allocator \<Rightarrow> block_handle set" where
  "all_handles A = handle_of (ba_pool A) ` {..<mp_total_blocks (ba_pool A)}"

definition located :: "block_allocator \<Rightarrow> block_location \<Rightarrow> bool" where
  "located A loc \<longleftrightarrow> (\<exists>h \<in> all_handles A. \<exists>g. loc = location_of A h g)"

definition entry_located :: "block_allocator \<Rightarrow> index_entry \<Rightarrow> bool" where
  "entry_located A e \<longleftrightarrow> (\<exists>loc. ie_blocks e = [loc] \<and> located A loc)"

definition request_ok :: "platform \<Rightarrow> (hash16 \<Rightarrow> bytes \<Rightarrow> bool) \<Rightarrow> request \<Rightarrow> bool" where
  "request_ok pf P r =
     (case r of
        DoStore now stream \<Rightarrow>
          (case store_args pf stream of Inl f \<Rightarrow> False | Inr a \<Rightarrow> (case a of Inl st \<Rightarrow> True | Inr (k, d) \<Rightarrow> P k d))
      | _ \<Rightarrow> True)"

definition job_ok :: "platform \<Rightarrow> (hash16 \<Rightarrow> bytes \<Rightarrow> bool) \<Rightarrow> block_allocator \<Rightarrow> store_job \<Rightarrow> bool" where
  "job_ok pf P A j \<longleftrightarrow> P (sj_key j) (sj_data j) \<and> length (sj_data j) \<le> ba_max_data A"

definition stored_ok ::
    "platform \<Rightarrow> (hash16 \<Rightarrow> bytes \<Rightarrow> bool) \<Rightarrow> block_allocator \<Rightarrow> store_job \<Rightarrow> block_location \<Rightarrow> bool" where
  "stored_ok pf P A j loc \<longleftrightarrow>
     job_ok pf P A j \<and> located A loc \<and> read_verified pf A (block_handle_of loc) = Inr (Some (sj_data j))"

fun thread_ok :: "platform \<Rightarrow> (hash16 \<Rightarrow> bytes \<Rightarrow> bool) \<Rightarrow> block_allocator \<Rightarrow> thread \<Rightarrow> bool" where
  "thread_ok pf P A (Begin r) \<longleftrightarrow> request_ok pf P r"
| "thread_ok pf P A (LruTouch f k e) \<longleftrightarrow> entry_located A e"
| "thread_ok pf P A (FindHit f e) \<longleftrightarrow> entry_located A e"
| "thread_ok pf P A (PoolAllocate j) \<longleftrightarrow> P (sj_key j) (sj_data j)"
| "thread_ok pf P A (FetchGeneration j h) \<longleftrightarrow> job_ok pf P A j"
| "thread_ok pf P A (WriteHeader j h g) \<longleftrightarrow> job_ok pf P A j"
| "thread_ok pf P A (WriteData j h g) \<longleftrightarrow>
     job_ok pf P A j \<and>
     (\<exists>rest. get_slice (ba_pool A) h = Inr (header_bytes pf (header_new pf (sj_data j) g) @ rest))"
| "thread_ok pf P A (ContainsKey j loc) \<longleftrightarrow> stored_ok pf P A j loc"
| "thread_ok pf P A (MapLen j loc ev) \<longleftrightarrow> stored_ok pf P A j loc"
| "thread_ok pf P A (EvictLru j loc ev) \<longleftrightarrow> stored_ok pf P A j loc"
| "thread_ok pf P A (MapRemoveVictim j loc ev v) \<longleftrightarrow> stored_ok pf P A j loc"
| "thread_ok pf P A (MapInsert j loc ev) \<longleftrightarrow> stored_ok pf P A j loc"
| "thread_ok pf P A (LruRemove k e) \<longleftrightarrow> entry_located A e"
| "thread_ok pf P A (PoolDeallocate locs freed) \<longleftrightarrow> length locs \<le> 1 \<and> list_all (located A) locs"
| "thread_ok pf P A (StreamHeader e n) \<longleftrightarrow> entry_located A e"
| "thread_ok pf P A (ReadHeader locs n ms) \<longleftrightarrow> list_all (located A) locs"
| "thread_ok pf P A (VerifyData loc hdr locs n ms) \<longleftrightarrow> located A loc \<and> list_all (located A) locs"
| "thread_ok pf P A (CopyData loc hdr locs n ms) \<longleftrightarrow> located A loc \<and> list_all (located A) locs"
| "thread_ok pf P A t \<longleftrightarrow> True"

text \<open>A change of the allocator by somebody who owns the blocks in \<open>B\<close>.\<close>

definition frame :: "block_handle set \<Rightarrow> block_allocator \<Rightarrow> block_allocator \<Rightarrow> bool" where
  "frame B A A' \<longleftrightarrow>
     geometry A' = geometry A \<and> store_inv A' \<and>
     (\<forall>h \<in> ba_live A - B. h \<in> ba_live A' \<and> get_slice (ba_pool A') h = get_slice (ba_pool A) h)"

definition map_ok :: "platform \<Rightarrow> (hash16 \<Rightarrow> bytes \<Rightarrow> bool) \<Rightarrow> cache_service \<Rightarrow> bool" where
  "map_ok pf P S \<longleftrightarrow>
     (\<forall>k e. fmlookup (svc_map S) k = Some e \<longrightarrow>
        entry_ok pf (svc_allocator S) e \<and> P k (snd (entry_value pf (svc_allocator S) e)))"

definition conc_inv :: "platform \<Rightarrow> (hash16 \<Rightarrow> bytes \<Rightarrow> bool) \<Rightarrow> config \<Rightarrow> bool" where
  "conc_inv pf P c =
     (case c of (ts, S) \<Rightarrow>
        store_inv (svc_allocator S) \<and> handles_fit (svc_allocator S) \<and> lru_inv (svc_lru S) \<and> map_ok pf P S \<and>
        list_all (thread_ok pf P (svc_allocator S)) ts \<and> exclusive (owned c) (ba_live (svc_allocator S)))"

section \<open>Stability\<close>

lemma live_all: "ba_live A \<subseteq> all_handles A"
  by (auto simp: all_handles_def live_handles_def live_indices_def)

lemma geometry_eqD:
  assumes "geometry A' = geometry A"
  shows "all_handles A' = all_handles A" and "located A' = located A" and "entry_located A' = entry_located A"
    and "ba_max_data A' = ba_max_data A" and "job_ok pf P A' = job_ok pf P A"
proof -
  have 1: "handle_of (ba_pool A') = handle_of (ba_pool A)" "mp_total_blocks (ba_pool A') = mp_total_blocks (ba_pool A)"
    using assms by (simp_all add: geometry_def handle_of_def fun_eq_iff)
  then show a: "all_handles A' = all_handles A" by (simp add: all_handles_def)
  show l: "located A' = located A" unfolding located_def fun_eq_iff a location_of_geometry [OF assms] by simp
  show "entry_located A' = entry_located A" unfolding entry_located_def l by simp
  show m: "ba_max_data A' = ba_max_data A" using assms by (simp add: geometry_def)
  show "job_ok pf P A' = job_ok pf P A" unfolding job_ok_def fun_eq_iff m by simp
qed

lemma handle_of_located:
  assumes "store_inv A" and "handles_fit A" and "h \<in> all_handles A"
  shows "block_handle_of (location_of A h g) = h"
proof -
  let ?p = "ba_pool A" and ?A = "A\<lparr>ba_pool := (ba_pool A)\<lparr>mp_free_list := []\<rparr>\<rparr>"
  have "store_inv ?A" "handles_fit ?A"
    using assms(1,2) by (simp_all add: store_inv_def alloc_inv_def pool_inv_def pool_wf_def handles_fit_def)
  moreover have "h \<in> ba_live ?A"
    using assms(3) by (simp add: all_handles_def live_handles_def live_indices_def)
  ultimately have "block_handle_of (location_of ?A h g) = h" by (rule handle_of_location)
  then show ?thesis by (simp add: location_of_def)
qed

lemma located_handle: "store_inv A \<Longrightarrow> handles_fit A \<Longrightarrow> located A loc \<Longrightarrow> block_handle_of loc \<in> all_handles A"
  by (auto simp: located_def handle_of_located)

lemma slice_located:
  assumes "store_inv A" and "h \<in> all_handles A"
  obtains bs where "get_slice (ba_pool A) h = Inr bs" and "length bs = mp_block_size (ba_pool A)" and "HEADER_SIZE \<le> length bs"
proof -
  obtain i where i: "h = handle_of (ba_pool A) i" "i < mp_total_blocks (ba_pool A)"
    using assms(2) by (auto simp: all_handles_def)
  have wf: "pool_wf (ba_pool A)" "HEADER_SIZE \<le> mp_block_size (ba_pool A)"
    using assms(1) by (simp_all add: store_inv_def alloc_inv_def pool_inv_def)
  show ?thesis
    using that get_slice_handle [OF wf(1) i(2)] block_in_region [OF wf(1) i(2)] wf i(1)
    by (simp add: pool_wf_def)
qed

lemma frame_refl [simp]: "store_inv A \<Longrightarrow> frame B A A"
  by (simp add: frame_def)

lemma frame_stored:
  assumes "frame B A A'" and "stored_ok pf P A j loc" and "block_handle_of loc \<in> ba_live A" and "block_handle_of loc \<notin> B"
  shows "stored_ok pf P A' j loc"
proof -
  have g: "geometry A' = geometry A" and s: "get_slice (ba_pool A') (block_handle_of loc) = get_slice (ba_pool A) (block_handle_of loc)"
    using assms by (simp_all add: frame_def)
  show ?thesis
    using assms(2) geometry_eqD [OF g] unfolding stored_ok_def read_verified_cong [OF s] by simp
qed

lemma frame_thread:
  assumes "frame B A A'" and "thread_ok pf P A t" and "owns t \<subseteq> ba_live A" and "owns t \<inter> B = {}"
  shows "thread_ok pf P A' t"
proof -
  have g: "geometry A' = geometry A" and s: "\<forall>h \<in> owns t. get_slice (ba_pool A') h = get_slice (ba_pool A) h"
    using assms by (auto simp: frame_def)
  note eqs = geometry_eqD [OF g]
  show ?thesis
    using assms(2-4) s frame_stored [OF assms(1)] by (cases t) (simp_all add: eqs)
qed

lemma frame_entry:
  assumes "frame B A A'" and "entry_ok pf A e" and "entry_handle e \<notin> B"
  shows "entry_ok pf A' e" and "entry_value pf A' e = entry_value pf A e"
proof -
  have l: "entry_handle e \<in> ba_live A" using assms(2) by (auto simp: entry_ok_def)
  then have f: "geometry A' = geometry A" "entry_handle e \<in> ba_live A'"
      "get_slice (ba_pool A') (entry_handle e) = get_slice (ba_pool A) (entry_handle e)"
    using assms(1,3) by (simp_all add: frame_def)
  note e = entry_ok_keep [OF assms(2) f(1,2) read_verified_cong [OF f(3)]]
  show "entry_ok pf A' e" "entry_value pf A' e = entry_value pf A e" by (rule e)+
qed

section \<open>One step of one thread\<close>

inductive effect ::
    "platform \<Rightarrow> (hash16 \<Rightarrow> bytes \<Rightarrow> bool) \<Rightarrow> thread \<Rightarrow> cache_service \<Rightarrow> thread \<Rightarrow> cache_service \<Rightarrow> bool"
  for pf P where
  quiet: "svc_map S' = svc_map S \<Longrightarrow> owns t' \<subseteq> owns t \<Longrightarrow> effect pf P t S t' S'"
| gain: "svc_map S' = svc_map S \<Longrightarrow> owns t = {} \<Longrightarrow> owns t' = {h} \<Longrightarrow> h \<notin> ba_live (svc_allocator S) \<Longrightarrow>
    ba_live (svc_allocator S') = insert h (ba_live (svc_allocator S)) \<Longrightarrow> effect pf P t S t' S'"
| put: "svc_map S' = fmupd k e (svc_map S) \<Longrightarrow> owns t = {entry_handle e} \<Longrightarrow> owns t' = {} \<Longrightarrow>
    svc_allocator S' = svc_allocator S \<Longrightarrow> entry_ok pf (svc_allocator S) e \<Longrightarrow>
    P k (snd (entry_value pf (svc_allocator S) e)) \<Longrightarrow> effect pf P t S t' S'"
| drop: "svc_map S' = fmdrop k (svc_map S) \<Longrightarrow> owns t' = owns t \<Longrightarrow> effect pf P t S t' S'"
| take: "t = MapRemove k \<Longrightarrow> svc_map S' = fmdrop k (svc_map S) \<Longrightarrow> fmlookup (svc_map S) k = Some e \<Longrightarrow>
    owns t' = {entry_handle e} \<Longrightarrow> effect pf P t S t' S'"

definition good_step ::
    "platform \<Rightarrow> (hash16 \<Rightarrow> bytes \<Rightarrow> bool) \<Rightarrow> thread \<Rightarrow> cache_service \<Rightarrow> thread \<Rightarrow> cache_service \<Rightarrow> bool" where
  "good_step pf P t S t' S' \<longleftrightarrow>
     effect pf P t S t' S' \<and> frame (owns t) (svc_allocator S) (svc_allocator S') \<and> lru_inv (svc_lru S') \<and>
     thread_ok pf P (svc_allocator S') t' \<and> owns t' \<subseteq> ba_live (svc_allocator S')"

definition shared_ok :: "platform \<Rightarrow> (hash16 \<Rightarrow> bytes \<Rightarrow> bool) \<Rightarrow> cache_service \<Rightarrow> bool" where
  "shared_ok pf P S \<longleftrightarrow>
     store_inv (svc_allocator S) \<and> handles_fit (svc_allocator S) \<and> lru_inv (svc_lru S) \<and> map_ok pf P S"

lemma quiet_good:
  assumes "shared_ok pf P S" and "svc_allocator S' = svc_allocator S" and "svc_map S' = svc_map S" and "lru_inv (svc_lru S')"
    and "thread_ok pf P (svc_allocator S) t'" and "owns t' \<subseteq> owns t" and "owns t \<subseteq> ba_live (svc_allocator S)"
  shows "good_step pf P t S t' S'"
  using assms by (auto simp: good_step_def shared_ok_def intro: quiet)

lemma entry_ok_located: "entry_ok pf A e \<Longrightarrow> entry_located A e"
  using live_all [of A] by (auto simp: entry_ok_def entry_located_def located_def)

lemma map_entry_located:
  "shared_ok pf P S \<Longrightarrow> fmlookup (svc_map S) k = Some e \<Longrightarrow> entry_located (svc_allocator S) e"
  by (auto simp: shared_ok_def map_ok_def intro: entry_ok_located)

lemma begin_find_ok [simp]: "thread_ok pf P A (begin_find f pf m h)" "owns (begin_find f pf m h) = {}"
  by (simp_all add: begin_find_def split: sum.split)

lemma begin_store_ok:
  assumes "request_ok pf P (DoStore now stream)"
  obtains t where "begin_store pf now stream S = Inr t" and "thread_ok pf P A t" and "owns t = {}"
  using assms that
  by (fastforce simp: begin_store_def request_ok_def store_args_def Let_def split: if_splits sum.splits)

lemma begin_good:
  assumes "shared_ok pf P S" and "request_ok pf P r"
  shows "\<exists>t' S'. begin_request pf r S = Inr (t', S') \<and> good_step pf P (Begin r) S t' S'"
proof (cases r)
  case (DoStore now stream)
  obtain t where "begin_store pf now stream S = Inr t" "thread_ok pf P (svc_allocator S) t" "owns t = {}"
    using begin_store_ok [of pf P now stream S "svc_allocator S"] assms(2) DoStore by blast
  then show ?thesis
    using assms(1) DoStore quiet_good [OF assms(1), of S t "Begin r"] by (simp add: shared_ok_def)
next
  case (DoDelete req)
  then show ?thesis
    using assms(1) by (auto simp: shared_ok_def Let_def intro!: quiet_good split: sum.split)
qed (use assms(1) in \<open>auto simp: shared_ok_def Let_def intro!: quiet_good\<close>)

lemma found_next_ok [simp]:
  "entry_located A e \<Longrightarrow> thread_ok pf P A (found_next f e S)" "owns (found_next f e S) = {}"
  by (cases f; simp)+

lemma missed_next_ok [simp]: "thread_ok pf P A (missed_next f)" "owns (missed_next f) = {}"
  by (cases f; simp)+

lemma data_loss_ok [simp]: "thread_ok pf P A (data_loss n ms)" "owns (data_loss n ms) = {}"
  by (simp_all add: data_loss_def)

lemma lookup_points_good:
  assumes "shared_ok pf P S"
  shows "\<exists>t' S'. tstep pf n (BatchNext m hs fs bs) S = Inr (t', S') \<and> good_step pf P (BatchNext m hs fs bs) S t' S'"
    and "\<exists>t' S'. tstep pf n (MapGet f k) S = Inr (t', S') \<and> good_step pf P (MapGet f k) S t' S'"
    and "\<exists>t' S'. tstep pf n (FindMiss f k) S = Inr (t', S') \<and> good_step pf P (FindMiss f k) S t' S'"
    and "entry_located (svc_allocator S) e \<Longrightarrow>
      \<exists>t' S'. tstep pf n (FindHit f e) S = Inr (t', S') \<and> good_step pf P (FindHit f e) S t' S'"
    and "entry_located (svc_allocator S) e \<Longrightarrow>
      \<exists>t' S'. tstep pf n (LruTouch f k e) S = Inr (t', S') \<and> good_step pf P (LruTouch f k e) S t' S'"
proof -
  have l: "lru_inv (svc_lru S)" using assms by (simp add: shared_ok_def)
  show "\<exists>t' S'. tstep pf n (BatchNext m hs fs bs) S = Inr (t', S') \<and> good_step pf P (BatchNext m hs fs bs) S t' S'"
    using l by (cases hs) (auto intro!: quiet_good [OF assms])
  show "\<exists>t' S'. tstep pf n (MapGet f k) S = Inr (t', S') \<and> good_step pf P (MapGet f k) S t' S'"
    using l map_entry_located [OF assms] by (auto intro!: quiet_good [OF assms] split: option.split)
  show "\<exists>t' S'. tstep pf n (FindMiss f k) S = Inr (t', S') \<and> good_step pf P (FindMiss f k) S t' S'"
    using l by (cases f) (auto intro!: quiet_good [OF assms] split: option.split list.split)
  show "\<exists>t' S'. tstep pf n (FindHit f e) S = Inr (t', S') \<and> good_step pf P (FindHit f e) S t' S'"
    if "entry_located (svc_allocator S) e"
    using l that by (auto intro!: quiet_good [OF assms])
  show "\<exists>t' S'. tstep pf n (LruTouch f k e) S = Inr (t', S') \<and> good_step pf P (LruTouch f k e) S t' S'"
    if "entry_located (svc_allocator S) e"
    using lru.tc_ok [OF l, of k] that by (auto intro!: quiet_good [OF assms])
qed

text \<open>Writing into a block one owns.\<close>

lemma write_block:
  assumes "store_inv A" and "h \<in> ba_live A" and "get_slice_mut (ba_pool A) h = Inr (cur, upd)"
    and "length bs = length cur"
  shows "frame {h} A (A\<lparr>ba_pool := upd bs\<rparr>)" and "get_slice (upd bs) h = Inr bs"
    and "live_handles (upd bs) = ba_live A" and "geometry (A\<lparr>ba_pool := upd bs\<rparr>) = geometry A"
proof -
  have inv: "pool_inv (ba_pool A)" using assms(1) by (simp add: store_inv_def alloc_inv_def)
  note m = get_slice_mut_Inr [OF assms(3)]
  have len: "length bs = mp_block_size (ba_pool A)"
    using mp.sl_total [OF inv assms(2)] m(1) assms(4) by auto
  note st = mp.st_Inr [OF inv assms(2) len m(2)]
  show s: "get_slice (upd bs) h = Inr bs" and l: "live_handles (upd bs) = ba_live A" using st by simp_all
  show g: "geometry (A\<lparr>ba_pool := upd bs\<rparr>) = geometry A" using pool_store_geometry [OF m(2) [of bs], where A = A] by simp
  have "alloc_inv (A\<lparr>ba_pool := upd bs\<rparr>)" using st assms(1) by (simp add: alloc_inv_def store_inv_def)
  then have "store_inv (A\<lparr>ba_pool := upd bs\<rparr>)" using store_inv_geometry [OF g] assms(1) by blast
  then show "frame {h} A (A\<lparr>ba_pool := upd bs\<rparr>)"
    using mp.st_frame [OF inv assms(2) len m(2)] l g by (simp add: frame_def)
qed

lemma write_image:
  assumes "store_inv A" and "get_slice (ba_pool A) h = Inr (seg_write HEADER_SIZE d (header_bytes pf (header_new pf d g) @ rest))"
    and "length d \<le> length rest" and "length d \<le> ba_max_data A"
  shows "read_verified pf A h = Inr (Some d)"
proof -
  have "seg_write HEADER_SIZE d (header_bytes pf (header_new pf d g) @ rest) =
      block_image pf d g (header_bytes pf (header_new pf d g) @ rest)"
    by (simp add: block_image_def seg_write_def add.commute)
  then have "read_verified pf A h =
      (let d' = take (length d mod 2 ^ 32) d in Inr (if crc32_of pf d' = crc32_of pf d then Some d' else None))"
    using assms(2,3) read_verified_image [of A h pf d g "header_bytes pf (header_new pf d g) @ rest"] by simp
  moreover have "length d < 2 ^ 32" using assms(1,4) by (simp add: store_inv_def)
  ultimately show ?thesis by (simp add: Let_def)
qed

lemma pool_inv_of: "shared_ok pf P S \<Longrightarrow> pool_inv (svc_pool S)"
  by (simp add: shared_ok_def store_inv_def alloc_inv_def svc_pool_def)

lemma allocate_frame:
  assumes "store_inv A" and "allocate (ba_pool A) = Some (h, p)"
  shows "frame {} A (A\<lparr>ba_pool := p\<rparr>)" and "h \<notin> ba_live A" and "live_handles p = insert h (ba_live A)"
    and "geometry (A\<lparr>ba_pool := p\<rparr>) = geometry A"
proof -
  have inv: "pool_inv (ba_pool A)" using assms(1) by (simp add: store_inv_def alloc_inv_def)
  note al = mp.al_Some [OF inv assms(2)]
  show g: "geometry (A\<lparr>ba_pool := p\<rparr>) = geometry A" using allocate_geometry [OF assms(2), of A] by simp
  have "alloc_inv (A\<lparr>ba_pool := p\<rparr>)" using al assms(1) by (simp add: alloc_inv_def store_inv_def)
  then have "store_inv (A\<lparr>ba_pool := p\<rparr>)" using store_inv_geometry [OF g] assms(1) by blast
  then show "frame {} A (A\<lparr>ba_pool := p\<rparr>)"
    using al g mp.al_frame [OF inv assms(2)] by (simp add: frame_def)
  show "h \<notin> ba_live A" "live_handles p = insert h (ba_live A)" using al by simp_all
qed

lemma allocate_good:
  assumes "shared_ok pf P S" and "P (sj_key j) (sj_data j)"
  shows "\<exists>t' S'. tstep pf n (PoolAllocate j) S = Inr (t', S') \<and> good_step pf P (PoolAllocate j) S t' S'"
proof -
  have inv: "store_inv (svc_allocator S)" "lru_inv (svc_lru S)" using assms(1) by (simp_all add: shared_ok_def)
  have sub: "usize_sub (overflow_checks pf) (pool_block_size (svc_pool S)) HEADER_SIZE = Inr (ba_max_data (svc_allocator S))"
    using inv(1) by (simp add: svc_pool_def pool_block_size_def store_inv_def alloc_inv_def)
  have same: "good_step pf P (PoolAllocate j) S (Finished r) S" for r
    using inv by (intro quiet_good [OF assms(1)]) simp_all
  show ?thesis
  proof (cases "length (sj_data j) > ba_max_data (svc_allocator S) \<or> allocate (svc_pool S) = None")
    case True
    then show ?thesis using sub same by (auto simp: Let_def)
  next
    case False
    then obtain h p where al: "allocate (svc_pool S) = Some (h, p)" by auto
    note f = allocate_frame [OF inv(1) al [unfolded svc_pool_def]]
    have "job_ok pf P (svc_allocator (set_pool p S)) j"
      using False assms(2) geometry_eqD(5) [OF f(4)] by (simp add: job_ok_def)
    moreover have "effect pf P (PoolAllocate j) S (FetchGeneration j h) (set_pool p S)"
      by (rule gain [where h = h]) (use f in simp_all)
    ultimately have "good_step pf P (PoolAllocate j) S (FetchGeneration j h) (set_pool p S)"
      using f inv(2) by (simp add: good_step_def)
    then show ?thesis using False sub al by (simp add: Let_def)
  qed
qed

lemma generation_good:
  assumes "shared_ok pf P S" and "job_ok pf P (svc_allocator S) j" and "h \<in> ba_live (svc_allocator S)"
  shows "\<exists>t' S'. tstep pf n (FetchGeneration j h) S = Inr (t', S') \<and> good_step pf P (FetchGeneration j h) S t' S'"
proof -
  let ?A = "(svc_allocator S)\<lparr>ba_generation := ba_generation (svc_allocator S) + 1\<rparr>"
  have g: "geometry ?A = geometry (svc_allocator S)" by (simp add: geometry_def)
  have inv: "store_inv ?A" "lru_inv (svc_lru S)"
    using assms(1) by (simp_all add: shared_ok_def store_inv_def alloc_inv_def)
  have "effect pf P (FetchGeneration j h) S (WriteHeader j h (ba_generation (svc_allocator S))) (set_allocator ?A S)"
    by (rule quiet) simp_all
  then show ?thesis
    using assms(2,3) inv g geometry_eqD(5) [OF g] by (simp add: Let_def good_step_def frame_def)
qed

lemma header_good:
  assumes "shared_ok pf P S" and "job_ok pf P (svc_allocator S) j" and "h \<in> ba_live (svc_allocator S)"
  shows "\<exists>t' S'. tstep pf n (WriteHeader j h g) S = Inr (t', S') \<and> good_step pf P (WriteHeader j h g) S t' S'"
proof -
  have inv: "store_inv (svc_allocator S)" "lru_inv (svc_lru S)" using assms(1) by (simp_all add: shared_ok_def)
  obtain cur upd where m: "get_slice_mut (ba_pool (svc_allocator S)) h = Inr (cur, upd)"
      and "length cur = mp_block_size (ba_pool (svc_allocator S))"
    using get_slice_mut_live [OF pool_inv_of [OF assms(1), unfolded svc_pool_def] assms(3)] .
  then have len: "HEADER_SIZE \<le> length cur" using inv(1) by (simp add: store_inv_def alloc_inv_def)
  define bs where "bs = header_bytes pf (header_new pf (sj_data j) g) @ drop HEADER_SIZE cur"
  have "length bs = length cur" using len by (simp add: bs_def)
  note w = write_block [OF inv(1) assms(3) m this]
  have "tstep pf n (WriteHeader j h g) S = Inr (WriteData j h g, set_pool (upd bs) S)"
    using m len by (simp add: svc_pool_def write_to_def bs_def)
  moreover have "effect pf P (WriteHeader j h g) S (WriteData j h g) (set_pool (upd bs) S)"
    by (rule quiet) simp_all
  then have "good_step pf P (WriteHeader j h g) S (WriteData j h g) (set_pool (upd bs) S)"
    using w inv(2) assms(2,3) geometry_eqD(5) [OF w(4)] by (simp add: good_step_def bs_def)
  ultimately show ?thesis by blast
qed

lemma data_good:
  assumes "shared_ok pf P S" and "thread_ok pf P (svc_allocator S) (WriteData j h g)" and "h \<in> ba_live (svc_allocator S)"
  shows "\<exists>t' S'. tstep pf n (WriteData j h g) S = Inr (t', S') \<and> good_step pf P (WriteData j h g) S t' S'"
proof -
  have inv: "store_inv (svc_allocator S)" "handles_fit (svc_allocator S)" "lru_inv (svc_lru S)"
    using assms(1) by (simp_all add: shared_ok_def)
  obtain cur upd where m: "get_slice_mut (ba_pool (svc_allocator S)) h = Inr (cur, upd)"
      and l: "length cur = mp_block_size (ba_pool (svc_allocator S))"
    using get_slice_mut_live [OF pool_inv_of [OF assms(1), unfolded svc_pool_def] assms(3)] .
  obtain rest where cur: "cur = header_bytes pf (header_new pf (sj_data j) g) @ rest"
    using assms(2) get_slice_mut_Inr(1) [OF m] by auto
  have job: "job_ok pf P (svc_allocator S) j" using assms(2) by simp
  then have len: "HEADER_SIZE + length (sj_data j) \<le> length cur"
    using l inv(1) by (auto simp: job_ok_def store_inv_def alloc_inv_def)
  define bs where "bs = seg_write HEADER_SIZE (sj_data j) cur"
  have "length bs = length cur" using len by (simp add: bs_def)
  note w = write_block [OF inv(1) assms(3) m this]
  let ?S = "set_pool (upd bs) S" and ?loc = "block_location_for S h g"
  have loc: "?loc = location_of (svc_allocator S) h g"
    by (simp add: block_location_for_def location_of_def svc_pool_def pool_block_size_def)
  have "h \<in> all_handles (svc_allocator S)" using assms(3) live_all by blast
  then have h: "block_handle_of ?loc = h" "located (svc_allocator S) ?loc"
    unfolding loc using handle_of_located [OF inv(1,2)] by (auto simp: located_def)
  have "read_verified pf (svc_allocator ?S) h = Inr (Some (sj_data j))"
    using w(1,2) job len write_image [of "svc_allocator ?S" h "sj_data j" pf g rest] geometry_eqD(4) [OF w(4)]
    by (simp add: frame_def bs_def cur job_ok_def)
  then have "stored_ok pf P (svc_allocator ?S) j ?loc"
    using job h geometry_eqD(2,5) [OF w(4)] by (simp add: stored_ok_def)
  moreover have "effect pf P (WriteData j h g) S (ContainsKey j ?loc) ?S"
    by (rule quiet) (use h in simp_all)
  ultimately have "good_step pf P (WriteData j h g) S (ContainsKey j ?loc) ?S"
    using w inv(3) assms(3) h by (simp add: good_step_def)
  moreover have "tstep pf n (WriteData j h g) S = Inr (ContainsKey j ?loc, ?S)"
    using m len by (simp add: svc_pool_def bs_def)
  ultimately show ?thesis by blast
qed

lemma insert_points_good:
  assumes "shared_ok pf P S" and "stored_ok pf P (svc_allocator S) j loc" and "block_handle_of loc \<in> ba_live (svc_allocator S)"
  shows "\<exists>t' S'. tstep pf n (ContainsKey j loc) S = Inr (t', S') \<and> good_step pf P (ContainsKey j loc) S t' S'"
    and "\<exists>t' S'. tstep pf n (MapLen j loc ev) S = Inr (t', S') \<and> good_step pf P (MapLen j loc ev) S t' S'"
    and "\<exists>t' S'. tstep pf n (EvictLru j loc ev) S = Inr (t', S') \<and> good_step pf P (EvictLru j loc ev) S t' S'"
proof -
  have l: "lru_inv (svc_lru S)" using assms(1) by (simp add: shared_ok_def)
  show "\<exists>t' S'. tstep pf n (ContainsKey j loc) S = Inr (t', S') \<and> good_step pf P (ContainsKey j loc) S t' S'"
    using l assms(2,3) by (auto intro!: quiet_good [OF assms(1)])
  show "\<exists>t' S'. tstep pf n (MapLen j loc ev) S = Inr (t', S') \<and> good_step pf P (MapLen j loc ev) S t' S'"
    using l assms(2,3) by (auto intro!: quiet_good [OF assms(1)])
  obtain v s where "evict_lru (svc_lru S) = Inr (v, s)" "lru_inv s"
    using lru.ev_None [OF l] lru.ev_Some [OF l] l by (cases "lru_order (svc_lru S)" rule: rev_cases) blast+
  then show "\<exists>t' S'. tstep pf n (EvictLru j loc ev) S = Inr (t', S') \<and> good_step pf P (EvictLru j loc ev) S t' S'"
    using assms(2,3) by (auto intro!: quiet_good [OF assms(1)] split: option.split)
qed

lemma victim_good:
  assumes "shared_ok pf P S" and "stored_ok pf P (svc_allocator S) j loc" and "block_handle_of loc \<in> ba_live (svc_allocator S)"
  shows "good_step pf P (MapRemoveVictim j loc ev v) S (MapLen j loc (ev @ [v])) (set_map (fmdrop v (svc_map S)) S)"
proof -
  have "effect pf P (MapRemoveVictim j loc ev v) S (MapLen j loc (ev @ [v])) (set_map (fmdrop v (svc_map S)) S)"
    by (rule drop [where k = v]) simp_all
  then show ?thesis using assms by (simp add: good_step_def shared_ok_def)
qed

lemma insert_good:
  assumes "shared_ok pf P S" and "stored_ok pf P (svc_allocator S) j loc" and "block_handle_of loc \<in> ba_live (svc_allocator S)"
  shows "\<exists>t' S'. tstep pf n (MapInsert j loc ev) S = Inr (t', S') \<and> good_step pf P (MapInsert j loc ev) S t' S'"
proof -
  let ?e = "\<lparr>ie_blocks = [loc], ie_created_at = monotonic_now (sj_now j)\<rparr>"
  have inv: "store_inv (svc_allocator S)" "handles_fit (svc_allocator S)" "lru_inv (svc_lru S)"
    using assms(1) by (simp_all add: shared_ok_def)
  obtain h g where h: "h \<in> all_handles (svc_allocator S)" "loc = location_of (svc_allocator S) h g"
    using assms(2) by (auto simp: stored_ok_def located_def)
  have eh: "entry_handle ?e = block_handle_of loc" "block_handle_of loc = h"
    using handle_of_located [OF inv(1,2) h(1)] h(2) by (simp_all add: entry_handle_def)
  have rd: "read_verified pf (svc_allocator S) (entry_handle ?e) = Inr (Some (sj_data j))"
    using assms(2) eh(1) by (simp add: stored_ok_def)
  have eo: "entry_ok pf (svc_allocator S) ?e"
    using rd assms(3) h(2) eh unfolding entry_ok_def by auto
  have "snd (entry_value pf (svc_allocator S) ?e) = sj_data j" by (simp add: entry_value_def rd)
  then have "effect pf P (MapInsert j loc ev) S (LruTouchNew j loc ev) (set_map (fmupd (sj_key j) ?e (svc_map S)) S)"
    using assms(2) by (intro put [where k = "sj_key j", OF _ _ _ _ eo]) (simp_all add: eh(1) stored_ok_def job_ok_def)
  then show ?thesis using inv by (simp add: good_step_def)
qed

lemma remove_good:
  assumes "shared_ok pf P S"
  shows "\<exists>t' S'. tstep pf n (MapRemove k) S = Inr (t', S') \<and> good_step pf P (MapRemove k) S t' S'"
proof (cases "fmlookup (svc_map S) k")
  case None
  then show ?thesis using assms by (auto simp: shared_ok_def intro!: quiet_good)
next
  case (Some e)
  have inv: "store_inv (svc_allocator S)" "lru_inv (svc_lru S)" and e: "entry_ok pf (svc_allocator S) e"
    using assms Some by (auto simp: shared_ok_def map_ok_def)
  then obtain loc where loc: "ie_blocks e = [loc]" "block_handle_of loc = entry_handle e"
    using entry_ok_located [OF e] by (auto simp: entry_located_def entry_handle_def)
  have "effect pf P (MapRemove k) S (LruRemove k e) (set_map (fmdrop k (svc_map S)) S)"
    by (rule take [OF _ _ Some]) (simp_all add: loc)
  moreover have "entry_handle e \<in> ba_live (svc_allocator S)" using e by (auto simp: entry_ok_def)
  ultimately show ?thesis using Some inv entry_ok_located [OF e] loc by (simp add: good_step_def)
qed

lemma deallocate_good:
  assumes "shared_ok pf P S" and "thread_ok pf P (svc_allocator S) (PoolDeallocate locs freed)"
    and "set (map block_handle_of locs) \<subseteq> ba_live (svc_allocator S)"
  shows "\<exists>t' S'. tstep pf n (PoolDeallocate locs freed) S = Inr (t', S') \<and> good_step pf P (PoolDeallocate locs freed) S t' S'"
proof (cases locs)
  case Nil
  then show ?thesis using assms(1) by (auto simp: shared_ok_def intro!: quiet_good)
next
  case (Cons loc rest)
  then have Nil: "rest = []" using assms(2) by simp
  let ?h = "block_handle_of loc"
  have inv: "store_inv (svc_allocator S)" "lru_inv (svc_lru S)" and h: "?h \<in> ba_live (svc_allocator S)"
    using assms Cons by (simp_all add: shared_ok_def)
  then have ai: "alloc_inv (svc_allocator S)" by (simp add: store_inv_def)
  obtain A where A: "ba_deallocate (svc_allocator S) ?h = Inr A" using ba_deallocate_total [OF ai h] by blast
  note d = ba_deallocate_inv [OF ai h A]
  have "frame {?h} (svc_allocator S) A"
    using d store_inv_geometry [OF deallocate_geometry [OF A]] deallocate_geometry [OF A] inv(1)
    by (simp add: frame_def)
  moreover have "effect pf P (PoolDeallocate locs freed) S (PoolDeallocate [] freed) (set_allocator A S)"
    by (rule quiet) simp_all
  ultimately show ?thesis using A inv(2) Cons Nil by (simp add: good_step_def)
qed

lemma stream_points_good:
  assumes "shared_ok pf P S"
  shows "entry_located (svc_allocator S) e \<Longrightarrow>
      \<exists>t' S'. tstep pf n (StreamHeader e m) S = Inr (t', S') \<and> good_step pf P (StreamHeader e m) S t' S'"
    and "list_all (located (svc_allocator S)) locs \<Longrightarrow>
      \<exists>t' S'. tstep pf n (ReadHeader locs m ms) S = Inr (t', S') \<and> good_step pf P (ReadHeader locs m ms) S t' S'"
    and "located (svc_allocator S) loc \<Longrightarrow> list_all (located (svc_allocator S)) locs \<Longrightarrow>
      \<exists>t' S'. tstep pf n (VerifyData loc hdr locs m ms) S = Inr (t', S') \<and> good_step pf P (VerifyData loc hdr locs m ms) S t' S'"
    and "located (svc_allocator S) loc \<Longrightarrow> list_all (located (svc_allocator S)) locs \<Longrightarrow>
      \<exists>t' S'. tstep pf n (CopyData loc hdr locs m ms) S = Inr (t', S') \<and> good_step pf P (CopyData loc hdr locs m ms) S t' S'"
proof -
  have inv: "store_inv (svc_allocator S)" "handles_fit (svc_allocator S)" "lru_inv (svc_lru S)"
    using assms by (simp_all add: shared_ok_def)
  have same: "good_step pf P t S t' S" if "owns t = {}" "owns t' = {}" "thread_ok pf P (svc_allocator S) t'" for t t'
    using that inv by (intro quiet_good [OF assms]) simp_all
  have slice: "\<exists>bs. get_slice (svc_pool S) (block_handle_of loc) = Inr bs" if "located (svc_allocator S) loc" for loc
    using slice_located [OF inv(1) located_handle [OF inv(1,2) that]] unfolding svc_pool_def by metis
  show "\<exists>t' S'. tstep pf n (StreamHeader e m) S = Inr (t', S') \<and> good_step pf P (StreamHeader e m) S t' S'"
    if "entry_located (svc_allocator S) e"
    using that unsigned_less [of "loc_block_size (hd (ie_blocks e))", where ?'a = nat] by (cases m) (auto simp: entry_located_def Let_def intro!: same)
  show "\<exists>t' S'. tstep pf n (ReadHeader locs m ms) S = Inr (t', S') \<and> good_step pf P (ReadHeader locs m ms) S t' S'"
    if "list_all (located (svc_allocator S)) locs"
  proof (cases locs)
    case Nil
    then show ?thesis by (auto intro!: same)
  next
    case (Cons loc rest)
    then have locs: "located (svc_allocator S) loc" "list_all (located (svc_allocator S)) rest" using that by simp_all
    obtain bs where "get_slice (svc_pool S) (block_handle_of loc) = Inr bs" using slice [OF locs(1)] by blast
    then show ?thesis using locs Cons by (auto intro!: same split: option.split)
  qed
  show "\<exists>t' S'. tstep pf n (VerifyData loc hdr locs m ms) S = Inr (t', S') \<and> good_step pf P (VerifyData loc hdr locs m ms) S t' S'"
    if "located (svc_allocator S) loc" "list_all (located (svc_allocator S)) locs"
  proof -
    from slice [OF that(1)] obtain bs where "get_slice (svc_pool S) (block_handle_of loc) = Inr bs" by blast
    then show ?thesis using that by (auto intro!: same)
  qed
  show "\<exists>t' S'. tstep pf n (CopyData loc hdr locs m ms) S = Inr (t', S') \<and> good_step pf P (CopyData loc hdr locs m ms) S t' S'"
    if "located (svc_allocator S) loc" "list_all (located (svc_allocator S)) locs"
  proof -
    from slice [OF that(1)] obtain bs where "get_slice (svc_pool S) (block_handle_of loc) = Inr bs" by blast
    then show ?thesis using that by (cases m) (auto intro!: same)
  qed
qed

lemma tstep_good:
  assumes "shared_ok pf P S" and "thread_ok pf P (svc_allocator S) t" and "owns t \<subseteq> ba_live (svc_allocator S)"
  shows "\<exists>t' S'. tstep pf n t S = Inr (t', S') \<and> good_step pf P t S t' S'"
proof -
  have l: "lru_inv (svc_lru S)" using assms(1) by (simp add: shared_ok_def)
  note q = quiet_good [OF assms(1)]
  show ?thesis
  proof (cases t)
    case (Begin r)
    then show ?thesis using begin_good [OF assms(1)] assms(2) by simp
  next
    case (MapRemoveVictim j loc ev v)
    then show ?thesis using victim_good [OF assms(1)] assms by simp
  next
    case (LruTouchNew j loc ev)
    then show ?thesis using lru.tc_ok [OF l, of "sj_key j"] by (auto intro!: q)
  next
    case (LruRemove k e)
    then show ?thesis using lru.rm_ok [OF l, of k] assms(2,3) by (auto simp: entry_located_def intro!: q)
  next
    case (LoadCounters ps cs)
    then show ?thesis using l by (cases cs; cases "tl cs") (auto intro!: q)
  next
    case (RemoteHit b)
    then show ?thesis using l by (auto intro!: q)
  next
    case RemoteMiss
    then show ?thesis using l by (auto intro!: q)
  next
    case (AddEvictions j loc ev)
    then show ?thesis using l by (auto intro!: q)
  next
    case (StoreLevel level)
    then show ?thesis using l by (auto intro!: q)
  next
    case (Finished r)
    then show ?thesis using l by (auto intro!: q)
  next
    case (PoolAllocate j)
    then show ?thesis using allocate_good [OF assms(1)] assms(2) by simp
  next
    case (FetchGeneration j h)
    then show ?thesis using generation_good [OF assms(1)] assms(2,3) by simp
  next
    case (WriteHeader j h g)
    then show ?thesis using header_good [OF assms(1)] assms(2,3) by simp
  next
    case (WriteData j h g)
    then show ?thesis using data_good [OF assms(1)] assms(2,3) by simp
  next
    case (MapInsert j loc ev)
    then show ?thesis using insert_good [OF assms(1)] assms(2,3) by simp
  next
    case (PoolDeallocate locs freed)
    then show ?thesis using deallocate_good [OF assms(1)] assms(2,3) by simp
  qed (use assms lookup_points_good [OF assms(1)] insert_points_good [OF assms(1)] remove_good [OF assms(1)]
        stream_points_good [OF assms(1)] in \<open>simp_all del: tstep.simps\<close>)
qed

section \<open>The invariant\<close>

lemma conc_invD:
  assumes "conc_inv pf P (ts, S)"
  shows "shared_ok pf P S" and "i < length ts \<Longrightarrow> thread_ok pf P (svc_allocator S) (ts ! i)"
    and "exclusive (owned (ts, S)) (ba_live (svc_allocator S))"
    and "i < length ts \<Longrightarrow> owns (ts ! i) \<subseteq> ba_live (svc_allocator S)"
proof -
  show e: "exclusive (owned (ts, S)) (ba_live (svc_allocator S))" and "shared_ok pf P S"
    using assms by (simp_all add: conc_inv_def shared_ok_def)
  show "i < length ts \<Longrightarrow> thread_ok pf P (svc_allocator S) (ts ! i)"
    using assms by (simp add: conc_inv_def list_all_length)
  show "i < length ts \<Longrightarrow> owns (ts ! i) \<subseteq> ba_live (svc_allocator S)"
    using exclusiveD(1) [OF e, of "Worker i"] by simp
qed

lemma owned_outside:
  assumes "exclusive (owned (ts, S)) L" and "i < length ts" and "x \<noteq> Worker i" and "h \<in> owned (ts, S) x"
  shows "h \<notin> owns (ts ! i)"
  using exclusiveD(2) [OF assms(1,4), of "Worker i"] assms(2,3) by auto

lemma effect_lookup:
  assumes "effect pf P t S t' S'" and "fmlookup (svc_map S') k = Some e"
  shows "fmlookup (svc_map S) k = Some e \<or>
    entry_ok pf (svc_allocator S') e \<and> P k (snd (entry_value pf (svc_allocator S') e))"
  using assms by cases (auto split: if_splits)

lemma effect_exclusive:
  assumes "effect pf P (ts ! i) S t' S'" and "i < length ts" and "exclusive (owned (ts, S)) (ba_live (svc_allocator S))"
    and "frame (owns (ts ! i)) (svc_allocator S) (svc_allocator S')" and "owns t' \<subseteq> ba_live (svc_allocator S')"
  shows "exclusive (owned (ts[i := t'], S')) (ba_live (svc_allocator S'))"
proof -
  let ?f = "owned (ts, S)" and ?g = "owned (ts[i := t'], S')" and ?L' = "ba_live (svc_allocator S')"
  have kept: "h \<in> ?L'" if "h \<in> ?f x" "x \<noteq> Worker i" for h x
    using that owned_outside [OF assms(3,2)] exclusiveD(1) [OF assms(3), of x] assms(4) by (auto simp: frame_def)
  have W: "?g (Worker i) = owns t'" "?f (Worker i) = owns (ts ! i)" using assms(2) by simp_all
  have O: "?g (Worker j) = ?f (Worker j)" if "j \<noteq> i" for j using that by simp
  from assms(1) show ?thesis
  proof cases
    case quiet
    have E: "?g (Entry k) = ?f (Entry k)" for k using quiet by simp
    have "?g x \<subseteq> ?f (id x)" "?g x \<subseteq> ?L'" for x
      using E O W quiet(2) assms(5) kept [of _ x] by (cases x; cases "x = Worker i"; auto)+
    then show ?thesis using exclusive_pass [OF assms(3) inj_on_id, of ?g ?L'] by blast
  next
    case (gain h)
    have "?g y = ?f y" if "y \<noteq> Worker i" for y using that O gain(1) by (cases y) auto
    then show ?thesis
      unfolding gain(5) using exclusive_gain [OF assms(3) gain(4), of "Worker i" ?g] W gain(2,3) by simp
  next
    case (put k e)
    let ?p = "id(Entry k := Worker i, Worker i := Entry k)"
    have E: "?g (Entry k') = (if k' = k then {entry_handle e} else ?f (Entry k'))" for k' using put(1) by simp
    have "?g x \<subseteq> ?f (?p x)" for x using E O W put(2,3) by (cases x; cases "x = Worker i"; cases "x = Entry k") auto
    moreover have "?g x \<subseteq> ?L'" for x
      using E O W put(2-4) kept [of _ x] exclusiveD(1) [OF assms(3), of "Worker i"]
      by (cases x; cases "x = Worker i"; cases "x = Entry k") auto
    ultimately show ?thesis by (rule exclusive_pass [OF assms(3) inj_swap])
  next
    case (drop k)
    have E: "?g (Entry k') = (if k' = k then {} else ?f (Entry k'))" for k' using drop(1) by simp
    have "?g x \<subseteq> ?f (id x)" "?g x \<subseteq> ?L'" for x
      using E O W drop(2) assms(5) kept [of _ x] by (cases x; cases "x = Worker i"; auto)+
    then show ?thesis using exclusive_pass [OF assms(3) inj_on_id, of ?g ?L'] by blast
  next
    case (take k e)
    let ?p = "id(Entry k := Worker i, Worker i := Entry k)"
    have E: "?g (Entry k') = (if k' = k then {} else ?f (Entry k'))" for k' using take(2) by simp
    have "?g x \<subseteq> ?f (?p x)" for x using E O W take(3,4) by (cases x; cases "x = Worker i"; cases "x = Entry k") auto
    moreover have "?g x \<subseteq> ?L'" for x
      using E O W assms(5) kept [of _ x] by (cases x; cases "x = Worker i"; cases "x = Entry k") auto
    ultimately show ?thesis by (rule exclusive_pass [OF assms(3) inj_swap])
  qed
qed

lemma good_step_inv:
  assumes "conc_inv pf P (ts, S)" and "i < length ts" and "good_step pf P (ts ! i) S t' S'"
  shows "conc_inv pf P (ts[i := t'], S')"
proof -
  note c = conc_invD [OF assms(1)]
  have g: "effect pf P (ts ! i) S t' S'" "frame (owns (ts ! i)) (svc_allocator S) (svc_allocator S')"
      "lru_inv (svc_lru S')" "thread_ok pf P (svc_allocator S') t'" "owns t' \<subseteq> ba_live (svc_allocator S')"
    using assms(3) by (simp_all add: good_step_def)
  have geo: "geometry (svc_allocator S') = geometry (svc_allocator S)" and st: "store_inv (svc_allocator S')"
    using g(2) by (simp_all add: frame_def)
  have "thread_ok pf P (svc_allocator S') (ts ! j)" if "j < length ts" "j \<noteq> i" for j
  proof (rule frame_thread [OF g(2) c(2) [OF that(1)] c(4) [OF that(1)]])
    show "owns (ts ! j) \<inter> owns (ts ! i) = {}"
      using owned_outside [OF c(3) assms(2), of "Worker j"] that by auto
  qed
  then have "list_all (thread_ok pf P (svc_allocator S')) (ts[i := t'])"
    using g(4) assms(2) by (simp add: list_all_length nth_list_update)
  moreover have "map_ok pf P S'"
    unfolding map_ok_def
  proof (intro allI impI)
    fix k e
    assume e: "fmlookup (svc_map S') k = Some e"
    show "entry_ok pf (svc_allocator S') e \<and> P k (snd (entry_value pf (svc_allocator S') e))"
      using effect_lookup [OF g(1) e]
    proof
      assume old: "fmlookup (svc_map S) k = Some e"
      then have "entry_ok pf (svc_allocator S) e" "P k (snd (entry_value pf (svc_allocator S) e))"
        using c(1) by (auto simp: shared_ok_def map_ok_def)
      moreover have "entry_handle e \<notin> owns (ts ! i)"
        using owned_outside [OF c(3) assms(2), of "Entry k"] old by simp
      ultimately show ?thesis using frame_entry [OF g(2), of pf e] by simp
    qed
  qed
  ultimately show ?thesis
    using st g(3) handles_fit_geometry [OF geo] c(1) effect_exclusive [OF g(1) assms(2) c(3) g(2,5)]
    by (simp add: conc_inv_def shared_ok_def)
qed

lemma conc_step:
  assumes "conc_inv pf P (ts, S)" and "i < length ts"
  shows "\<exists>t' S'. tstep pf n (ts ! i) S = Inr (t', S') \<and> good_step pf P (ts ! i) S t' S' \<and> conc_inv pf P (ts[i := t'], S')"
  using tstep_good [OF conc_invD(1) [OF assms(1)] conc_invD(2) [OF assms] conc_invD(4) [OF assms], of n]
    good_step_inv [OF assms] by blast

lemma conc_inv_step:
  assumes "par_step pf shard c c'" and "conc_inv pf P c"
  shows "conc_inv pf P c'"
  using assms
proof (induction rule: par_step.induct)
  case (par_step i ts len S t S')
  then show ?case using conc_step [OF par_step.prems par_step.hyps(1), of len] by auto
qed

lemma conc_inv_steps: "(par_step pf shard)\<^sup>*\<^sup>* c c' \<Longrightarrow> conc_inv pf P c \<Longrightarrow> conc_inv pf P c'"
  by (induction rule: rtranclp_induct) (auto intro: conc_inv_step)

section \<open>Starting a set of requests\<close>

definition stored_by :: "platform \<Rightarrow> cache_service \<Rightarrow> request list \<Rightarrow> hash16 \<Rightarrow> bytes \<Rightarrow> bool" where
  "stored_by pf S rs k d \<longleftrightarrow>
     (\<exists>g. map_of (kv_entries (kv_of pf S)) k = Some (g, d)) \<or>
     (\<exists>now stream. DoStore now stream \<in> set rs \<and> store_args pf stream = Inr (Inr (k, d)))"

text \<open>No store announces \<open>2 ^ 63\<close> bytes or more.\<close>

definition sane_sizes :: "platform \<Rightarrow> request list \<Rightarrow> bool" where
  "sane_sizes pf rs \<longleftrightarrow> (\<forall>now stream. DoStore now stream \<in> set rs \<longrightarrow> (\<exists>a. store_args pf stream = Inr a))"

lemma requests_ok:
  assumes "sane_sizes pf rs" and "r \<in> set rs"
  shows "request_ok pf (stored_by pf S rs) r"
proof (cases r)
  case (DoStore now stream)
  then obtain a where "store_args pf stream = Inr a" using assms by (auto simp: sane_sizes_def)
  then show ?thesis
    using assms(2) DoStore by (cases a) (auto simp: request_ok_def stored_by_def)
qed (simp_all add: request_ok_def)

lemma map_entries:
  assumes "svc_inv pf S" and "fmlookup (svc_map S) k = Some e"
  shows "(k, e) \<in> set (index_view (svc_index S))" and "entry_ok pf (svc_allocator S) e"
    and "map_of (kv_entries (kv_of pf S)) k = Some (entry_value pf (svc_allocator S) e)"
proof -
  have m: "map_of (index_view (svc_index S)) k = Some e"
    using map_of_view [OF svc_invD(3) [OF assms(1)]] assms(2) by (simp add: svc_map_def)
  then show v: "(k, e) \<in> set (index_view (svc_index S))" by (rule map_of_SomeD)
  show "entry_ok pf (svc_allocator S) e" using svc_invD(4) [OF assms(1) v] by simp
  show "map_of (kv_entries (kv_of pf S)) k = Some (entry_value pf (svc_allocator S) e)"
    using m by (simp add: kv_of_def map_of_apsnd)
qed

lemma map_entries_distinct:
  assumes "svc_inv pf S" and "fmlookup (svc_map S) k = Some e" and "fmlookup (svc_map S) k' = Some e'"
    and "entry_handle e = entry_handle e'"
  shows "k = k'"
proof -
  have "inj_on (\<lambda>x. entry_handle (snd x)) (set (index_view (svc_index S)))"
    using svc_invD(5) [OF assms(1)] by (simp add: distinct_map)
  from inj_onD [OF this _ map_entries(1) [OF assms(1,2)] map_entries(1) [OF assms(1,3)]] assms(4) show ?thesis by simp
qed

lemma start_inv:
  assumes "svc_inv pf S" and "sane_sizes pf rs"
  shows "conc_inv pf (stored_by pf S rs) (map Begin rs, S)"
proof -
  let ?P = "stored_by pf S rs"
  have "map_ok pf ?P S"
    unfolding map_ok_def
  proof (intro allI impI)
    fix k e
    assume e: "fmlookup (svc_map S) k = Some e"
    obtain g d where v: "entry_value pf (svc_allocator S) e = (g, d)" by force
    then have "?P k d" using map_entries(3) [OF assms(1) e] by (auto simp: stored_by_def)
    then show "entry_ok pf (svc_allocator S) e \<and> ?P k (snd (entry_value pf (svc_allocator S) e))"
      using map_entries(2) [OF assms(1) e] v by simp
  qed
  moreover have W: "owned (map Begin rs, S) (Worker i) = {}" for i by simp
  have "exclusive (owned (map Begin rs, S)) (ba_live (svc_allocator S))"
    unfolding exclusive_def
  proof (intro conjI allI impI)
    fix x y :: owner
    show "owned (map Begin rs, S) x \<subseteq> ba_live (svc_allocator S)"
      using map_entries(2) [OF assms(1)] by (cases x) (auto simp: entry_ok_def split: option.splits)
    show "owned (map Begin rs, S) x \<inter> owned (map Begin rs, S) y = {}" if "x \<noteq> y"
      using that map_entries_distinct [OF assms(1)] by (cases x; cases y) (auto split: option.splits)
  qed
  moreover have "list_all (thread_ok pf ?P (svc_allocator S)) (map Begin rs)"
    using requests_ok [OF assms(2)] by (simp add: list_all_iff)
  ultimately show ?thesis
    using svc_invD [OF assms(1)] by (simp add: conc_inv_def index_inv_def svc_lru_def)
qed

end
