(* ===== verification/ThreadProps.thy ===== *)
theory ThreadProps
  imports ThreadSafety
begin

text \<open>
  Consequences for concurrent requests. \<open>get_ok\<close> follows the streaming task of a \<open>get\<close>: as long as nobody
  deletes, the block it has been promised stays in use and belongs to no thread, so no store writes to it
  while the task reads. \<open>weight\<close> is a bound for the remaining steps of a thread, given the length of the LRU
  list: an iteration of the eviction loop shortens the list, and only a bounded number of touches can lengthen it.
\<close>

section \<open>Reading without deletes\<close>

fun no_delete :: "thread \<Rightarrow> bool" where
  "no_delete (Begin (DoDelete req)) \<longleftrightarrow> False"
| "no_delete (MapRemove k) \<longleftrightarrow> False"
| "no_delete (LruRemove k e) \<longleftrightarrow> False"
| "no_delete (PoolDeallocate locs freed) \<longleftrightarrow> False"
| "no_delete t \<longleftrightarrow> True"

text \<open>The block a \<open>get\<close> has been promised, the block a thread reads next, and the block it writes next.\<close>

fun promised :: "thread \<Rightarrow> block_handle set" where
  "promised (LruTouch (ForGet n) k e) = {entry_handle e}"
| "promised (FindHit (ForGet n) e) = {entry_handle e}"
| "promised (StreamHeader e n) = {entry_handle e}"
| "promised (ReadHeader (loc # locs) n ms) = {block_handle_of loc}"
| "promised (VerifyData loc hdr locs n ms) = {block_handle_of loc}"
| "promised (CopyData loc hdr locs n ms) = {block_handle_of loc}"
| "promised t = {}"

fun reading :: "thread \<Rightarrow> block_handle set" where
  "reading (ReadHeader (loc # locs) n ms) = {block_handle_of loc}"
| "reading (VerifyData loc hdr locs n ms) = {block_handle_of loc}"
| "reading (CopyData loc hdr locs n ms) = {block_handle_of loc}"
| "reading t = {}"

fun writing :: "thread \<Rightarrow> block_handle set" where
  "writing (WriteHeader j h g) = {h}"
| "writing (WriteData j h g) = {h}"
| "writing t = {}"

definition stream_of :: "block_allocator \<Rightarrow> u64 \<Rightarrow> bytes \<Rightarrow> (status + get_payload) list" where
  "stream_of A g d =
     [Inr (GetHead \<lparr>gh_total_size = of_nat (mp_block_size (ba_pool A)), gh_num_blocks = 1, gh_generation_id = g\<rparr>),
      Inr (GetData d)]"

definition entry_get :: "platform \<Rightarrow> (bytes \<Rightarrow> bool) \<Rightarrow> block_allocator \<Rightarrow> index_entry \<Rightarrow> bool" where
  "entry_get pf Q A e \<longleftrightarrow> (\<exists>d. Q d \<and> read_verified pf A (entry_handle e) = Inr (Some d))"

definition block_get ::
    "platform \<Rightarrow> (bytes \<Rightarrow> bool) \<Rightarrow> block_allocator \<Rightarrow> block_location \<Rightarrow> (status + get_payload) list \<Rightarrow> bytes \<Rightarrow> bool" where
  "block_get pf Q A loc ms d \<longleftrightarrow>
     Q d \<and> (\<exists>g. ms = take 1 (stream_of A g d)) \<and> read_verified pf A (block_handle_of loc) = Inr (Some d)"

text \<open>\<open>Q\<close> is what the reply may contain, \<open>m\<close> the number of messages the client takes.\<close>

fun get_ok ::
    "platform \<Rightarrow> (hash16 \<Rightarrow> bytes \<Rightarrow> bool) \<Rightarrow> nat \<Rightarrow> (bytes \<Rightarrow> bool) \<Rightarrow> block_allocator \<Rightarrow> thread \<Rightarrow> bool" where
  "get_ok pf P m Q A (Begin r) \<longleftrightarrow>
     (\<forall>req n. r = DoGet req n \<longrightarrow> n = m \<and> (\<forall>d. P (composite_key pf (gq_model_id req) (gq_prefix_hash req)) d \<longrightarrow> Q d))"
| "get_ok pf P m Q A (MapGet f k) \<longleftrightarrow> (\<forall>n. f = ForGet n \<longrightarrow> n = m \<and> (\<forall>d. P k d \<longrightarrow> Q d))"
| "get_ok pf P m Q A (LruTouch f k e) \<longleftrightarrow> (\<forall>n. f = ForGet n \<longrightarrow> n = m \<and> entry_get pf Q A e)"
| "get_ok pf P m Q A (FindHit f e) \<longleftrightarrow> (\<forall>n. f = ForGet n \<longrightarrow> n = m \<and> entry_get pf Q A e)"
| "get_ok pf P m Q A (StreamHeader e n) \<longleftrightarrow> n = m \<and> entry_get pf Q A e"
| "get_ok pf P m Q A (ReadHeader [] n ms) \<longleftrightarrow> m = Suc (Suc n) \<and> (\<exists>g d. Q d \<and> ms = stream_of A g d)"
| "get_ok pf P m Q A (ReadHeader (loc # locs) n ms) \<longleftrightarrow> m = Suc n \<and> locs = [] \<and> (\<exists>d. block_get pf Q A loc ms d)"
| "get_ok pf P m Q A (VerifyData loc hdr locs n ms) \<longleftrightarrow>
     m = Suc n \<and> locs = [] \<and> (\<exists>d. block_get pf Q A loc ms d) \<and>
     (\<exists>bs. get_slice (ba_pool A) (block_handle_of loc) = Inr bs \<and> read_from bs = Some hdr)"
| "get_ok pf P m Q A (CopyData loc hdr locs n ms) \<longleftrightarrow>
     m = Suc n \<and> locs = [] \<and> (\<exists>d. block_get pf Q A loc ms d) \<and>
     (\<exists>bs. get_slice (ba_pool A) (block_handle_of loc) = Inr bs \<and> read_from bs = Some hdr)"
| "get_ok pf P m Q A (Finished r) \<longleftrightarrow> (\<forall>ms. r = GetReply ms \<longrightarrow> (\<exists>g d. Q d \<and> ms = take m (stream_of A g d)))"
| "get_ok pf P m Q A t \<longleftrightarrow> True"

definition read_inv ::
    "platform \<Rightarrow> (hash16 \<Rightarrow> bytes \<Rightarrow> bool) \<Rightarrow> (nat \<Rightarrow> nat) \<Rightarrow> (nat \<Rightarrow> bytes \<Rightarrow> bool) \<Rightarrow> config \<Rightarrow> bool" where
  "read_inv pf P m Q c =
     (case c of (ts, S) \<Rightarrow>
        conc_inv pf P c \<and>
        (\<forall>i < length ts. no_delete (ts ! i) \<and> get_ok pf P (m i) (Q i) (svc_allocator S) (ts ! i) \<and>
           promised (ts ! i) \<subseteq> ba_live (svc_allocator S) \<and>
           (\<forall>j < length ts. promised (ts ! i) \<inter> owns (ts ! j) = {})))"

lemma reading_promised: "reading t \<subseteq> promised t"
  by (cases t rule: reading.cases) auto

lemma writing_owns: "writing t \<subseteq> owns t"
  by (cases t) auto

lemma stream_of_geometry: "geometry A' = geometry A \<Longrightarrow> stream_of A' = stream_of A"
  by (simp add: geometry_def stream_of_def fun_eq_iff)

lemma get_ok_frame:
  assumes "frame B A A'" and "get_ok pf P m Q A t" and "promised t \<subseteq> ba_live A" and "promised t \<inter> B = {}"
  shows "get_ok pf P m Q A' t"
proof -
  have s: "stream_of A' = stream_of A" by (rule stream_of_geometry) (use assms(1) in \<open>simp add: frame_def\<close>)
  have g: "\<forall>h \<in> promised t. get_slice (ba_pool A') h = get_slice (ba_pool A) h"
    using assms by (auto simp: frame_def)
  then have r: "\<forall>h \<in> promised t. read_verified pf A' h = read_verified pf A h"
    using read_verified_cong by blast
  show ?thesis
    using assms(2) g r by (cases t rule: promised.cases) (simp_all add: s entry_get_def block_get_def [abs_def])
qed

lemma read_verifiedD:
  assumes "read_verified pf A h = Inr (Some d)" and "get_slice (ba_pool A) h = Inr bs"
  obtains hdr where "read_from bs = Some hdr" and "HEADER_SIZE + unat (hdr_data_size hdr) \<le> length bs"
    and "header_verify pf hdr d" and "d = seg HEADER_SIZE (unat (hdr_data_size hdr)) bs"
  using assms that by (auto simp: read_verified_def Let_def split: option.splits if_splits)

lemma located_stream:
  "located A loc \<Longrightarrow> loc_block_size loc = of_nat (mp_block_size (ba_pool A))"
  by (auto simp: located_def location_of_def)

lemma stream_header_step:
  assumes "entry_located A e" and "tstep pf len (StreamHeader e n) S = Inr (t', S')"
  shows "S' = S" and "\<exists>loc g. ie_blocks e = [loc] \<and> entry_handle e = block_handle_of loc \<and>
      t' = (case n of 0 \<Rightarrow> Finished (GetReply []) | Suc n' \<Rightarrow> ReadHeader [loc] n' (take 1 (stream_of A g d)))"
proof -
  obtain loc where loc: "ie_blocks e = [loc]" "loc_block_size loc = of_nat (mp_block_size (ba_pool A))"
    using assms(1) located_stream by (auto simp: entry_located_def)
  have "unat (loc_block_size loc) < 2 ^ 64" using unsigned_less [of "loc_block_size loc", where ?'a = nat] by simp
  then have "S' = S \<and> t' = (case n of 0 \<Rightarrow> Finished (GetReply [])
      | Suc n' \<Rightarrow> ReadHeader [loc] n' (take 1 (stream_of A (loc_generation loc) d)))"
    using assms(2) loc by (auto simp: Let_def stream_of_def split: nat.split)
  then show "S' = S" "\<exists>loc g. ie_blocks e = [loc] \<and> entry_handle e = block_handle_of loc \<and>
      t' = (case n of 0 \<Rightarrow> Finished (GetReply []) | Suc n' \<Rightarrow> ReadHeader [loc] n' (take 1 (stream_of A g d)))"
    using loc(1) by (auto simp: entry_handle_def)
qed

lemma read_points_step:
  assumes "block_get pf Q (svc_allocator S) loc ms d"
  shows "tstep pf len (ReadHeader [loc] n ms) S = Inr (t', S') \<Longrightarrow>
      S' = S \<and> (\<exists>hdr bs. t' = VerifyData loc hdr [] n ms \<and> get_slice (ba_pool (svc_allocator S)) (block_handle_of loc) = Inr bs \<and>
        read_from bs = Some hdr)"
    and "get_slice (ba_pool (svc_allocator S)) (block_handle_of loc) = Inr bs \<Longrightarrow> read_from bs = Some hdr \<Longrightarrow>
      tstep pf len (VerifyData loc hdr [] n ms) S = Inr (CopyData loc hdr [] n ms, S)"
    and "get_slice (ba_pool (svc_allocator S)) (block_handle_of loc) = Inr bs \<Longrightarrow> read_from bs = Some hdr \<Longrightarrow>
      tstep pf len (CopyData loc hdr [] n ms) S =
        Inr (case n of 0 \<Rightarrow> Finished (GetReply ms) | Suc n' \<Rightarrow> ReadHeader [] n' (ms @ [Inr (GetData d)]), S)"
proof -
  have rd: "read_verified pf (svc_allocator S) (block_handle_of loc) = Inr (Some d)"
    using assms by (simp add: block_get_def)
  show "S' = S \<and> (\<exists>hdr bs. t' = VerifyData loc hdr [] n ms \<and>
        get_slice (ba_pool (svc_allocator S)) (block_handle_of loc) = Inr bs \<and> read_from bs = Some hdr)"
    if "tstep pf len (ReadHeader [loc] n ms) S = Inr (t', S')"
  proof -
    from that obtain bs where bs: "get_slice (ba_pool (svc_allocator S)) (block_handle_of loc) = Inr bs"
      by (auto simp: svc_pool_def)
    show ?thesis
      by (rule read_verifiedD [OF rd bs]) (use bs that in \<open>auto simp: svc_pool_def\<close>)
  qed
  show "tstep pf len (VerifyData loc hdr [] n ms) S = Inr (CopyData loc hdr [] n ms, S)"
    if bs: "get_slice (ba_pool (svc_allocator S)) (block_handle_of loc) = Inr bs" "read_from bs = Some hdr"
    by (rule read_verifiedD [OF rd bs(1)]) (use bs in \<open>auto simp: svc_pool_def\<close>)
  show "tstep pf len (CopyData loc hdr [] n ms) S =
        Inr (case n of 0 \<Rightarrow> Finished (GetReply ms) | Suc n' \<Rightarrow> ReadHeader [] n' (ms @ [Inr (GetData d)]), S)"
    if bs: "get_slice (ba_pool (svc_allocator S)) (block_handle_of loc) = Inr bs" "read_from bs = Some hdr"
    by (rule read_verifiedD [OF rd bs(1)]) (use bs in \<open>auto simp: svc_pool_def split: nat.split\<close>)
qed

lemma stream_of_append: "take 1 (stream_of A g d) @ [Inr (GetData d)] = stream_of A g d"
  "take (Suc (Suc n)) (stream_of A g d) = stream_of A g d"
  by (simp_all add: stream_of_def)

lemma begin_find_get:
  "get_ok pf P m Q A (begin_find f pf model h) \<longleftrightarrow>
     (\<forall>n. f = ForGet n \<longrightarrow> length h = 16 \<longrightarrow> n = m \<and> (\<forall>d. P (composite_key pf model h) d \<longrightarrow> Q d))"
  "no_delete (begin_find f pf model h)" "promised (begin_find f pf model h) = {}"
  by (simp_all add: begin_find_def parse_prefix_hash_def)

lemma begin_store_get:
  "begin_store pf now stream S = Inr t \<Longrightarrow> get_ok pf P m Q A t \<and> no_delete t \<and> promised t = {}"
  by (auto simp: begin_store_def Let_def split: if_splits sum.splits)

lemma begin_get:
  assumes "get_ok pf P m Q A (Begin r)" and "no_delete (Begin r)" and "begin_request pf r S = Inr (t', S')"
  shows "get_ok pf P m Q A' t' \<and> no_delete t' \<and> promised t' = {}"
  using assms begin_store_get by (cases r) (fastforce simp: begin_find_get Let_def)+

text \<open>A step of the thread itself.\<close>

lemma get_step:
  assumes "shared_ok pf P S" and "thread_ok pf P (svc_allocator S) t" and "get_ok pf P m Q (svc_allocator S) t"
    and "no_delete t" and "tstep pf len t S = Inr (t', S')"
  shows "get_ok pf P m Q (svc_allocator S') t' \<and> no_delete t' \<and>
    (\<forall>h \<in> promised t'. h \<in> promised t \<or> (\<exists>k. h \<in> owned (ts, S) (Entry k)))"
proof (cases t)
  case (Begin r)
  then show ?thesis using begin_get [of pf P m Q "svc_allocator S" r S t' S'] assms by simp
next
  case (BatchNext model hs fs bs)
  then show ?thesis using assms(5) by (cases hs) (auto simp: begin_find_get)
next
  case (MapGet f k)
  have "entry_get pf Q (svc_allocator S) e" if "fmlookup (svc_map S) k = Some e" "f = ForGet n" for e n
  proof -
    have e: "entry_ok pf (svc_allocator S) e" "P k (snd (entry_value pf (svc_allocator S) e))"
      using assms(1) that(1) by (auto simp: shared_ok_def map_ok_def)
    obtain g d where "read_verified pf (svc_allocator S) (entry_handle e) = Inr (Some d)"
        "entry_value pf (svc_allocator S) e = (g, d)" using entry_okD [OF e(1)] by metis
    then show ?thesis using e(2) assms(3) MapGet that(2) by (auto simp: entry_get_def)
  qed
  then show ?thesis
    using MapGet assms(3,5) by (cases f) (auto split: option.splits intro!: exI [of _ k])
next
  case (FindHit f e)
  then show ?thesis using assms(3,5) by (cases f) auto
next
  case (LruTouch f k e)
  then show ?thesis using assms(3,5) by (cases f) auto
next
  case (FindMiss f k)
  then show ?thesis using assms(5) by (cases f) (auto split: option.splits list.splits)
next
  case (StreamHeader e n)
  obtain d where d: "Q d" "read_verified pf (svc_allocator S) (entry_handle e) = Inr (Some d)"
    using assms(3) StreamHeader by (auto simp: entry_get_def)
  then show ?thesis
    using stream_header_step(1) [of "svc_allocator S" e pf len n S t' S']
      stream_header_step(2) [of "svc_allocator S" e pf len n S t' S' d] StreamHeader assms(2,3,5)
    by (cases n) (auto simp: block_get_def [abs_def] simp del: tstep.simps)
next
  case (ReadHeader locs n ms)
  show ?thesis
  proof (cases locs)
    case Nil
    then obtain g d where "Q d" "ms = stream_of (svc_allocator S) g d" "m = Suc (Suc n)"
      using ReadHeader assms(3) by auto
    then show ?thesis using ReadHeader Nil assms(5) by (auto simp: stream_of_append intro!: exI [of _ g] exI [of _ d])
  next
    case (Cons loc rest)
    then obtain d where "block_get pf Q (svc_allocator S) loc ms d" "rest = []" "m = Suc n"
      using ReadHeader assms(3) by auto
    then show ?thesis using read_points_step(1) [of pf Q S loc ms d len n t' S'] ReadHeader Cons assms(5) by auto
  qed
next
  case (VerifyData loc hdr locs n ms)
  then obtain d bs where "block_get pf Q (svc_allocator S) loc ms d" "locs = []" "m = Suc n"
      "get_slice (ba_pool (svc_allocator S)) (block_handle_of loc) = Inr bs" "read_from bs = Some hdr"
    using assms(3) by auto
  then show ?thesis using read_points_step(2) [of pf Q S loc ms d bs hdr len n] VerifyData assms(5) by auto
next
  case (CopyData loc hdr locs n ms)
  then obtain d bs where bg: "block_get pf Q (svc_allocator S) loc ms d" and cp: "locs = []" "m = Suc n"
      "get_slice (ba_pool (svc_allocator S)) (block_handle_of loc) = Inr bs" "read_from bs = Some hdr"
    using assms(3) by auto
  obtain g where "Q d" "ms = take 1 (stream_of (svc_allocator S) g d)" using bg by (auto simp: block_get_def)
  then show ?thesis
    using read_points_step(3) [OF bg cp(3,4), of len n] CopyData assms(5) cp stream_of_append(1) [of "svc_allocator S" g d]
    by (cases n) (auto simp del: tstep.simps intro!: exI [of _ g] exI [of _ d])
next
  case (LoadCounters ps cs)
  then show ?thesis using assms(5) by (cases cs; cases "tl cs") auto
next
  case (Finished r)
  then show ?thesis using assms(3,5) by auto
qed (use assms(4,5) in \<open>auto simp: Let_def simp del: owned.simps split: if_splits option.splits\<close>)

text \<open>A block that is in use and owned by no thread.\<close>

definition settled :: "config \<Rightarrow> block_handle \<Rightarrow> bool" where
  "settled c h = (case c of (ts, S) \<Rightarrow> h \<in> ba_live (svc_allocator S) \<and> (\<forall>j < length ts. h \<notin> owns (ts ! j)))"

lemma read_inv_iff:
  "read_inv pf P m Q (ts, S) \<longleftrightarrow>
     conc_inv pf P (ts, S) \<and>
     (\<forall>i < length ts. no_delete (ts ! i) \<and> get_ok pf P (m i) (Q i) (svc_allocator S) (ts ! i) \<and>
        (\<forall>h \<in> promised (ts ! i). settled (ts, S) h))"
  unfolding read_inv_def settled_def by fastforce

lemma entry_settled:
  assumes "conc_inv pf P (ts, S)" and "h \<in> owned (ts, S) (Entry k)"
  shows "settled (ts, S) h"
proof -
  note ex = conc_invD(3) [OF assms(1)]
  have "h \<notin> owns (ts ! j)" if "j < length ts" for j
    using owned_outside [OF ex that _ assms(2)] by simp
  moreover have "h \<in> ba_live (svc_allocator S)" using exclusiveD(1) [OF ex] assms(2) by blast
  ultimately show ?thesis by (simp add: settled_def)
qed

lemma owns_next:
  assumes "effect pf P t S t' S'" and "no_delete t"
  shows "owns t' \<subseteq> owns t \<union> - ba_live (svc_allocator S)"
  using assms by cases auto

lemma settled_step:
  assumes "settled (ts, S) h" and "good_step pf P (ts ! i) S t' S'" and "no_delete (ts ! i)" and "i < length ts"
  shows "settled (ts[i := t'], S') h"
proof -
  have h: "h \<in> ba_live (svc_allocator S)" "\<And>j. j < length ts \<Longrightarrow> h \<notin> owns (ts ! j)"
    using assms(1) by (auto simp: settled_def)
  have e: "effect pf P (ts ! i) S t' S'" "frame (owns (ts ! i)) (svc_allocator S) (svc_allocator S')"
    using assms(2) by (simp_all add: good_step_def)
  have "h \<in> ba_live (svc_allocator S')" using e(2) h assms(4) by (simp add: frame_def)
  moreover have "h \<notin> owns t'" using owns_next [OF e(1) assms(3)] h assms(4) by blast
  ultimately show ?thesis using h(2) assms(4) by (simp add: settled_def nth_list_update)
qed

lemma read_inv_step:
  assumes "par_step pf shard c c'" and "read_inv pf P m Q c"
  shows "read_inv pf P m Q c'"
  using assms
proof (induction rule: par_step.induct)
  case (par_step i ts len S t' S')
  note inv = par_step.prems [unfolded read_inv_iff]
  then have ci: "conc_inv pf P (ts, S)" by blast
  have i: "no_delete (ts ! i)" "get_ok pf P (m i) (Q i) (svc_allocator S) (ts ! i)" "\<forall>h \<in> promised (ts ! i). settled (ts, S) h"
    using inv par_step.hyps(1) by auto
  have g: "good_step pf P (ts ! i) S t' S'" and ci': "conc_inv pf P (ts[i := t'], S')"
    using conc_step [OF ci par_step.hyps(1), of len] par_step.hyps(4) by auto
  have keep: "settled (ts[i := t'], S') h" if "settled (ts, S) h" for h
    using settled_step [OF that g i(1) par_step.hyps(1)] .
  note own = get_step [OF conc_invD(1) [OF ci] conc_invD(2) [OF ci par_step.hyps(1)] i(2,1) par_step.hyps(4), of ts]
  have "settled (ts[i := t'], S') h" if "h \<in> promised t'" for h
    using own that i(3) keep entry_settled [OF ci] by blast
  moreover have "get_ok pf P (m j) (Q j) (svc_allocator S') (ts ! j)" if "j < length ts" "j \<noteq> i" for j
  proof (rule get_ok_frame)
    show "frame (owns (ts ! i)) (svc_allocator S) (svc_allocator S')" using g by (simp add: good_step_def)
    show "get_ok pf P (m j) (Q j) (svc_allocator S) (ts ! j)" using inv that(1) by blast
    have "settled (ts, S) h" if "h \<in> promised (ts ! j)" for h using inv that \<open>j < length ts\<close> by blast
    then show "promised (ts ! j) \<subseteq> ba_live (svc_allocator S)" "promised (ts ! j) \<inter> owns (ts ! i) = {}"
      using par_step.hyps(1) by (auto simp: settled_def)
  qed
  ultimately show ?case
    using inv ci' own keep par_step.hyps(1) by (simp add: read_inv_iff nth_list_update del: owned.simps)
qed

lemma read_inv_steps: "(par_step pf shard)\<^sup>*\<^sup>* c c' \<Longrightarrow> read_inv pf P m Q c \<Longrightarrow> read_inv pf P m Q c'"
  by (induction rule: rtranclp_induct) (auto intro: read_inv_step)

section \<open>Every schedule ends\<close>

fun rest_weight :: "finder \<Rightarrow> nat" where
  "rest_weight ForLookup = 0"
| "rest_weight (ForGet n) = 5"
| "rest_weight (ForBatch m hs fs bs) = 1 + 7 * length hs"

fun request_weight :: "request \<Rightarrow> nat" where
  "request_weight (DoLookup req) = 7"
| "request_weight (DoBatch req) = 2 + 7 * length (bq_prefix_hashes req)"
| "request_weight (DoStore now stream) = 14"
| "request_weight (DoGet req n) = 12"
| "request_weight (DoDelete req) = 5"
| "request_weight DoStats = 4"
| "request_weight (DoHealth now) = 1"
| "request_weight Tick = 2"
| "request_weight (WatchUpdate R) = 1"

fun weight :: "thread \<Rightarrow> nat" where
  "weight (Begin r) = request_weight r"
| "weight (BatchNext m hs fs bs) = 1 + 7 * length hs"
| "weight (MapGet f k) = 6 + rest_weight f"
| "weight (LruTouch f k e) = 5 + rest_weight f"
| "weight (FindHit f e) = 1 + rest_weight f"
| "weight (FindMiss f k) = 3 + rest_weight f"
| "weight (RemoteHit b) = 1"
| "weight RemoteMiss = 1"
| "weight (PoolAllocate j) = 13"
| "weight (FetchGeneration j h) = 12"
| "weight (WriteHeader j h g) = 11"
| "weight (WriteData j h g) = 10"
| "weight (ContainsKey j loc) = 9"
| "weight (MapLen j loc ev) = 8"
| "weight (EvictLru j loc ev) = 7"
| "weight (MapRemoveVictim j loc ev v) = 9"
| "weight (MapInsert j loc ev) = 6"
| "weight (LruTouchNew j loc ev) = 5"
| "weight (AddEvictions j loc ev) = 1"
| "weight (MapRemove k) = 4"
| "weight (LruRemove k e) = 2 + length (ie_blocks e)"
| "weight (PoolDeallocate locs freed) = 1 + length locs"
| "weight (StreamHeader e n) = 2 + 3 * length (ie_blocks e)"
| "weight (ReadHeader locs n ms) = 1 + 3 * length locs"
| "weight (VerifyData loc hdr locs n ms) = 3 + 3 * length locs"
| "weight (CopyData loc hdr locs n ms) = 2 + 3 * length locs"
| "weight (LoadCounters ps cs) = 1 + (2 - length cs)"
| "weight (StoreLevel l) = 1"
| "weight (Finished r) = 0"

definition effort :: "config \<Rightarrow> nat" where
  "effort c = (case c of (ts, S) \<Rightarrow> sum_list (map weight ts) + 3 * length (lru_order (svc_lru S)))"

abbreviation lru_size :: "cache_service \<Rightarrow> nat" where
  "lru_size S \<equiv> length (lru_order (svc_lru S))"

lemma begin_find_weight: "weight (begin_find f pf m h) \<le> 6 + rest_weight f"
  by (simp add: begin_find_def split: sum.split)

lemma begin_weight:
  assumes "begin_request pf r S = Inr (t', S')"
  shows "weight t' < request_weight r" and "svc_lru S' = svc_lru S"
proof -
  have "weight t < 14" if "begin_store pf now stream S = Inr t" for now stream t
    using that by (auto simp: begin_store_def Let_def split: if_splits sum.splits)
  then show "weight t' < request_weight r"
    using assms by (cases r) (auto simp: Let_def begin_find_def parse_prefix_hash_def)
  show "svc_lru S' = svc_lru S" using assms by (cases r) (auto simp: Let_def)
qed

lemma touch_size:
  assumes "lru_inv s" and "touch k s = Inr s'"
  shows "length (lru_order s') \<le> Suc (length (lru_order s))"
  using lru.tc_ok [OF assms(1), of k] assms(2) by (auto simp: length_remove1)

lemma remove_size:
  assumes "lru_inv s" and "lru_remove k s = Inr s'"
  shows "length (lru_order s') \<le> length (lru_order s)"
  using lru.rm_ok [OF assms(1), of k] assms(2) by (auto simp: length_remove1)

lemma evict_size:
  assumes "lru_inv s" and "evict_lru s = Inr (v, s')"
  shows "length (lru_order s) = length (lru_order s') + (case v of None \<Rightarrow> 0 | Some _ \<Rightarrow> 1)"
proof (cases "lru_order s" rule: rev_cases)
  case Nil
  then show ?thesis using lru.ev_None [OF assms(1)] assms(2) by simp
next
  case (snoc ks k)
  then show ?thesis using lru.ev_Some [OF assms(1) snoc] assms(2) by auto
qed

lemma found_weight: "entry_located A e \<Longrightarrow> weight (found_next f e S) \<le> rest_weight f"
  by (cases f) (auto simp: entry_located_def)

lemma tstep_weight:
  assumes "shared_ok pf P S" and "thread_ok pf P (svc_allocator S) t" and "\<not> finished t" and "tstep pf len t S = Inr (t', S')"
  shows "weight t' + 3 * lru_size S' < weight t + 3 * lru_size S"
proof -
  have l: "lru_inv (svc_lru S)" using assms(1) by (simp add: shared_ok_def)
  show ?thesis
  proof (cases t)
    case (Begin r)
    then show ?thesis using begin_weight [of pf r S t' S'] assms(4) by simp
  next
    case (BatchNext m hs fs bs)
    then show ?thesis
      using assms(4) begin_find_weight [of "ForBatch m (tl hs) fs bs" pf m "hd hs"] by (cases hs) auto
  next
    case (FindHit f e)
    then show ?thesis using assms(2,4) found_weight [of "svc_allocator S" e f S] by auto
  next
    case (LruTouch f k e)
    then show ?thesis using assms(4) touch_size [OF l, of k] by fastforce
  next
    case (FindMiss f k)
    then show ?thesis using assms(4) by (cases f) (auto split: option.splits list.splits)
  next
    case (EvictLru j loc ev)
    then show ?thesis using assms(4) evict_size [OF l] by (auto split: option.splits)
  next
    case (LruTouchNew j loc ev)
    then show ?thesis using assms(4) touch_size [OF l, of "sj_key j"] by fastforce
  next
    case (LruRemove k e)
    then show ?thesis using assms(4) remove_size [OF l, of k] by fastforce
  next
    case (MapRemove k)
    then show ?thesis
      using assms(4) map_entry_located [OF assms(1), of k] by (auto simp: entry_located_def split: option.splits)
  next
    case (PoolDeallocate locs freed)
    then show ?thesis using assms(4) by (cases locs) auto
  next
    case (ReadHeader locs n ms)
    then show ?thesis using assms(4) by (cases locs) (auto simp: data_loss_def split: option.splits)
  next
    case (LoadCounters ps cs)
    then show ?thesis using assms(4) by (cases cs; cases "tl cs") auto
  next
    case (StreamHeader e n)
    then show ?thesis using assms(4) by (cases n) (auto simp: Let_def)
  next
    case (CopyData loc hdr locs n ms)
    then show ?thesis using assms(4) by (cases n) auto
  qed (use assms(3,4) in \<open>auto simp: Let_def data_loss_def split: if_splits option.splits\<close>)
qed

lemma effort_step:
  assumes "par_step pf shard c c'" and "conc_inv pf P c"
  shows "effort c' < effort c"
  using assms
proof (induction rule: par_step.induct)
  case (par_step i ts len S t' S')
  note c = conc_invD [OF par_step.prems]
  have "weight t' + 3 * lru_size S' < weight (ts ! i) + 3 * lru_size S"
    using tstep_weight [OF c(1) c(2) [OF par_step.hyps(1)] par_step.hyps(2,4)] .
  moreover have "weight (ts ! i) \<le> sum_list (map weight ts)"
    using par_step.hyps(1) by (intro member_le_sum_list) auto
  ultimately show ?case
    using par_step.hyps(1) by (simp add: effort_def map_update sum_list_update)
qed

lemma effort_steps: "(par_step pf shard ^^ n) c c' \<Longrightarrow> conc_inv pf P c \<Longrightarrow> n + effort c' \<le> effort c"
proof (induction n arbitrary: c')
  case (Suc n)
  then obtain b where b: "(par_step pf shard ^^ n) c b" "par_step pf shard b c'" by auto
  have "conc_inv pf P b" using conc_inv_steps [OF relpowp_imp_rtranclp [OF b(1)] Suc.prems(2)] .
  then show ?case using effort_step [OF b(2)] Suc.IH [OF b(1) Suc.prems(2)] by fastforce
qed simp

text \<open>Somebody can always move: the holder of a guard waits for nobody.\<close>

lemma some_step:
  assumes "conc_inv pf P (ts, S)" and "t \<in> set ts" and "\<not> finished t"
  shows "\<exists>c. par_step pf shard (ts, S) c"
proof -
  have moves: "\<exists>c. par_step pf shard (ts, S) c" if "i < length ts" "\<not> finished (ts ! i)" "\<not> blocked shard ts (ts ! i)" for i
    using conc_step [OF assms(1) that(1), of 0] par_step.intros [OF that] by blast
  show ?thesis
  proof (cases "\<exists>i < length ts. guard_of (ts ! i) \<noteq> None")
    case True
    then obtain i where i: "i < length ts" "guard_of (ts ! i) \<noteq> None" by blast
    then have "\<not> finished (ts ! i)" "write_of (ts ! i) = None" by (cases "ts ! i"; simp)+
    then show ?thesis using moves [OF i(1)] by (simp add: blocked_def)
  next
    case False
    then have "\<not> blocked shard ts u" for u
      by (auto simp: blocked_def list_ex_iff in_set_conv_nth split: option.splits)
    moreover obtain i where "i < length ts" "ts ! i = t" using assms(2) by (auto simp: in_set_conv_nth)
    ultimately show ?thesis using moves [of i] assms(3) by simp
  qed
qed

end
