(* ===== verification/ThreadEquiv.thy ===== *)
theory ThreadEquiv
  imports ServiceThreads
begin

text \<open>
  A handler that nobody overtakes computes what the definition of the same name in \<open>CacheService\<close>
  computes. This ties the step-by-step model of \<open>ServiceThreads\<close> to the atomic handlers: \<open>ends\<close> says
  that a thread left alone ends with a given outcome, reply and state, or panic.
\<close>

section \<open>Running alone\<close>

fun solo :: "platform \<Rightarrow> nat \<Rightarrow> thread \<times> cache_service \<Rightarrow> (thread \<times> cache_service) res" where
  "solo pf 0 c = Inr c"
| "solo pf (Suc n) (t, S) = rbind (tstep pf (hm_len (svc_map S)) t S) (solo pf n)"

definition ends :: "platform \<Rightarrow> thread \<Rightarrow> cache_service \<Rightarrow> (reply \<times> cache_service) res \<Rightarrow> bool" where
  "ends pf t S R \<longleftrightarrow> (\<exists>n. solo pf n (t, S) = rbind R (\<lambda>(x, S'). Inr (Finished x, S')))"

lemma ends_done [simp]: "ends pf (Finished x) S (Inr (x, S))"
  by (auto simp: ends_def intro!: exI [of _ 0])

lemma ends_step:
  assumes "tstep pf (hm_len (svc_map S)) t S = Inr (t', S')" and "ends pf t' S' R"
  shows "ends pf t S R"
proof -
  obtain n where "solo pf n (t', S') = rbind R (\<lambda>(x, S'). Inr (Finished x, S'))" using assms(2) by (auto simp: ends_def)
  then have "solo pf (Suc n) (t, S) = rbind R (\<lambda>(x, S'). Inr (Finished x, S'))" using assms(1) by simp
  then show ?thesis unfolding ends_def by blast
qed

lemma ends_fault: "tstep pf (hm_len (svc_map S)) t S = Inl f \<Longrightarrow> ends pf t S (Inl f)"
  by (auto simp: ends_def intro!: exI [of _ 1])

text \<open>A step that may panic in \<open>M\<close> and otherwise goes on.\<close>

lemma ends_bind:
  assumes "tstep pf (hm_len (svc_map S)) t S = rbind M F" and "\<And>x. M = Inr x \<Longrightarrow> \<exists>t' S'. F x = Inr (t', S') \<and> ends pf t' S' (G x)"
  shows "ends pf t S (rbind M G)"
proof (cases M)
  case (Inl f)
  then show ?thesis using ends_fault assms(1) by simp
next
  case (Inr x)
  then show ?thesis using assms ends_step by fastforce
qed

lemma rbind_assoc: "rbind (rbind m f) g = rbind m (\<lambda>x. rbind (f x) g)"
  by (simp add: rbind_def split: sum.split)

lemma rbind_if: "rbind (if b then m else n) f = (if b then rbind m f else rbind n f)"
  by simp

section \<open>The index\<close>

lemma set_index_same [simp]: "set_index (svc_index S) S = S"
  by (simp add: set_index_def svc_index_def)

lemma ends_find:
  assumes "\<And>e I. index_lookup k (svc_index S) = Inr (Some e, I) \<Longrightarrow>
      ends pf (found_next f e (set_index I S)) (hit (set_index I S)) (K (Some e) I)"
    and "ends pf (FindMiss f k) S (K None (svc_index S))"
  shows "ends pf (MapGet f k) S (rbind (index_lookup k (svc_index S)) (\<lambda>(r, I). K r I))"
proof (cases "fmlookup (svc_map S) k")
  case None
  then have "index_lookup k (svc_index S) = Inr (None, svc_index S)" by (simp add: index_lookup_def svc_map_def)
  then show ?thesis using ends_step [OF _ assms(2), of S "MapGet f k"] None by simp
next
  case (Some e)
  have "ends pf (LruTouch f k e) S (rbind (touch k (svc_lru S)) (\<lambda>l. K (Some e) ((svc_index S)\<lparr>bi_lru := l\<rparr>)))"
  proof (rule ends_bind)
    show "tstep pf (hm_len (svc_map S)) (LruTouch f k e) S =
      rbind (touch k (svc_lru S)) (\<lambda>l. Inr (FindHit f e, set_lru l S))" by simp
    fix l
    assume l: "touch k (svc_lru S) = Inr l"
    let ?I = "(svc_index S)\<lparr>bi_lru := l\<rparr>"
    have "index_lookup k (svc_index S) = Inr (Some e, ?I)"
      using Some l by (simp add: index_lookup_def svc_map_def svc_lru_def)
    from assms(1) [OF this] have "ends pf (FindHit f e) (set_index ?I S) (K (Some e) ?I)"
      by (rule ends_step [rotated]) simp
    then show "\<exists>t' S'. Inr (FindHit f e, set_lru l S) = Inr (t', S') \<and> ends pf t' S' (K (Some e) ?I)"
      by (simp add: set_lru_def)
  qed
  moreover have "rbind (index_lookup k (svc_index S)) (\<lambda>(r, I). K r I) =
      rbind (touch k (svc_lru S)) (\<lambda>l. K (Some e) ((svc_index S)\<lparr>bi_lru := l\<rparr>))"
    using Some by (cases "touch k (svc_lru S)") (simp_all add: index_lookup_def svc_map_def svc_lru_def)
  ultimately show ?thesis using ends_step [of pf S "MapGet f k" "LruTouch f k e" S] Some by simp
qed

lemma ends_evict:
  assumes "\<And>m l ev'. ends pf (MapInsert j loc ev') (set_index ((svc_index S)\<lparr>bi_map := m, bi_lru := l\<rparr>) S) (K m l ev')"
  shows "ends pf (MapLen j loc ev) S
    (rbind (evict_while (bi_capacity (svc_index S)) (svc_map S) (svc_lru S) ev) (\<lambda>(m, l, ev'). K m l ev'))"
  using assms
proof (induction "bi_capacity (svc_index S)" "svc_map S" "svc_lru S" ev arbitrary: S rule: evict_while.induct)
  case (1 ev S)
  let ?c = "bi_capacity (svc_index S)"
  have I: "(svc_index S)\<lparr>bi_map := svc_map S, bi_lru := l\<rparr> = (svc_index S)\<lparr>bi_lru := l\<rparr>" for l
    by (simp add: svc_map_def)
  show ?case
  proof (cases "hm_len (svc_map S) \<ge> ?c")
    case False
    have "ends pf (MapInsert j loc ev) S (K (svc_map S) (svc_lru S) ev)"
      using "1.prems" [of ev "svc_lru S" "svc_map S"] I by (simp add: svc_lru_def)
    then show ?thesis using False ends_step [of pf S "MapLen j loc ev"] by (simp add: evict_while.simps)
  next
    case True
    have "ends pf (EvictLru j loc ev) S (rbind (evict_lru (svc_lru S)) (\<lambda>(victim, l1).
        rbind (case victim of
          Some v \<Rightarrow> evict_while ?c (fmdrop v (svc_map S)) l1 (ev @ [v])
        | None \<Rightarrow> Inr (svc_map S, l1, ev)) (\<lambda>(m, l, ev'). K m l ev')))"
    proof (rule ends_bind, simp, clarify)
      fix victim l1
      assume l1: "evict_lru (svc_lru S) = Inr (victim, l1)"
      show "\<exists>t' S'. Inr (case victim of None \<Rightarrow> MapInsert j loc ev | Some v \<Rightarrow> MapRemoveVictim j loc ev v, set_lru l1 S) =
          Inr (t', S') \<and> ends pf t' S' (rbind (case victim of
            Some v \<Rightarrow> evict_while ?c (fmdrop v (svc_map S)) l1 (ev @ [v])
          | None \<Rightarrow> Inr (svc_map S, l1, ev)) (\<lambda>(m, l, ev'). K m l ev'))"
      proof (cases victim)
        case None
        then show ?thesis using "1.prems" [of ev l1 "svc_map S"] I by (simp add: set_lru_def)
      next
        case (Some v)
        let ?S = "set_map (fmdrop v (svc_map S)) (set_lru l1 S)"
        have S: "svc_index ?S = (svc_index S)\<lparr>bi_map := fmdrop v (svc_map S), bi_lru := l1\<rparr>"
            "set_index I ?S = set_index I S" for I
          by (simp_all add: set_map_def set_lru_def) (simp add: set_index_def)
        have "ends pf (MapLen j loc (ev @ [v])) ?S
            (rbind (evict_while ?c (fmdrop v (svc_map S)) l1 (ev @ [v])) (\<lambda>(m, l, ev'). K m l ev'))"
          using "1.hyps" [OF True l1 _ Some, of ?S] "1.prems" S
          by (simp add: svc_map_def svc_lru_def)
        then show ?thesis
          using Some ends_step [of pf "set_lru l1 S" "MapRemoveVictim j loc ev v"] by simp
      qed
    qed
    moreover have "rbind (evict_lru (svc_lru S)) (\<lambda>(victim, l1).
        rbind (case victim of
          Some v \<Rightarrow> evict_while ?c (fmdrop v (svc_map S)) l1 (ev @ [v])
        | None \<Rightarrow> Inr (svc_map S, l1, ev)) (\<lambda>(m, l, ev'). K m l ev')) =
      rbind (evict_while ?c (svc_map S) (svc_lru S) ev) (\<lambda>(m, l, ev'). K m l ev')"
      using True by (cases "evict_lru (svc_lru S)") (auto simp: evict_while.simps [of ?c "svc_map S"])
    ultimately show ?thesis using True ends_step [of pf S "MapLen j loc ev" "EvictLru j loc ev" S] by simp
  qed
qed

section \<open>Blocks\<close>

lemma seg_write_twice:
  "off + length ys \<le> length xs \<Longrightarrow> length zs = length ys \<Longrightarrow> seg_write off zs (seg_write off ys xs) = seg_write off zs xs"
  by (simp add: seg_write_def)

lemma slice_mut_twice:
  assumes "get_slice_mut p h = Inr (bs, upd)" and "length bs' = length bs"
  obtains upd' where "get_slice_mut (upd bs') h = Inr (bs', upd')" and "\<forall>cs. length cs = length bs \<longrightarrow> upd' cs = upd cs"
    and "mp_block_size (upd bs') = mp_block_size p"
proof -
  let ?o = "bh_offset h"
  have p: "bh_pool_id h = mp_pool_id p" "\<not> mp_total_size p < ?o" "?o + mp_block_size p \<le> length (mp_region p)"
      "bs = seg ?o (mp_block_size p) (mp_region p)" "upd = (\<lambda>bs. p\<lparr>mp_region := seg_write ?o bs (mp_region p)\<rparr>)"
    using assms(1) by (auto simp: get_slice_mut_def get_ptr_def split: if_splits)
  have len: "length bs = mp_block_size p" using p(3,4) by simp
  show ?thesis
  proof (rule that)
    show "get_slice_mut (upd bs') h = Inr (bs', \<lambda>cs. (upd bs')\<lparr>mp_region := seg_write ?o cs (mp_region (upd bs'))\<rparr>)"
      using p len assms(2) by (simp add: get_slice_mut_def get_ptr_def)
    show "\<forall>cs. length cs = length bs \<longrightarrow> (upd bs')\<lparr>mp_region := seg_write ?o cs (mp_region (upd bs'))\<rparr> = upd cs"
      using p(3,5) len assms(2) by (simp add: seg_write_twice)
    show "mp_block_size (upd bs') = mp_block_size p" by (simp add: p(5))
  qed
qed

lemma set_allocator_twice [simp]:
  "set_allocator A (set_allocator A' S) = set_allocator A S" "set_pool p (set_pool p' S) = set_pool p S"
  "svc_pool (set_allocator A S) = ba_pool A" "svc_pool (set_pool p S) = p"
  by (simp_all add: set_pool_def svc_pool_def) (simp_all add: set_allocator_def)

lemma ends_write_data:
  assumes "\<And>loc p. ends pf (ContainsKey j loc) (set_pool p S) (K loc p)"
  shows "ends pf (WriteData j h g) S (rbind (get_slice_mut (svc_pool S) h) (\<lambda>(bs, upd).
    if length bs < HEADER_SIZE + length (sj_data j) then Inl SliceOutOfRange
    else K (block_location_for S h g) (upd (seg_write HEADER_SIZE (sj_data j) bs))))"
proof (cases "get_slice_mut (svc_pool S) h")
  case (Inl f)
  then show ?thesis using ends_fault [of pf S "WriteData j h g"] by simp
next
  case (Inr x)
  obtain bs upd where x: "x = (bs, upd)" by (cases x)
  show ?thesis
  proof (cases "length bs < HEADER_SIZE + length (sj_data j)")
    case True
    then show ?thesis using ends_fault [of pf S "WriteData j h g"] Inr x by simp
  next
    case False
    then show ?thesis using ends_step [OF _ assms, of S "WriteData j h g"] Inr x by simp
  qed
qed

lemma ends_write_header:
  assumes "\<And>loc p. ends pf (ContainsKey j loc) (set_pool p S) (K loc p)"
  shows "ends pf (WriteHeader j h g) S (rbind (get_slice_mut (svc_pool S) h) (\<lambda>(bs, upd).
    if length bs < HEADER_SIZE then Inl SliceOutOfRange
    else rbind (write_to pf (header_new pf (sj_data j) g) (take HEADER_SIZE bs)) (\<lambda>hdr.
      if length (hdr @ drop HEADER_SIZE bs) < HEADER_SIZE + length (sj_data j) then Inl SliceOutOfRange
      else K (block_location_for S h g) (upd (seg_write HEADER_SIZE (sj_data j) (hdr @ drop HEADER_SIZE bs))))))"
proof (cases "get_slice_mut (svc_pool S) h")
  case (Inl f)
  then show ?thesis using ends_fault [of pf S "WriteHeader j h g"] by simp
next
  case (Inr x)
  obtain bs upd where x: "x = (bs, upd)" by (cases x)
  show ?thesis
  proof (cases "length bs < HEADER_SIZE")
    case True
    then show ?thesis using ends_fault [of pf S "WriteHeader j h g"] Inr x by simp
  next
    case False
    let ?bs = "header_bytes pf (header_new pf (sj_data j) g) @ drop HEADER_SIZE bs"
    have len: "length ?bs = length bs" using False by simp
    obtain upd' where u: "get_slice_mut (upd ?bs) h = Inr (?bs, upd')" "\<forall>cs. length cs = length bs \<longrightarrow> upd' cs = upd cs"
        "mp_block_size (upd ?bs) = mp_block_size (svc_pool S)"
      using slice_mut_twice [OF Inr [unfolded x] len] .
    have loc: "block_location_for (set_pool (upd ?bs) S) h g = block_location_for S h g"
      using u(3) by (simp add: block_location_for_def pool_block_size_def)
    have "ends pf (WriteData j h g) (set_pool (upd ?bs) S)
        (if length ?bs < HEADER_SIZE + length (sj_data j) then Inl SliceOutOfRange
         else K (block_location_for S h g) (upd (seg_write HEADER_SIZE (sj_data j) ?bs)))"
      using ends_write_data [of pf j "set_pool (upd ?bs) S" K h g] assms u(1) loc
        u(2) [rule_format, of "seg_write HEADER_SIZE (sj_data j) ?bs"] len
      by (auto simp: not_less split: if_splits)
    then show ?thesis
      using ends_step [of pf S "WriteHeader j h g" "WriteData j h g"] Inr x False
      by (simp add: write_to_def)
  qed
qed

section \<open>Store\<close>

definition store_done :: "store_job \<Rightarrow> block_location \<Rightarrow> cache_service \<Rightarrow> hash16 list \<Rightarrow> block_index \<Rightarrow> (reply \<times> cache_service) res" where
  "store_done j loc S ev I =
     (let S3 = (set_index I S)\<lparr>cs_evictions := cs_evictions S + of_nat (length ev)\<rparr>
      in Inr (StoreReply \<lparr>sr_success = True, sr_error_message = [], sr_generation_id = loc_generation loc\<rparr>
                (case as_metadata (cs_state S) of None \<Rightarrow> [] | Some _ \<Rightarrow> [(sj_key j, loc_generation loc)]), S3))"

lemma ends_put:
  "ends pf (MapInsert j loc ev) (set_index I S) (rbind (touch (sj_key j) (bi_lru I)) (\<lambda>l.
     store_done j loc S ev
       (I\<lparr>bi_map := fmupd (sj_key j) \<lparr>ie_blocks = [loc], ie_created_at = monotonic_now (sj_now j)\<rparr> (bi_map I), bi_lru := l\<rparr>)))"
proof -
  let ?m = "fmupd (sj_key j) \<lparr>ie_blocks = [loc], ie_created_at = monotonic_now (sj_now j)\<rparr> (bi_map I)"
  have S: "set_map ?m (set_index I S) = set_index (I\<lparr>bi_map := ?m\<rparr>) S" "svc_map (set_index I S) = bi_map I"
      "svc_lru (set_index (I\<lparr>bi_map := ?m\<rparr>) S) = bi_lru I"
      "set_lru l (set_index (I\<lparr>bi_map := ?m\<rparr>) S) = set_index (I\<lparr>bi_map := ?m, bi_lru := l\<rparr>) S" for l
    by (simp_all add: set_map_def set_lru_def svc_map_def svc_lru_def) (simp_all add: set_index_def)
  have fin: "ends pf (AddEvictions j loc ev) (set_index I' S) (store_done j loc S ev I')" for I'
    using ends_step [of pf "set_index I' S" "AddEvictions j loc ev", OF _ ends_done]
    by (simp add: store_done_def Let_def)
  have "ends pf (LruTouchNew j loc ev) (set_index (I\<lparr>bi_map := ?m\<rparr>) S)
      (rbind (touch (sj_key j) (bi_lru I)) (\<lambda>l. store_done j loc S ev (I\<lparr>bi_map := ?m, bi_lru := l\<rparr>)))"
    using ends_fault [of pf "set_index (I\<lparr>bi_map := ?m\<rparr>) S" "LruTouchNew j loc ev"]
      ends_step [OF _ fin, of "set_index (I\<lparr>bi_map := ?m\<rparr>) S" "LruTouchNew j loc ev"] S
    by (cases "touch (sj_key j) (bi_lru I)") simp_all
  then show ?thesis using ends_step [of pf "set_index I S" "MapInsert j loc ev"] S by simp
qed

definition insert_done :: "store_job \<Rightarrow> block_location \<Rightarrow> cache_service \<Rightarrow> (reply \<times> cache_service) res" where
  "insert_done j loc S =
     rbind (index_insert (sj_key j) [loc] (monotonic_now (sj_now j)) (svc_index S)) (\<lambda>(ev, I). store_done j loc S ev I)"

lemma ends_insert: "ends pf (ContainsKey j loc) S (insert_done j loc S)"
proof (cases "sj_key j |\<in>| fmdom (svc_map S)")
  case True
  have "ends pf (MapInsert j loc []) S (insert_done j loc S)"
    using ends_put [of pf j loc "[]" "svc_index S" S] True
    by (cases "touch (sj_key j) (bi_lru (svc_index S))") (simp_all add: insert_done_def index_insert_def svc_map_def Let_def)
  then show ?thesis using ends_step [of pf S "ContainsKey j loc"] True by simp
next
  case False
  let ?I = "svc_index S"
  have "ends pf (MapLen j loc []) S (rbind (evict_while (bi_capacity ?I) (svc_map S) (svc_lru S) []) (\<lambda>(m, l, ev).
      rbind (touch (sj_key j) l) (\<lambda>l1. store_done j loc S ev
        (?I\<lparr>bi_map := fmupd (sj_key j) \<lparr>ie_blocks = [loc], ie_created_at = monotonic_now (sj_now j)\<rparr> m, bi_lru := l1\<rparr>))))"
  proof (rule ends_evict)
    fix m l ev
    show "ends pf (MapInsert j loc ev) (set_index (?I\<lparr>bi_map := m, bi_lru := l\<rparr>) S)
      (rbind (touch (sj_key j) l) (\<lambda>l1. store_done j loc S ev
        (?I\<lparr>bi_map := fmupd (sj_key j) \<lparr>ie_blocks = [loc], ie_created_at = monotonic_now (sj_now j)\<rparr> m, bi_lru := l1\<rparr>)))"
      using ends_put [of pf j loc ev "?I\<lparr>bi_map := m, bi_lru := l\<rparr>" S] by simp
  qed
  then have "ends pf (MapLen j loc []) S (insert_done j loc S)"
    using False by (simp add: insert_done_def index_insert_def svc_map_def svc_lru_def Let_def rbind_assoc case_prod_unfold)
  then show ?thesis using ends_step [of pf S "ContainsKey j loc"] False by simp
qed

definition write_done :: "store_job \<Rightarrow> cache_service \<Rightarrow> (block_location \<times> block_handle) option \<times> block_allocator \<Rightarrow> (reply \<times> cache_service) res" where
  "write_done j S x =
     (case x of
        (None, A) \<Rightarrow> Inr (Refused (Status ResourceExhausted ''memory pool exhausted''), set_allocator A S)
      | (Some (loc, handle), A) \<Rightarrow> insert_done j loc (set_allocator A S))"

lemma ends_allocate: "ends pf (PoolAllocate j) S (rbind (allocate_and_write pf (svc_allocator S) (sj_data j)) (write_done j S))"
proof (cases "usize_sub (overflow_checks pf) (pool_block_size (ba_pool (svc_allocator S))) HEADER_SIZE")
  case (Inl f)
  then show ?thesis using ends_fault [of pf S "PoolAllocate j"] by (simp add: allocate_and_write_def svc_pool_def)
next
  case (Inr max_data)
  let ?A = "svc_allocator S" and ?d = "sj_data j"
  have same: "set_allocator ?A S = S" by (simp add: set_allocator_def svc_allocator_def)
  show ?thesis
  proof (cases "length ?d > max_data \<or> allocate (ba_pool ?A) = None")
    case True
    let ?x = "Refused (Status ResourceExhausted ''memory pool exhausted'')"
    have "ends pf (PoolAllocate j) S (Inr (?x, S))"
      by (rule ends_step [OF _ ends_done]) (use True Inr in \<open>auto simp: svc_pool_def Let_def\<close>)
    then show ?thesis using True Inr same by (auto simp: allocate_and_write_def write_done_def)
  next
    case False
    then obtain h p where al: "allocate (ba_pool ?A) = Some (h, p)" by auto
    let ?g = "ba_generation ?A"
    let ?S = "set_allocator (?A\<lparr>ba_pool := p, ba_generation := ?g + 1\<rparr>) S"
    let ?K = "\<lambda>loc q. insert_done j loc (set_allocator (?A\<lparr>ba_pool := q, ba_generation := ?g + 1\<rparr>) S)"
    have upd: "?A\<lparr>ba_generation := g, ba_pool := q\<rparr> = ?A\<lparr>ba_pool := q, ba_generation := g\<rparr>" for g q by simp
    have "ends pf (ContainsKey j loc) (set_pool q ?S) (?K loc q)" for loc q
      using ends_insert [of pf j loc "set_pool q ?S"] by (simp add: set_pool_def upd)
    from ends_write_header [OF this, of h ?g]
    have "ends pf (WriteHeader j h ?g) ?S (rbind (allocate_and_write pf ?A ?d) (write_done j S))"
      using False Inr al
      by (simp add: allocate_and_write_def Let_def rbind_assoc rbind_if case_prod_unfold block_location_for_def svc_pool_def
          write_done_def cong: if_cong)
    then have "ends pf (FetchGeneration j h) (set_pool p S) (rbind (allocate_and_write pf ?A ?d) (write_done j S))"
      using ends_step [of pf "set_pool p S" "FetchGeneration j h"] by (simp add: Let_def set_pool_def)
    then show ?thesis
      using ends_step [of pf S "PoolAllocate j" "FetchGeneration j h" "set_pool p S"] False Inr al
      by (simp add: Let_def svc_pool_def)
  qed
qed

section \<open>The other handlers\<close>

lemma ends_read:
  "ends pf (ReadHeader locs n ms) S
     (rbind (send_blocks pf (\<lambda>_. svc_allocator S) i locs n) (\<lambda>ms'. Inr (GetReply (ms @ ms'), S)))"
proof (induction locs arbitrary: n ms i)
  case Nil
  then show ?case using ends_step [of pf S "ReadHeader [] n ms", OF _ ends_done] by simp
next
  case (Cons loc locs)
  let ?rd = "ReadHeader (loc # locs) n ms" and ?h = "block_handle_of loc"
  have loss: "ends pf (data_loss n ms) S (Inr (GetReply (ms @ (if n = 0 then []
      else [Inl (Status DataLoss ''block CRC32C verification failed'')])), S))" by (simp add: data_loss_def)
  show ?case
  proof (cases "get_slice (svc_pool S) ?h")
    case (Inl f)
    then show ?thesis using ends_fault [of pf S ?rd] by (simp add: read_verified_def svc_pool_def)
  next
    case (Inr bs)
    show ?thesis
    proof (cases "\<exists>hdr. read_from bs = Some hdr \<and> HEADER_SIZE + unat (hdr_data_size hdr) \<le> length bs")
      case False
      then show ?thesis
        using Inr ends_step [OF _ loss, of S ?rd]
        by (auto simp: read_verified_def svc_pool_def Let_def not_le split: option.splits)
    next
      case True
      then obtain hdr where hdr: "read_from bs = Some hdr" "HEADER_SIZE + unat (hdr_data_size hdr) \<le> length bs" by blast
      let ?d = "seg HEADER_SIZE (unat (hdr_data_size hdr)) bs" and ?v = "VerifyData loc hdr locs n ms"
      let ?R = "rbind (send_blocks pf (\<lambda>_. svc_allocator S) i (loc # locs) n) (\<lambda>ms'. Inr (GetReply (ms @ ms'), S))"
      have "ends pf ?v S ?R"
      proof (cases "header_verify pf hdr ?d")
        case False
        then show ?thesis
          using Inr hdr ends_step [OF _ loss, of S ?v] by (auto simp: read_verified_def svc_pool_def Let_def)
      next
        case verified: True
        have "ends pf (CopyData loc hdr locs n ms) S ?R"
        proof (cases n)
          case 0
          then show ?thesis
            using Inr hdr verified ends_step [of pf S "CopyData loc hdr locs n ms", OF _ ends_done]
            by (simp add: read_verified_def svc_pool_def Let_def)
        next
          case (Suc m)
          then show ?thesis
            using Inr hdr verified ends_step [of pf S "CopyData loc hdr locs n ms", OF _ Cons.IH [of m "ms @ [Inr (GetData ?d)]" "Suc i"]]
            by (simp add: read_verified_def svc_pool_def Let_def rbind_assoc)
        qed
        then show ?thesis using Inr verified ends_step [of pf S ?v "CopyData loc hdr locs n ms" S] by simp
      qed
      then show ?thesis using Inr hdr ends_step [of pf S ?rd ?v S] by simp
    qed
  qed
qed

lemma ends_stream:
  "ends pf (StreamHeader e n) S
     (rbind (get_task pf (\<lambda>_. svc_allocator S) e n) (\<lambda>ms. Inr (GetReply ms, S)))"
proof (cases "sum_u64 (overflow_checks pf) (map loc_block_size (ie_blocks e)) 0")
  case (Inl f)
  then show ?thesis using ends_fault [of pf S "StreamHeader e n"] by (simp add: get_task_def)
next
  case (Inr total)
  let ?hd = "Inr (GetHead \<lparr>gh_total_size = total, gh_num_blocks = of_nat (length (ie_blocks e)),
      gh_generation_id = (case ie_blocks e of [] \<Rightarrow> 0 | b # _ \<Rightarrow> loc_generation b)\<rparr>)"
  show ?thesis
  proof (cases n)
    case 0
    then show ?thesis
      using Inr ends_step [of pf S "StreamHeader e n", OF _ ends_done] by (simp add: get_task_def Let_def)
  next
    case (Suc m)
    then show ?thesis
      using Inr ends_step [of pf S "StreamHeader e n", OF _ ends_read [of pf "ie_blocks e" m "[?hd]" S 0]]
      by (simp add: get_task_def Let_def rbind_assoc)
  qed
qed

lemma ends_free:
  "ends pf (PoolDeallocate locs freed) S (rbind (free_blocks locs (svc_allocator S)) (\<lambda>A.
     Inr (DeleteReply \<lparr>dr_success = True, dr_blocks_freed = of_nat (length freed)\<rparr>, set_allocator A S)))"
proof (induction locs arbitrary: S)
  case Nil
  then show ?case using ends_step [of pf S "PoolDeallocate [] freed", OF _ ends_done] by simp
next
  case (Cons loc locs)
  show ?case
  proof (cases "ba_deallocate (svc_allocator S) (block_handle_of loc)")
    case (Inl f)
    then show ?thesis using ends_fault [of pf S "PoolDeallocate (loc # locs) freed"] by simp
  next
    case (Inr A)
    then show ?thesis
      using ends_step [OF _ Cons.IH [of "set_allocator A S"], of S "PoolDeallocate (loc # locs) freed"] by simp
  qed
qed

lemma ends_remove:
  "ends pf (MapRemove k) S (rbind (index_remove k (svc_index S)) (\<lambda>(r, I).
     case r of
       None \<Rightarrow> Inr (DeleteReply \<lparr>dr_success = False, dr_blocks_freed = 0\<rparr>, set_index I S)
     | Some e \<Rightarrow> rbind (free_blocks (ie_blocks e) (svc_allocator S)) (\<lambda>A.
         Inr (DeleteReply \<lparr>dr_success = True, dr_blocks_freed = of_nat (length (ie_blocks e))\<rparr>, set_allocator A (set_index I S)))))"
proof (cases "fmlookup (svc_map S) k")
  case None
  then show ?thesis
    using ends_step [of pf S "MapRemove k", OF _ ends_done] by (simp add: index_remove_def svc_map_def)
next
  case (Some e)
  let ?S = "set_map (fmdrop k (svc_map S)) S"
  have S: "set_lru l ?S = set_index ((svc_index S)\<lparr>bi_map := fmdrop k (svc_map S), bi_lru := l\<rparr>) S" for l
    by (simp add: set_lru_def set_map_def) (simp add: set_index_def)
  show ?thesis
  proof (cases "lru_remove k (svc_lru S)")
    case (Inl f)
    then have "ends pf (LruRemove k e) ?S (Inl f)" using ends_fault [of pf ?S "LruRemove k e"] by simp
    then show ?thesis
      using ends_step [of pf S "MapRemove k" "LruRemove k e" ?S] Some Inl
      by (simp add: index_remove_def svc_map_def svc_lru_def)
  next
    case (Inr l)
    let ?I = "(svc_index S)\<lparr>bi_map := fmdrop k (svc_map S), bi_lru := l\<rparr>"
    have "ends pf (LruRemove k e) ?S (rbind (free_blocks (ie_blocks e) (svc_allocator S)) (\<lambda>A.
        Inr (DeleteReply \<lparr>dr_success = True, dr_blocks_freed = of_nat (length (ie_blocks e))\<rparr>, set_allocator A (set_index ?I S))))"
      using ends_step [OF _ ends_free [of pf "ie_blocks e" "ie_blocks e" "set_lru l ?S"], of ?S "LruRemove k e"] Inr by (simp add: S)
    then show ?thesis
      using ends_step [of pf S "MapRemove k" "LruRemove k e" ?S] Some Inr
      by (simp add: index_remove_def svc_map_def svc_lru_def)
  qed
qed

lemma ends_batch:
  "ends pf (BatchNext m hs fs bs) S (rbind (batch_loop pf m hs fs bs S) (\<lambda>(r, S1).
     Inr (case_sum Refused (\<lambda>x. BatchReply (br_found x) (map stamp_of (br_blocks x))) r, S1)))"
proof (induction hs arbitrary: fs bs S)
  case Nil
  then show ?case using ends_step [of pf S "BatchNext m [] fs bs", OF _ ends_done] by simp
next
  case (Cons raw hs)
  let ?f = "ForBatch m hs fs bs" and ?t = "BatchNext m (raw # hs) fs bs"
  show ?case
  proof (cases "parse_prefix_hash raw")
    case (Inl st)
    then show ?thesis using ends_step [of pf S ?t, OF _ ends_done] by (simp add: begin_find_def)
  next
    case (Inr h)
    let ?k = "composite_key pf m h"
    let ?fin = "\<lambda>(r, S1). Inr (case_sum Refused (\<lambda>x. BatchReply (br_found x) (map stamp_of (br_blocks x))) r, S1)"
    have "ends pf (MapGet ?f ?k) S (rbind (index_lookup ?k (svc_index S)) (\<lambda>(r, I).
        rbind (case r of
          Some e \<Rightarrow> batch_loop pf m hs (fs @ [True]) (bs @ map (local_location (set_index I S)) (ie_blocks e)) (hit (set_index I S))
        | None \<Rightarrow> batch_loop pf m hs (fs @ [False]) bs (miss (set_index I S))) ?fin))"
      using Cons.IH ends_step [of pf S "FindMiss ?f ?k", OF _ Cons.IH] by (intro ends_find) simp_all
    then show ?thesis
      using ends_step [of pf S ?t "MapGet ?f ?k" S] Inr
      by (simp add: begin_find_def rbind_assoc case_prod_unfold Let_def)
  qed
qed

lemma ends_lookup: "ends pf (Begin (DoLookup req)) S (svc_step pf (DoLookup req) S)"
proof (cases "parse_prefix_hash (lq_prefix_hash req)")
  case (Inl st)
  then show ?thesis
    using ends_step [of pf S "Begin (DoLookup req)", OF _ ends_done] by (simp add: begin_find_def lookup_def)
next
  case (Inr h)
  let ?k = "composite_key pf (lq_model_id req) h" and ?t = "Begin (DoLookup req)"
  let ?miss = "\<lambda>S. case Option.bind (as_remote_index (cs_state S)) (remote_lookup ?k) of
      Some (b # _) \<Rightarrow> Inr (LookupReply True False [(rb_node_id b, rb_generation b)], hit S)
    | _ \<Rightarrow> Inr (LookupReply False False [], miss S)"
  have remote: "ends pf (RemoteHit b) S (Inr (LookupReply True False [(rb_node_id b, rb_generation b)], hit S))"
      "ends pf RemoteMiss S (Inr (LookupReply False False [], miss S))" for b S
    using ends_step [of pf S "RemoteHit b", OF _ ends_done] ends_step [of pf S RemoteMiss, OF _ ends_done] by simp_all
  have missed: "ends pf (FindMiss ForLookup ?k) S (?miss S)" for S
    using ends_step [OF _ remote(1), of S "FindMiss ForLookup ?k"] ends_step [OF _ remote(2), of S "FindMiss ForLookup ?k"]
    by (simp split: option.split list.split)
  have "ends pf (MapGet ForLookup ?k) S (rbind (index_lookup ?k (svc_index S)) (\<lambda>(r, I).
      case r of
        Some e \<Rightarrow> Inr (LookupReply True True (map (stamp_of \<circ> local_location (set_index I S)) (ie_blocks e)), hit (set_index I S))
      | None \<Rightarrow> ?miss (set_index I S)))"
    using missed [of S] by (intro ends_find) (simp_all cong: option.case_cong list.case_cong)
  moreover have "svc_step pf (DoLookup req) S = (rbind (index_lookup ?k (svc_index S)) (\<lambda>(r, I).
      case r of
        Some e \<Rightarrow> Inr (LookupReply True True (map (stamp_of \<circ> local_location (set_index I S)) (ie_blocks e)), hit (set_index I S))
      | None \<Rightarrow> ?miss (set_index I S)))"
    using Inr by (auto simp: lookup_def rbind_assoc Let_def stamp_of_def intro!: rbind_cong split: option.split list.split)
  ultimately show ?thesis using ends_step [of pf S ?t "MapGet ForLookup ?k" S] Inr by (simp add: begin_find_def)
qed

lemma ends_get: "ends pf (Begin (DoGet req n)) S (svc_step pf (DoGet req n) S)"
proof (cases "parse_prefix_hash (gq_prefix_hash req)")
  case (Inl st)
  then show ?thesis
    using ends_step [of pf S "Begin (DoGet req n)", OF _ ends_done] by (simp add: begin_find_def get_def)
next
  case (Inr h)
  let ?k = "composite_key pf (gq_model_id req) h" and ?t = "Begin (DoGet req n)"
  let ?r = "\<lambda>(r, I). case r of
      None \<Rightarrow> Inr (Refused (Status NotFound ''prefix hash not found in cache''), miss (set_index I S))
    | Some e \<Rightarrow> rbind (get_task pf (\<lambda>_. svc_allocator (hit (set_index I S))) e n) (\<lambda>ms. Inr (GetReply ms, hit (set_index I S)))"
  have "ends pf (MapGet (ForGet n) ?k) S (rbind (index_lookup ?k (svc_index S)) ?r)"
    using ends_step [of pf S "FindMiss (ForGet n) ?k", OF _ ends_done] ends_stream [of pf _ n "hit (set_index I S)" for I]
    by (intro ends_find) simp_all
  moreover have "svc_step pf (DoGet req n) S = rbind (index_lookup ?k (svc_index S)) ?r"
    using Inr by (auto simp: get_def rbind_assoc Let_def intro!: rbind_cong split: option.split)
  ultimately show ?thesis using ends_step [of pf S ?t "MapGet (ForGet n) ?k" S] Inr by (simp add: begin_find_def)
qed

lemma ends_store: "ends pf (Begin (DoStore now stream)) S (svc_step pf (DoStore now stream) S)"
proof (cases "begin_store pf now stream S")
  case (Inl f)
  then have "svc_step pf (DoStore now stream) S = Inl f"
    by (auto simp: begin_store_def store_def Let_def split: if_splits sum.splits)
  then show ?thesis using ends_fault [of pf S "Begin (DoStore now stream)"] Inl by simp
next
  case (Inr t)
  have "ends pf t S (svc_step pf (DoStore now stream) S)"
  proof (cases "\<exists>j. t = PoolAllocate j")
    case False
    then show ?thesis
      using Inr by (auto simp: begin_store_def store_def Let_def split: if_splits sum.splits)
  next
    case True
    then obtain j where j: "t = PoolAllocate j" by blast
    have "svc_step pf (DoStore now stream) S = rbind (allocate_and_write pf (svc_allocator S) (sj_data j)) (write_done j S)"
      using Inr j
      by (auto simp: begin_store_def store_def Let_def write_done_def insert_done_def store_done_def rbind_assoc
          intro!: rbind_cong split: if_splits sum.splits option.splits)
    then show ?thesis using ends_allocate [of pf j S] j by simp
  qed
  then show ?thesis using ends_step [of pf S "Begin (DoStore now stream)" t S] Inr by simp
qed

lemma ends_delete: "ends pf (Begin (DoDelete req)) S (svc_step pf (DoDelete req) S)"
proof (cases "parse_prefix_hash (dq_prefix_hash req)")
  case (Inl st)
  then show ?thesis using ends_step [of pf S "Begin (DoDelete req)", OF _ ends_done] by (simp add: delete_def)
next
  case (Inr h)
  have "svc_step pf (DoDelete req) S = rbind (index_remove h (svc_index S)) (\<lambda>(r, I).
     case r of
       None \<Rightarrow> Inr (DeleteReply \<lparr>dr_success = False, dr_blocks_freed = 0\<rparr>, set_index I S)
     | Some e \<Rightarrow> rbind (free_blocks (ie_blocks e) (svc_allocator S)) (\<lambda>A.
         Inr (DeleteReply \<lparr>dr_success = True, dr_blocks_freed = of_nat (length (ie_blocks e))\<rparr>, set_allocator A (set_index I S))))"
    using Inr by (auto simp: delete_def Let_def rbind_assoc intro!: rbind_cong split: option.split)
  then show ?thesis using ends_step [OF _ ends_remove [of pf h S], of S "Begin (DoDelete req)"] Inr by simp
qed

lemma ends_begin: "ends pf (Begin r) S (svc_step pf r S)"
proof (cases r)
  case (DoBatch req)
  then show ?thesis
    using ends_step [OF _ ends_batch [of pf "bq_model_id req" "bq_prefix_hashes req" "[]" "[]" S], of S "Begin r"]
    by (simp add: batch_lookup_def)
next
  case DoStats
  have "ends pf (LoadCounters (ba_stats (svc_allocator S)) []) S (svc_step pf DoStats S)"
    by (rule ends_step, simp, rule ends_step, simp, rule ends_step, simp) (simp add: service_stats_def Let_def)
  then show ?thesis using ends_step [of pf S "Begin r" "LoadCounters (ba_stats (svc_allocator S)) []" S] DoStats by simp
next
  case Tick
  show ?thesis unfolding Tick by (rule ends_step, simp add: Let_def, rule ends_step, simp) (simp add: Let_def split_beta)
next
  case (DoHealth now)
  then show ?thesis using ends_step [of pf S "Begin r", OF _ ends_done] by simp
next
  case (WatchUpdate R)
  then show ?thesis using ends_step [of pf S "Begin r", OF _ ends_done] by simp
qed (simp_all add: ends_lookup ends_get ends_store ends_delete del: svc_step.simps)

lemma solo_Finished [simp]: "solo pf n (Finished x, S) = Inr (Finished x, S)"
  by (induction n) simp_all

lemma solo_stays:
  assumes "solo pf n c = rbind R (\<lambda>(x, S'). Inr (Finished x, S'))" and "n \<le> m"
  shows "solo pf m c = rbind R (\<lambda>(x, S'). Inr (Finished x, S'))"
  using assms
proof (induction n arbitrary: c m)
  case 0
  then obtain x S' where "c = (Finished x, S')" by (cases R) auto
  then show ?case using 0 by (cases R) auto
next
  case (Suc n)
  obtain t S k where c: "c = (t, S)" "m = Suc k" "n \<le> k" using Suc.prems(2) by (cases c; cases m) auto
  then show ?case using Suc by (cases "tstep pf (hm_len (svc_map S)) t S"; cases R) auto
qed

text \<open>C4: The atomic handlers are the sequential behaviour of the concurrent ones. Take any request and any
  state of the service, well-formed or not. The handler of that request, run step by step with no other thread in
  between, ends after finitely many steps, and its reply and the state it leaves, or the panic it ends in, are exactly those
  of the atomic handler. This includes the eviction loop of \<open>insert\<close>, the loops over blocks and keys, and the
  split of a block write and of a verified read into several accesses.\<close>

theorem solo_equivalence:
  "\<exists>n. \<forall>m. solo pf (n + m) (Begin r, S) = rbind (svc_step pf r S) (\<lambda>(x, S'). Inr (Finished x, S'))"
  using ends_begin [of pf r S] solo_stays unfolding ends_def by (meson le_add1)

end
