(* ===== verification/ThreadTheorems.thy ===== *)
theory ThreadTheorems
  imports ThreadProps ThreadEquiv
begin

text \<open>
  What the interleaving of handlers means for clients: every thread can always go on and nothing panics, blocks are
  never shared by mistake, gets are atomic as long as nobody deletes, and every schedule comes to an end.
\<close>

section \<open>Runs\<close>

lemma par_steps_shape:
  assumes "(par_step pf shard)\<^sup>*\<^sup>* c c'" and "conc_inv pf P c"
  shows "length (fst c') = length (fst c) \<and> geometry (svc_allocator (snd c')) = geometry (svc_allocator (snd c))"
  using assms
proof (induction rule: rtranclp_induct)
  case (step b c')
  note inv = conc_inv_steps [OF step.hyps(1) step.prems]
  show ?case using step.hyps(2)
  proof cases
    case (par_step i ts len S t S')
    then show ?thesis
      using conc_step [of pf P ts S i len] inv step.IH step.prems by (auto simp: good_step_def frame_def)
  qed
qed simp

lemma stream_of_kv:
  "geometry A = geometry (svc_allocator S) \<Longrightarrow> stream_of A g d = kv_messages (kv_params_of S) g d"
  by (simp add: geometry_def stream_of_def kv_messages_def kv_params_of_def)

lemma solo_steps:
  assumes "solo pf n (ts ! i, S) = Inr (t', S')" and "i < length ts"
    and "\<And>j. j < length ts \<Longrightarrow> j \<noteq> i \<Longrightarrow> guard_of (ts ! j) = None"
  shows "(par_step pf shard)\<^sup>*\<^sup>* (ts, S) (ts[i := t'], S')"
  using assms
proof (induction n arbitrary: ts S)
  case 0
  then show ?case using list_update_id [of ts i] by auto
next
  case (Suc n)
  obtain t S1 where s: "tstep pf (hm_len (svc_map S)) (ts ! i) S = Inr (t, S1)" "solo pf n (t, S1) = Inr (t', S')"
    using Suc.prems(1) by (cases "tstep pf (hm_len (svc_map S)) (ts ! i) S") auto
  have rest: "(par_step pf shard)\<^sup>*\<^sup>* (ts[i := t], S1) (ts[i := t'], S')"
    using Suc.IH [of "ts[i := t]" S1] s(2) Suc.prems(2,3) by simp
  show ?case
  proof (cases "finished (ts ! i)")
    case True
    then have "ts[i := t] = ts" "S1 = S" using s(1) by (cases "ts ! i"; auto)+
    then show ?thesis using rest by simp
  next
    case False
    have "guard_of (ts ! i) = None" if "write_of (ts ! i) \<noteq> None" using that by (cases "ts ! i") auto
    then have "\<not> blocked shard ts (ts ! i)"
      using Suc.prems(3) by (fastforce simp: blocked_def list_ex_length split: option.splits)
    from par_step [OF Suc.prems(2) False this s(1)] rest show ?thesis by (rule converse_rtranclp_into_rtranclp)
  qed
qed

lemma request_steps:
  assumes "svc_step pf r S = Inr (x, S')" and "i < length ts" and "ts ! i = Begin r"
    and "\<And>j. j < length ts \<Longrightarrow> j \<noteq> i \<Longrightarrow> guard_of (ts ! j) = None"
  shows "(par_step pf shard)\<^sup>*\<^sup>* (ts, S) (ts[i := Finished x], S')"
proof -
  obtain n where "solo pf n (Begin r, S) = Inr (Finished x, S')"
    using ends_begin [of pf r S] assms(1) by (auto simp: ends_def simp del: svc_step.simps)
  then show ?thesis using solo_steps [of pf n ts i S] assms(2-4) by simp
qed

text \<open>Requests one after the other are one of the schedules.\<close>

lemma run_is_schedule:
  assumes "svc_run pf rs S = Inr (os, S')"
  shows "(par_step pf shard)\<^sup>*\<^sup>* (map Begin rs, S) (map Finished os, S')"
proof -
  have "(par_step pf shard)\<^sup>*\<^sup>* (map Finished ps @ map Begin rs, S) (map Finished (ps @ os), S')"
    if "svc_run pf rs S = Inr (os, S')" for ps
    using that
  proof (induction rs arbitrary: S ps os)
    case (Cons r rs)
    then obtain x S1 xs where x: "svc_step pf r S = Inr (x, S1)" "svc_run pf rs S1 = Inr (xs, S')" "os = x # xs"
      unfolding svc_run_def run_steps.simps by (auto simp only: rbind_eq_Inr prod.case sum.inject prod.inject)
    have "guard_of ((map Finished ps @ Begin r # map Begin rs) ! j) = None" if "j < length (map Finished ps @ Begin r # map Begin rs)" for j
      using that by (auto simp: nth_append nth_Cons split: nat.split)
    then have "(par_step pf shard)\<^sup>*\<^sup>* (map Finished ps @ map Begin (r # rs), S) (map Finished (ps @ [x]) @ map Begin rs, S1)"
      using request_steps [OF x(1), of "length ps" "map Finished ps @ map Begin (r # rs)" shard]
      by (simp add: nth_append list_update_append)
    with Cons.IH [OF x(2), of "ps @ [x]"] show ?case using x(3) by simp
  qed (simp add: svc_run_def)
  from this [OF assms, of "[]"] show ?thesis by simp
qed

section \<open>Properties\<close>

lemma demo_requests: "sane_sizes demo_pf [demo_put 1 [7, 8], demo_get 1]"
  by (auto simp: sane_sizes_def demo_put_def demo_get_def demo_put_args)

lemma demo_schedule:
  obtains m ps ms S' where "svc_run demo_pf [demo_put 1 [7, 8], demo_get 1] demo_service = Inr ([StoreReply m ps, GetReply ms], S')"
    and "index_contains (replicate 16 1) (svc_index S')"
proof -
  have "\<exists>m ps ms V. kv_run demo_pf (kv_params_of demo_service) [demo_put 1 [7, 8], demo_get 1] (kv_of demo_pf demo_service) =
      Inr ([StoreReply m ps, GetReply ms], V) \<and> replicate 16 1 \<in> fst ` set (kv_entries V)"
    using demo_service_params demo_service_empty [of demo_pf]
    by (simp add: kv_run_def demo_put_def demo_get_def kv_store_def demo_put_args kv_put_def Let_def cache_insert_def
        HEADER_SIZE_def PRESSURE_REJECT_def parse_prefix_hash_def kv_get_def composite_key_def kv_find_def
        cache_lookup_def kv_hit_def)
  then obtain m ps ms V where
      V: "kv_run demo_pf (kv_params_of demo_service) [demo_put 1 [7, 8], demo_get 1] (kv_of demo_pf demo_service) =
        Inr ([StoreReply m ps, GetReply ms], V)" "replicate 16 1 \<in> fst ` set (kv_entries V)"
    by blast
  from run_refines_kv [OF demo_service_inv, of demo_pf "[demo_put 1 [7, 8], demo_get 1]", unfolded V(1) refines_simps]
  obtain S' where S': "svc_run demo_pf [demo_put 1 [7, 8], demo_get 1] demo_service = Inr ([StoreReply m ps, GetReply ms], S')"
      "svc_inv demo_pf S'" "kv_of demo_pf S' = V"
    by blast
  show ?thesis by (rule that [OF S'(1)]) (use index_contains_kv [OF S'(2)] S'(3) V(2) in simp)
qed

text \<open>C7: Ownership is a sound discipline for the threads of the service: progress and preservation. Call a
  configuration of threads and service state well-formed if every block in use has at most one owner (an index entry, a store that has
  not inserted it yet or a delete that has not returned it yet), every index entry refers to a
  block with verified data that stands in relation \<open>P\<close> to its key, the LRU list is intact, and every thread's local variables
  fit the allocator. In a well-formed configuration every thread can take its next step without a panic or an
  access outside the region, whatever the concurrent map reports as its size, and the result is well-formed again.\<close>

theorem threads_sound:
  assumes "conc_inv pf P (ts, S)" and "i < length ts"
  shows "\<exists>t' S'. tstep pf len (ts ! i) S = Inr (t', S') \<and> conc_inv pf P (ts[i := t'], S')"
  using conc_step [OF assms] by blast

theorem threads_sound_witness:
  "\<exists>t' S'. tstep demo_pf 0 (Begin (demo_put 1 [7, 8])) demo_service = Inr (t', S') \<and>
     conc_inv demo_pf (stored_by demo_pf demo_service [demo_put 1 [7, 8], demo_get 1])
       ([t', Begin (demo_get 1)], S')"
  using threads_sound [OF start_inv [OF demo_service_inv demo_requests], of 0 0] by simp

text \<open>C2: Concurrent requests are safe. Start any number of requests on a well-formed service, none of them a store that
  announces \<open>2 ^ 63\<close> bytes or more, and interleave their handlers in any way. In every configuration that can be reached, no
  thread is about to panic; no block is owned twice, neither by two threads, two index entries, nor one of each, and
  every owned block is allocated, so nothing is freed twice or handed out while in use; and what the index holds under a
  key is intact, passes its checksum and is what the service held there at the start or what one of the
  requests stores under exactly this key.\<close>

theorem interleaving_safe:
  assumes "svc_inv pf S" and "sane_sizes pf rs" and "(par_step pf shard)\<^sup>*\<^sup>* (map Begin rs, S) (ts, S')"
  shows "(\<forall>i len. i < length ts \<longrightarrow> (\<exists>t' S''. tstep pf len (ts ! i) S' = Inr (t', S''))) \<and>
    (\<forall>x y h. h \<in> owned (ts, S') x \<longrightarrow> h \<in> ba_live (svc_allocator S') \<and> (h \<in> owned (ts, S') y \<longrightarrow> x = y)) \<and>
    (\<forall>k e. fmlookup (bi_map (svc_index S')) k = Some e \<longrightarrow>
       (\<exists>d. read_verified pf (svc_allocator S') (entry_handle e) = Inr (Some d) \<and> stored_by pf S rs k d))"
proof -
  have inv: "conc_inv pf (stored_by pf S rs) (ts, S')" by (rule conc_inv_steps [OF assms(3) start_inv [OF assms(1,2)]])
  have "\<exists>d. read_verified pf (svc_allocator S') (entry_handle e) = Inr (Some d) \<and> stored_by pf S rs k d"
    if "fmlookup (svc_map S') k = Some e" for k e
  proof -
    have e: "entry_ok pf (svc_allocator S') e" "stored_by pf S rs k (snd (entry_value pf (svc_allocator S') e))"
      using conc_invD(1) [OF inv] that by (auto simp: shared_ok_def map_ok_def)
    obtain g d where "read_verified pf (svc_allocator S') (entry_handle e) = Inr (Some d)"
        "entry_value pf (svc_allocator S') e = (g, d)" using entry_okD [OF e(1)] by metis
    then show ?thesis using e(2) by simp
  qed
  moreover have "\<exists>t' S''. tstep pf len (ts ! i) S' = Inr (t', S'')" if "i < length ts" for i len
    using conc_step [OF inv that, of len] by blast
  moreover note exclusiveD [OF conc_invD(3) [OF inv]]
  ultimately show ?thesis unfolding svc_map_def by blast
qed

theorem interleaving_safe_witness:
  "\<exists>m ps ms S' e d. (par_step demo_pf (\<lambda>k. 0))\<^sup>*\<^sup>* (map Begin [demo_put 1 [7, 8], demo_get 1], demo_service)
       ([Finished (StoreReply m ps), Finished (GetReply ms)], S') \<and>
     fmlookup (bi_map (svc_index S')) (replicate 16 1) = Some e \<and>
     read_verified demo_pf (svc_allocator S') (entry_handle e) = Inr (Some d) \<and>
     stored_by demo_pf demo_service [demo_put 1 [7, 8], demo_get 1] (replicate 16 1) d"
proof -
  let ?rs = "[demo_put 1 [7, 8], demo_get 1]"
  obtain m ps ms S' where S': "svc_run demo_pf ?rs demo_service = Inr ([StoreReply m ps, GetReply ms], S')"
      "index_contains (replicate 16 1) (svc_index S')" using demo_schedule by metis
  from run_is_schedule [OF S'(1)]
  have run: "(par_step demo_pf (\<lambda>k. 0))\<^sup>*\<^sup>* (map Begin ?rs, demo_service) ([Finished (StoreReply m ps), Finished (GetReply ms)], S')"
    by simp
  obtain e where e: "fmlookup (bi_map (svc_index S')) (replicate 16 1) = Some e"
    using S'(2) by (auto simp: index_contains_def fmlookup_dom_iff)
  from interleaving_safe [OF demo_service_inv demo_requests run, THEN conjunct2, THEN conjunct2, rule_format, OF e]
  show ?thesis using run e by blast
qed

text \<open>C5: Without deletes a get is atomic. Let stores, gets, lookups and the other requests except deletes
  interleave in any way on a well-formed service. Then no thread ever writes to a block that another thread reads or
  writes: the unsynchronised block memory is free of data races. And a get that has found its key streams, to its end or to where
  its client goes away, one header and one value as a whole, and this value is what the service held under the key at
  the start or what one of the requests stores under it. Verification never fails.\<close>

theorem gets_race_free:
  assumes "svc_inv pf S" and "sane_sizes pf rs" and "\<forall>req. DoDelete req \<notin> set rs"
    and "(par_step pf shard)\<^sup>*\<^sup>* (map Begin rs, S) (ts, S')"
  shows "(\<forall>i j. i < length ts \<longrightarrow> j < length ts \<longrightarrow> i \<noteq> j \<longrightarrow> writing (ts ! i) \<inter> (reading (ts ! j) \<union> writing (ts ! j)) = {}) \<and>
    (\<forall>i req n ms. i < length rs \<longrightarrow> rs ! i = DoGet req n \<longrightarrow> ts ! i = Finished (GetReply ms) \<longrightarrow>
       (\<exists>g d. stored_by pf S rs (composite_key pf (gq_model_id req) (gq_prefix_hash req)) d \<and>
          ms = take n (kv_messages (kv_params_of S) g d)))"
proof -
  let ?P = "stored_by pf S rs"
  let ?m = "\<lambda>i. case rs ! i of DoGet req n \<Rightarrow> n | _ \<Rightarrow> 0"
  let ?Q = "\<lambda>i d. case rs ! i of DoGet req n \<Rightarrow> ?P (composite_key pf (gq_model_id req) (gq_prefix_hash req)) d | _ \<Rightarrow> False"
  have start: "no_delete (Begin (rs ! i)) \<and> get_ok pf ?P (?m i) (?Q i) A (Begin (rs ! i)) \<and> promised (Begin (rs ! i)) = {}"
    if "i < length rs" for i A
    by (cases "rs ! i") (use nth_mem [OF that] assms(3) in simp_all)
  have "read_inv pf ?P ?m ?Q (map Begin rs, S)"
    unfolding read_inv_iff using start_inv [OF assms(1,2)] start by simp
  then have inv: "read_inv pf ?P ?m ?Q (ts, S')" by (rule read_inv_steps [OF assms(4)])
  then have ci: "conc_inv pf ?P (ts, S')" and get: "i < length ts \<Longrightarrow> get_ok pf ?P (?m i) (?Q i) (svc_allocator S') (ts ! i)"
      and prom: "i < length ts \<Longrightarrow> h \<in> promised (ts ! i) \<Longrightarrow> settled (ts, S') h" for i h
    unfolding read_inv_iff by blast+
  have "writing (ts ! i) \<inter> (reading (ts ! j) \<union> writing (ts ! j)) = {}" if "i < length ts" "j < length ts" "i \<noteq> j" for i j
  proof -
    have "owns (ts ! i) \<inter> owns (ts ! j) = {}"
      using owned_outside [OF conc_invD(3) [OF ci] that(1), of "Worker j"] that by fastforce
    moreover have "owns (ts ! i) \<inter> promised (ts ! j) = {}" using prom [OF that(2)] that(1) unfolding settled_def by fastforce
    ultimately show ?thesis using writing_owns reading_promised by blast
  qed
  moreover have "\<exists>g d. ?P (composite_key pf (gq_model_id req) (gq_prefix_hash req)) d \<and> ms = take n (kv_messages (kv_params_of S) g d)"
    if "i < length rs" "rs ! i = DoGet req n" "ts ! i = Finished (GetReply ms)" for i req n ms
  proof -
    have sh: "length ts = length rs" "geometry (svc_allocator S') = geometry (svc_allocator S)"
      using par_steps_shape [OF assms(4) start_inv [OF assms(1,2)]] by simp_all
    show ?thesis using get [of i] that sh(1) stream_of_kv [OF sh(2)] by simp
  qed
  ultimately show ?thesis by blast
qed

theorem gets_race_free_witness:
  "\<exists>m ps ms S' g d. (par_step demo_pf (\<lambda>k. 0))\<^sup>*\<^sup>* (map Begin [demo_put 1 [7, 8], demo_get 1], demo_service)
       ([Finished (StoreReply m ps), Finished (GetReply ms)], S') \<and>
     stored_by demo_pf demo_service [demo_put 1 [7, 8], demo_get 1] (replicate 16 1) d \<and>
     ms = kv_messages (kv_params_of demo_service) g d"
proof -
  let ?rs = "[demo_put 1 [7, 8], demo_get 1]"
  obtain m ps ms S' where "svc_run demo_pf ?rs demo_service = Inr ([StoreReply m ps, GetReply ms], S')" using demo_schedule by metis
  from run_is_schedule [OF this]
  have run: "(par_step demo_pf (\<lambda>k. 0))\<^sup>*\<^sup>* (map Begin ?rs, demo_service) ([Finished (StoreReply m ps), Finished (GetReply ms)], S')"
    by simp
  have "\<forall>req. DoDelete req \<notin> set ?rs" by (simp add: demo_put_def demo_get_def)
  note gets_race_free [OF demo_service_inv demo_requests this run, THEN conjunct2, rule_format, of 1]
  from this [of "\<lparr>gq_prefix_hash = replicate 16 1, gq_num_blocks = 1, gq_source_node_id = [], gq_model_id = []\<rparr>" 5 ms]
  obtain g d where "stored_by demo_pf demo_service ?rs (replicate 16 1) d" "ms = take 5 (kv_messages (kv_params_of demo_service) g d)"
    by (auto simp: demo_get_def composite_key_def)
  moreover from this(2) have "ms = kv_messages (kv_params_of demo_service) g d" by (simp add: kv_messages_def)
  ultimately show ?thesis using run by blast
qed

text \<open>C8: Every schedule ends. However the handlers of a set of requests interleave on a well-formed service, also when
  evictions of one store and insertions of another compete and whatever the concurrent map reports as its size, they take
  together no more steps than a bound computed from the requests and the number of entries: a constant per
  request, seven per hash of a batch and three per entry. And they only stop when each has
  replied: as long as one has not, some thread can take a step, so the guards of the map and its writers never deadlock.\<close>

theorem interleaving_terminates:
  assumes "svc_inv pf S" and "sane_sizes pf rs" and "(par_step pf shard ^^ n) (map Begin rs, S) (ts, S')"
  shows "n \<le> sum_list (map request_weight rs) + 3 * index_len (svc_index S) \<and>
    (list_all finished ts \<or> (\<exists>c. par_step pf shard (ts, S') c))"
proof
  note inv = start_inv [OF assms(1,2)]
  have "effort (map Begin rs, S) = sum_list (map request_weight rs) + 3 * index_len (svc_index S)"
    using view_len [OF svc_invD(3) [OF assms(1)]] by (simp add: effort_def svc_lru_def comp_def index_view_def)
  then show "n \<le> sum_list (map request_weight rs) + 3 * index_len (svc_index S)"
    using effort_steps [OF assms(3) inv] by simp
  have "conc_inv pf (stored_by pf S rs) (ts, S')"
    using conc_inv_steps [OF relpowp_imp_rtranclp [OF assms(3)] inv] .
  then show "list_all finished ts \<or> (\<exists>c. par_step pf shard (ts, S') c)"
    using some_step unfolding list_all_iff by blast
qed

theorem interleaving_terminates_witness:
  "\<exists>n m ps ms S'. (par_step demo_pf (\<lambda>k. 0) ^^ n) (map Begin [demo_put 1 [7, 8], demo_get 1], demo_service)
       ([Finished (StoreReply m ps), Finished (GetReply ms)], S') \<and> n \<le> 26"
proof -
  let ?rs = "[demo_put 1 [7, 8], demo_get 1]"
  obtain m ps ms S' where "svc_run demo_pf ?rs demo_service = Inr ([StoreReply m ps, GetReply ms], S')" using demo_schedule by metis
  from rtranclp_imp_relpowp [OF run_is_schedule [OF this]]
  obtain n where run: "(par_step demo_pf (\<lambda>k. 0) ^^ n) (map Begin ?rs, demo_service) ([Finished (StoreReply m ps), Finished (GetReply ms)], S')"
    by auto
  have "index_len (svc_index demo_service) = 0"
    using svc_inv_kv_wf(2) [OF demo_service_inv [of demo_pf]] demo_service_empty [of demo_pf] by (simp add: kv_of_def)
  then have "n \<le> 26"
    using interleaving_terminates [OF demo_service_inv demo_requests run] by (simp add: demo_put_def demo_get_def)
  then show ?thesis using run by blast
qed

end
