(* ===== verification/ThreadRaces.thy ===== *)
theory ThreadRaces
  imports ThreadTheorems GetStream
begin

text \<open>
  What the handlers do not exclude. The read path holds no lock on the block it reads, and the block index
  updates its map and its LRU list under two different locks. Both show as schedules that end in
  a wrong reply or a broken index although every handler reports success.
\<close>

abbreviation no_guards :: "thread list \<Rightarrow> bool" where
  "no_guards ts \<equiv> list_all (\<lambda>t. guard_of t = None) ts"

lemma solo_runs:
  assumes "solo pf n (t, S) = Inr (t', S')" and "i < length ts" and "ts ! i = t" and "no_guards ts"
  shows "(par_step pf shard)\<^sup>*\<^sup>* (ts, S) (ts[i := t'], S')"
  by (rule solo_steps) (use assms in \<open>auto simp: list_all_length\<close>)

lemma request_runs:
  assumes "svc_step pf r S = Inr (x, S')" and "i < length ts" and "ts ! i = Begin r" and "no_guards ts"
  shows "(par_step pf shard)\<^sup>*\<^sup>* (ts, S) (ts[i := Finished x], S')"
  by (rule request_steps [OF assms(1-3)]) (use assms(4) in \<open>auto simp: list_all_length\<close>)

section \<open>A verified read is not a stable read\<close>

text \<open>The task of a \<open>get\<close> up to the point where the data has passed its checksum and is about to be copied.\<close>

lemma solo_step:
  assumes "tstep pf (hm_len (svc_map S)) t S = Inr (t', S')" and "\<exists>k. solo pf k (t', S') = Inr c"
  shows "\<exists>k. solo pf k (t, S) = Inr c"
proof -
  obtain k where "solo pf k (t', S') = Inr c" using assms(2) by blast
  then have "solo pf (Suc k) (t, S) = Inr c" using assms(1) by simp
  then show ?thesis by blast
qed

lemma solo_here: "\<exists>k. solo pf k c = Inr c"
  by (rule exI [of _ 0]) simp

lemma get_to_stream:
  assumes "get pf req S = Inr (Inr e, S1)" and "\<exists>k. solo pf k (StreamHeader e n, S1) = Inr c"
  shows "\<exists>k. solo pf k (Begin (DoGet req n), S) = Inr c"
proof -
  let ?k = "composite_key pf (gq_model_id req) (gq_prefix_hash req)"
  have len: "length (gq_prefix_hash req) = 16"
    using assms(1) by (auto simp: get_def parse_prefix_hash_def split: if_splits)
  then obtain l where l: "fmlookup (svc_map S) ?k = Some e" "touch ?k (svc_lru S) = Inr l" "S1 = hit (set_lru l S)"
    using assms(1)
    by (auto simp: get_def parse_prefix_hash_def Let_def index_lookup_def svc_map_def svc_lru_def set_lru_def split: option.splits)
  have 1: "tstep pf len (Begin (DoGet req n)) S = Inr (MapGet (ForGet n) ?k, S)" for len
    using len by (simp add: begin_find_def parse_prefix_hash_def)
  show ?thesis
    by (rule solo_step [OF 1], rule solo_step, simp add: l(1), rule solo_step, simp add: l(2), rule solo_step, simp)
      (use assms(2) l(3) in simp)
qed

lemma stream_to_copy:
  assumes "ie_blocks e = [location_of (svc_allocator S) (entry_handle e) g]"
    and "read_verified pf (svc_allocator S) (entry_handle e) = Inr (Some d)"
  shows "\<exists>hdr. unat (hdr_data_size hdr) = length d \<and>
    (\<exists>k. solo pf k (StreamHeader e (Suc n), S) =
      Inr (CopyData (location_of (svc_allocator S) (entry_handle e) g) hdr [] n (take 1 (stream_of (svc_allocator S) g d)), S))"
proof -
  let ?loc = "location_of (svc_allocator S) (entry_handle e) g" and ?ms = "take 1 (stream_of (svc_allocator S) g d)"
  have loc: "loc_block_size ?loc = of_nat (mp_block_size (ba_pool (svc_allocator S)))" "loc_generation ?loc = g"
    by (simp_all add: location_of_def)
  have h: "block_handle_of ?loc = entry_handle e" by (metis assms(1) entry_handle_def list.sel(1))
  have "unat (loc_block_size ?loc) < 2 ^ 64" using unsigned_less [of "loc_block_size ?loc", where ?'a = nat] by simp
  then have 1: "tstep pf len (StreamHeader e (Suc n)) S = Inr (ReadHeader [?loc] n ?ms, S)" for len
    using loc by (simp add: assms(1) Let_def stream_of_def)
  have bg: "block_get pf (\<lambda>_. True) (svc_allocator S) ?loc ?ms d"
    using assms(2) h by (auto simp: block_get_def)
  obtain bs where bs: "get_slice (ba_pool (svc_allocator S)) (entry_handle e) = Inr bs"
    using assms(2) by (auto simp: read_verified_def)
  obtain hdr where hdr: "read_from bs = Some hdr" "HEADER_SIZE + unat (hdr_data_size hdr) \<le> length bs"
      "d = seg HEADER_SIZE (unat (hdr_data_size hdr)) bs"
    using read_verifiedD [OF assms(2) bs] by metis
  have 2: "tstep pf len (ReadHeader [?loc] n ?ms) S = Inr (VerifyData ?loc hdr [] n ?ms, S)" for len
    using bs hdr(1,2) h by (simp add: svc_pool_def)
  have 3: "tstep pf len (VerifyData ?loc hdr [] n ?ms) S = Inr (CopyData ?loc hdr [] n ?ms, S)" for len
    using read_points_step(2) [OF bg, unfolded h, OF bs hdr(1)] .
  have "length d = unat (hdr_data_size hdr)" using hdr(2,3) by (simp add: seg_def)
  moreover have "\<exists>k. solo pf k (StreamHeader e (Suc n), S) = Inr (CopyData ?loc hdr [] n ?ms, S)"
    by (rule solo_step [OF 1], rule solo_step [OF 2], rule solo_step [OF 3], rule solo_here)
  ultimately show ?thesis by metis
qed

lemma copy_to_end:
  assumes "read_verified pf (svc_allocator S) (block_handle_of loc) = Inr (Some d)" and "unat (hdr_data_size hdr) \<le> length d"
  shows "\<exists>k. solo pf k (CopyData loc hdr [] (Suc n) ms, S) =
    Inr (Finished (GetReply (ms @ [Inr (GetData (take (unat (hdr_data_size hdr)) d))])), S)"
proof -
  obtain bs where bs: "get_slice (ba_pool (svc_allocator S)) (block_handle_of loc) = Inr bs"
    using assms(1) by (auto simp: read_verified_def)
  obtain hdr' :: block_header where hdr': "HEADER_SIZE + unat (hdr_data_size hdr') \<le> length bs" "d = seg HEADER_SIZE (unat (hdr_data_size hdr')) bs"
    by (rule read_verifiedD [OF assms(1) bs]) blast
  have "seg HEADER_SIZE (unat (hdr_data_size hdr)) bs = take (unat (hdr_data_size hdr)) d"
    using hdr' assms(2) by (auto simp: seg_def min_def split: if_splits)
  then have 1: "tstep pf len (CopyData loc hdr [] (Suc n) ms) S =
      Inr (ReadHeader [] n (ms @ [Inr (GetData (take (unat (hdr_data_size hdr)) d))]), S)" for len
    using bs by (simp add: svc_pool_def)
  show ?thesis by (rule solo_step [OF 1], rule solo_step, simp) (rule solo_here)
qed

lemma get_value:
  assumes "svc_inv pf S" and "get pf req S = Inr (Inr e, S1)"
    and "map_of (kv_entries (kv_of pf S)) (composite_key pf (gq_model_id req) (gq_prefix_hash req)) = Some (g, d)"
  shows "ie_blocks e = [location_of (svc_allocator S1) (entry_handle e) g]"
    and "read_verified pf (svc_allocator S1) (entry_handle e) = Inr (Some d)"
    and "kv_params_of S1 = kv_params_of S" and "as_pressure_level (cs_state S1) = as_pressure_level (cs_state S)"
proof -
  note S1 = get_entry [OF assms(1,2)]
  obtain g' d' where ok: "ie_blocks e = [location_of (svc_allocator S1) (entry_handle e) g']"
      "read_verified pf (svc_allocator S1) (entry_handle e) = Inr (Some d')"
    using entry_okD [OF svc_invD(4) [OF S1(1,2)]] by (metis snd_conv)
  have step: "svc_step pf (DoGet req 2) S = Inr (GetReply (take 2 (kv_messages (kv_params_of S1) g' d')), S1)"
    using assms(2) get_task_ok [of pf "\<lambda>_. svc_allocator S1" e d' _ 2, OF ok(2,1)]
    by (simp add: kv_messages_def location_of_def)
  note kv = step_kv [OF assms(1) step]
  have "take 2 (kv_messages (kv_params_of S1) g' d') = take 2 (kv_messages (kv_params_of S) g d)"
    using get_kv [OF assms(1) step] assms(3) by auto
  then have "g' = g" "d' = d" by (simp_all add: kv_messages_def)
  then show "ie_blocks e = [location_of (svc_allocator S1) (entry_handle e) g]"
      "read_verified pf (svc_allocator S1) (entry_handle e) = Inr (Some d)"
    using ok by simp_all
  show "kv_params_of S1 = kv_params_of S" by (rule kv(2))
  obtain I where "S1 = hit (set_index I S)"
    using assms(2) S1(3) by (auto simp: get_def parse_prefix_hash_def Let_def split: option.splits)
  then show "as_pressure_level (cs_state S1) = as_pressure_level (cs_state S)" by (simp add: hit_def)
qed

lemma delete_present:
  assumes "svc_inv pf S" and "length k = 16" and "index_contains k (svc_index S)"
  obtains m S' where "svc_step pf (DoDelete \<lparr>dq_prefix_hash = k\<rparr>) S = Inr (DeleteReply m, S')"
    and "delete \<lparr>dq_prefix_hash = k\<rparr> S = Inr (Inr m, S')" and "svc_inv pf S'" and "kv_params_of S' = kv_params_of S"
    and "ps_used_blocks (ba_stats (svc_allocator S')) < mp_total_blocks (ba_pool (svc_allocator S'))"
    and "as_pressure_level (cs_state S') = as_pressure_level (cs_state S)"
proof -
  let ?del = "\<lparr>dq_prefix_hash = k\<rparr>"
  have len: "length (dq_prefix_hash ?del) = 16" using assms(2) by simp
  have used: "kv_used (kv_of pf S) - of_bool (index_contains (dq_prefix_hash ?del) (svc_index S)) = kv_used (kv_of pf S) - 1"
    using assms(3) by simp
  obtain m S' where S': "delete ?del S = Inr (Inr m, S')" "svc_inv pf S'" "kv_used (kv_of pf S') = kv_used (kv_of pf S) - 1"
    by (rule delete_kv [OF assms(1) len, unfolded used])
  have step: "svc_step pf (DoDelete ?del) S = Inr (DeleteReply m, S')" using S'(1) by simp
  note kv = step_kv [OF assms(1) step]
  have "kv_entries (kv_of pf S) \<noteq> []" using index_contains_kv [OF assms(1)] assms(3) by force
  then have "0 < kv_used (kv_of pf S)" using svc_inv_kv_wf(1) [OF assms(1)] by (cases "kv_entries (kv_of pf S)") (simp_all add: kv_wf_def)
  then have "kv_used (kv_of pf S') < kp_total_blocks (kv_params_of S')"
    using svc_inv_kv_wf(3) [OF assms(1)] S'(3) kv(2) by simp
  then have "ps_used_blocks (ba_stats (svc_allocator S')) < mp_total_blocks (ba_pool (svc_allocator S'))"
    using used_blocks [OF S'(2)] by (simp add: kv_of_def kv_params_of_def)
  moreover have "as_pressure_level (cs_state S') = as_pressure_level (cs_state S)"
    using arg_cong [OF kv(3), of "\<lambda>r. case r of Inr (x, V) \<Rightarrow> kv_level V"]
    by (auto simp: kv_delete_def kv_of_def split: sum.splits option.splits)
  ultimately show ?thesis using that step S' kv(2) by blast
qed

lemma get_to_copy:
  assumes "svc_inv pf S" and "gq_model_id req = []" and "length (gq_prefix_hash req) = 16"
    and "map_of (kv_entries (kv_of pf S)) (gq_prefix_hash req) = Some (g, d)"
  obtains e S1 loc hdr n1 where "svc_inv pf S1" and "(gq_prefix_hash req, e) \<in> set (index_view (svc_index S1))"
    and "kv_params_of S1 = kv_params_of S" and "as_pressure_level (cs_state S1) = as_pressure_level (cs_state S)"
    and "block_handle_of loc = entry_handle e" and "unat (hdr_data_size hdr) = length d"
    and "solo pf n1 (Begin (DoGet req (Suc n)), S) = Inr (CopyData loc hdr [] n (take 1 (kv_messages (kv_params_of S) g d)), S1)"
proof -
  let ?k = "gq_prefix_hash req"
  have key: "composite_key pf (gq_model_id req) ?k = ?k" by (simp add: composite_key_def assms(2))
  have "index_contains ?k (svc_index S)" using index_contains_kv [OF assms(1)] map_of_SomeD [OF assms(4)] by force
  then obtain e S1 where e: "get pf req S = Inr (Inr e, S1)" using get_found [OF assms(1,3)] key by metis
  note S1 = get_entry [OF assms(1) e, unfolded key] and ok = get_value [OF assms(1) e, unfolded key, OF assms(4)]
  have stream: "stream_of (svc_allocator S1) g d = kv_messages (kv_params_of S) g d"
    using S1(4) by (simp add: stream_of_def kv_messages_def)
  let ?loc = "location_of (svc_allocator S1) (entry_handle e) g"
  obtain hdr where hdr: "unat (hdr_data_size hdr) = length d"
      "\<exists>k. solo pf k (StreamHeader e (Suc n), S1) = Inr (CopyData ?loc hdr [] n (take 1 (kv_messages (kv_params_of S) g d)), S1)"
    using stream_to_copy [OF ok(1,2)] stream by metis
  have "block_handle_of ?loc = entry_handle e" using ok(1) by (metis entry_handle_def list.sel(1))
  then show ?thesis using that [OF S1(1,2) ok(3,4) _ hdr(1)] get_to_stream [OF e hdr(2)] by blast
qed

lemma demo_entry:
  obtains m ps S1 where "svc_step demo_pf (demo_put 1 [7]) demo_service = Inr (StoreReply m ps, S1)" and "svc_inv demo_pf S1"
    and "kv_entries (kv_of demo_pf S1) = [(replicate 16 1, 1, [7])]" and "mp_block_size (ba_pool (svc_allocator S1)) = 32"
    and "as_pressure_level (cs_state S1) < PRESSURE_REJECT" and "bi_capacity (svc_index S1) = 4"
    and "ps_used_blocks (ba_stats (svc_allocator S1)) < mp_total_blocks (ba_pool (svc_allocator S1))"
proof -
  obtain m ps S1 where S1: "svc_step demo_pf (demo_put 1 [7]) demo_service = Inr (StoreReply m ps, S1)" "svc_inv demo_pf S1"
      "kv_params_of S1 = kv_params_of demo_service" "as_pressure_level (cs_state S1) = 0"
      "ps_used_blocks (ba_stats (svc_allocator S1)) = 1"
    using demo_step by metis
  have "kv_entries (kv_of demo_pf S1) = [(replicate 16 1, 1, [7])]"
    using arg_cong [OF step_kv(3) [OF demo_service_inv S1(1)], of "\<lambda>r. case r of Inr (x, V) \<Rightarrow> kv_entries V"]
      demo_service_params demo_service_empty [of demo_pf]
    by (simp add: demo_put_def kv_store_def demo_put_args kv_put_def Let_def cache_insert_def HEADER_SIZE_def PRESSURE_REJECT_def)
  moreover have "mp_block_size (ba_pool (svc_allocator S1)) = 32" "mp_total_blocks (ba_pool (svc_allocator S1)) = 4"
      "bi_capacity (svc_index S1) = 4"
    using arg_cong [OF S1(3), of kp_block_size] arg_cong [OF S1(3), of kp_total_blocks] arg_cong [OF S1(3), of kp_max_entries]
      demo_service_params by simp_all
  ultimately show ?thesis using that [OF S1(1,2)] S1(4,5) by (simp add: PRESSURE_REJECT_def)
qed

text \<open>C16: Verification does not protect what a client gets. Let a key without a model be cached with data \<open>d\<close>, and let a get of this
  key, a delete of it and a store of data \<open>d'\<close>, at least as long, under any key run concurrently. There is a
  schedule in which all three succeed and the client of the get receives the header of the old entry and then the first bytes of
  \<open>d'\<close>, cut to the length of \<open>d\<close>: the checksum is computed over the bytes of the block while they are still
  those of \<open>d\<close>, then the delete returns the block to the pool, the store takes it, and only then are the bytes
  copied for the client. What it receives was never verified and is in general no value that anybody stored.\<close>

theorem verified_read_race:
  assumes "svc_inv pf S" and "gq_model_id req = []" and "length (gq_prefix_hash req) = 16"
    and "map_of (kv_entries (kv_of pf S)) (gq_prefix_hash req) = Some (g, d)"
    and "as_pressure_level (cs_state S) < PRESSURE_REJECT" and "store_args pf stream = Inr (Inr (k', d'))"
    and "length d \<le> length d'" and "length d' \<le> ba_max_data (svc_allocator S)"
  shows "\<exists>m m' ps S'. (par_step pf shard)\<^sup>*\<^sup>*
    ([Begin (DoGet req (Suc (Suc n))), Begin (DoDelete \<lparr>dq_prefix_hash = gq_prefix_hash req\<rparr>), Begin (DoStore now stream)], S)
    ([Finished (GetReply (kv_messages (kv_params_of S) g (take (length d) d'))), Finished (DeleteReply m), Finished (StoreReply m' ps)], S')"
proof -
  let ?k = "gq_prefix_hash req" and ?del = "DoDelete \<lparr>dq_prefix_hash = gq_prefix_hash req\<rparr>"
  let ?ms = "kv_messages (kv_params_of S) g"
  obtain e S1 loc hdr n1 where S1: "svc_inv pf S1" "(?k, e) \<in> set (index_view (svc_index S1))"
      "kv_params_of S1 = kv_params_of S" "as_pressure_level (cs_state S1) = as_pressure_level (cs_state S)"
    and hdr: "block_handle_of loc = entry_handle e" "unat (hdr_data_size hdr) = length d"
    and got: "solo pf n1 (Begin (DoGet req (Suc (Suc n))), S) = Inr (CopyData loc hdr [] (Suc n) (take 1 (?ms d)), S1)"
    by (rule get_to_copy [OF assms(1-4)])
  let ?copy = "CopyData loc hdr [] (Suc n) (take 1 (?ms d))"
  have "index_contains ?k (svc_index S1)" using index_contains_kv [OF S1(1)] S1(2) by (force simp: kv_of_def)
  then obtain m S2 where del: "svc_step pf ?del S1 = Inr (DeleteReply m, S2)" "delete \<lparr>dq_prefix_hash = ?k\<rparr> S1 = Inr (Inr m, S2)"
      "svc_inv pf S2" "kv_params_of S2 = kv_params_of S1"
      "ps_used_blocks (ba_stats (svc_allocator S2)) < mp_total_blocks (ba_pool (svc_allocator S2))"
      "as_pressure_level (cs_state S2) = as_pressure_level (cs_state S1)"
    using delete_present [OF S1(1) assms(3)] by metis
  have pre: "as_pressure_level (cs_state S2) < PRESSURE_REJECT" "length d' \<le> ba_max_data (svc_allocator S2)"
    using assms(5,8) S1(4) del(6) arg_cong [OF trans [OF del(4) S1(3)], of kp_block_size] by (simp_all add: kv_params_of_def)
  obtain m' ps S3 where st: "svc_step pf (DoStore now stream) S2 = Inr (StoreReply m' ps, S3)"
    using store_succeeds [OF del(3) pre(1) assms(6) pre(2) del(5)] by metis
  then obtain ts where "store pf now stream S2 = Inr (Inr m', ts, S3)" using step_storeD by blast
  from block_reused [OF S1(1,2) assms(3) del(2) this assms(6)]
  have "read_verified pf (svc_allocator S3) (block_handle_of loc) = Inr (Some d')" using hdr(1) by simp
  then obtain n2 where copied: "solo pf n2 (?copy, S3) = Inr (Finished (GetReply (?ms (take (length d) d'))), S3)"
    using copy_to_end [of pf S3 loc d' hdr n "take 1 (?ms d)"] hdr(2) assms(7) by (auto simp: kv_messages_def)
  let ?ts = "[Begin (DoGet req (Suc (Suc n))), Begin ?del, Begin (DoStore now stream)]"
  have "(par_step pf shard)\<^sup>*\<^sup>* (?ts, S) ([?copy, Begin ?del, Begin (DoStore now stream)], S1)"
    using solo_runs [OF got, of 0 ?ts] by simp
  also have "(par_step pf shard)\<^sup>*\<^sup>* \<dots> ([?copy, Finished (DeleteReply m), Begin (DoStore now stream)], S2)"
    using request_runs [OF del(1), of 1 "[?copy, Begin ?del, Begin (DoStore now stream)]"] by simp
  also have "(par_step pf shard)\<^sup>*\<^sup>* \<dots> ([?copy, Finished (DeleteReply m), Finished (StoreReply m' ps)], S3)"
    using request_runs [OF st, of 2 "[?copy, Finished (DeleteReply m), Begin (DoStore now stream)]"] by simp
  also have "(par_step pf shard)\<^sup>*\<^sup>* \<dots>
      ([Finished (GetReply (?ms (take (length d) d'))), Finished (DeleteReply m), Finished (StoreReply m' ps)], S3)"
    using solo_runs [OF copied, of 0 "[?copy, Finished (DeleteReply m), Finished (StoreReply m' ps)]"] by simp
  finally show ?thesis by blast
qed


theorem verified_read_race_witness:
  "\<exists>m ps S1 g m1 m2 ps2 S'. svc_step demo_pf (demo_put 1 [7]) demo_service = Inr (StoreReply m ps, S1) \<and>
     (par_step demo_pf (\<lambda>k. 0))\<^sup>*\<^sup>* ([Begin (demo_get 1), Begin (demo_delete 1), Begin (demo_put 2 [8, 9])], S1)
       ([Finished (GetReply (kv_messages (kv_params_of S1) g [8])), Finished (DeleteReply m1), Finished (StoreReply m2 ps2)], S')"
proof -
  obtain m ps S1 where S1: "svc_step demo_pf (demo_put 1 [7]) demo_service = Inr (StoreReply m ps, S1)" "svc_inv demo_pf S1"
      "kv_entries (kv_of demo_pf S1) = [(replicate 16 1, 1, [7])]" "mp_block_size (ba_pool (svc_allocator S1)) = 32"
      "as_pressure_level (cs_state S1) < PRESSURE_REJECT"
    using demo_entry by metis
  then have g: "map_of (kv_entries (kv_of demo_pf S1)) (replicate 16 1) = Some (1, [7])" by simp
  show ?thesis
    using verified_read_race [OF S1(2), of "\<lparr>gq_prefix_hash = replicate 16 1, gq_num_blocks = 1, gq_source_node_id = [], gq_model_id = []\<rparr>"
        1 "[7]" _ "replicate 16 2" "[8, 9]" "\<lambda>k. 0" 3 None] g S1(1,4,5) demo_put_args [of demo_pf 2 "[8, 9]"]
    by (fastforce simp: HEADER_SIZE_def demo_get_def demo_delete_def demo_put_def numeral_eq_Suc)
qed

section \<open>Two locks for one index\<close>

text \<open>A store of a key that a delete has just taken out of the map, but not yet out of the LRU list.\<close>

lemma store_between:
  assumes "svc_inv pf S" and "fmlookup (svc_map S) k = Some e" and "as_pressure_level (cs_state S) < PRESSURE_REJECT"
    and "store_args pf stream = Inr (Inr (k, d))" and "length d \<le> ba_max_data (svc_allocator S)"
    and "ps_used_blocks (ba_stats (svc_allocator S)) < mp_total_blocks (ba_pool (svc_allocator S))"
    and "index_len (svc_index S) \<le> bi_capacity (svc_index S)"
  obtains m ps S' where "svc_step pf (DoStore now stream) (set_map (fmdrop k (svc_map S)) S) = Inr (StoreReply m ps, S')"
    and "lru_inv (svc_lru S')" and "lru_order (svc_lru S') = k # remove1 k (lru_order (svc_lru S))"
    and "k |\<in>| fmdom (svc_map S')" and "store_inv (svc_allocator S')" and "ba_live (svc_allocator S) \<subseteq> ba_live (svc_allocator S')"
proof -
  let ?S = "set_map (fmdrop k (svc_map S)) S" and ?loc = "\<lambda>loc. \<lparr>ie_blocks = [loc], ie_created_at = monotonic_now now\<rparr>"
  note inv = svc_invD [OF assms(1)]
  obtain loc h A where w: "allocate_and_write pf (svc_allocator S) d = Inr (Some (loc, h), A)" "store_inv A"
      "ba_live A = insert h (ba_live (svc_allocator S))"
  proof (cases rule: ba.wr_cases [OF inv(1), of pf d, case_names full stored])
    case full
    then show ?thesis using assms(5,6) used_blocks [OF assms(1)] by simp
  qed (rule that)
  have "lru_inv (svc_lru S)" using inv(3) by (simp add: index_inv_def svc_lru_def)
  then obtain l where l: "touch k (svc_lru S) = Inr l" "lru_inv l" "lru_order l = k # remove1 k (lru_order (svc_lru S))"
    using lru.tc_ok by blast
  have room: "hm_len (fmdrop k (svc_map S)) < bi_capacity (svc_index S)"
    using assms(7) card_Diff1_less [OF finite_fmdom', of k "svc_map S"] fmdom'I [OF assms(2)]
    by (simp add: index_len_def svc_map_def hm_len_eq_card)
  let ?I = "(svc_index S)\<lparr>bi_map := fmupd k (?loc loc) (fmdrop k (svc_map S)), bi_lru := l\<rparr>"
  have ins: "index_insert k [loc] (monotonic_now now) (svc_index ?S) = Inr ([], ?I)"
    using l(1) room by (simp add: index_insert_def evict_while.simps Let_def svc_lru_def set_map_def)
  have S: "svc_allocator ?S = svc_allocator S" "as_pressure_level (cs_state ?S) = as_pressure_level (cs_state S)"
    by (simp_all add: set_map_def)
  have "\<exists>m ts S'. store_data pf now k d ?S = Inr (Inr m, ts, S') \<and> svc_index S' = ?I \<and> svc_allocator S' = A"
    unfolding store_data_def S(1) w(1) using ins by (simp add: Let_def)
  then obtain m ts S' where S': "store_data pf now k d ?S = Inr (Inr m, ts, S')" "svc_index S' = ?I" "svc_allocator S' = A"
    by blast
  then have "svc_step pf (DoStore now stream) ?S = Inr (StoreReply m (map (\<lambda>t. (pt_key t, pt_generation t)) ts), S')"
    using assms(3,4) S(2) by (simp add: store_split)
  then show ?thesis by (rule that) (use S' w(2,3) l(2,3) in \<open>auto simp: svc_lru_def svc_map_def\<close>)
qed

lemma delete_rest:
  assumes "lru_inv (svc_lru S)" and "store_inv (svc_allocator S)" and "ie_blocks e = [loc]"
    and "block_handle_of loc \<in> ba_live (svc_allocator S)"
  obtains n S' where "solo pf n (LruRemove k e, S) = Inr (Finished (DeleteReply \<lparr>dr_success = True, dr_blocks_freed = 1\<rparr>), S')"
    and "svc_map S' = svc_map S" and "lru_order (svc_lru S') = remove1 k (lru_order (svc_lru S))"
proof -
  obtain l where l: "lru_remove k (svc_lru S) = Inr l" "lru_order l = remove1 k (lru_order (svc_lru S))"
    using lru.rm_ok [OF assms(1), of k] by auto
  obtain A where A: "ba_deallocate (svc_allocator S) (block_handle_of loc) = Inr A"
    using ba.de_ok [OF assms(2,4)] by blast
  have "\<exists>n. solo pf n (LruRemove k e, S) =
      Inr (Finished (DeleteReply \<lparr>dr_success = True, dr_blocks_freed = 1\<rparr>), set_allocator A (set_lru l S))"
    by (rule solo_step, simp add: l(1) assms(3), rule solo_step, simp add: A, rule solo_step, simp) (rule solo_here)
  then show ?thesis using that l(2) by auto
qed

text \<open>C17: The index can lose track of an entry. Let a key be cached, and let a delete of this key and a store under it
  run concurrently, with a free block and within the capacity of the index. There is a schedule in which both report success, the
  map has the new entry, but the LRU list does not contain the key: the delete takes the old entry out of the map, the store
  inserts and touches, and then the delete removes the key from the LRU list. The eviction loop only ever removes
  keys of the LRU list, so until somebody asks for this key again its entry and its block are out of reach of eviction, and
  the capacity of the index is no bound any more.\<close>

theorem delete_store_race:
  assumes "svc_inv pf S" and "length k = 16" and "index_contains k (svc_index S)"
    and "as_pressure_level (cs_state S) < PRESSURE_REJECT"
    and "store_args pf stream = Inr (Inr (k, d))" and "length d \<le> ba_max_data (svc_allocator S)"
    and "ps_used_blocks (ba_stats (svc_allocator S)) < mp_total_blocks (ba_pool (svc_allocator S))"
    and "index_len (svc_index S) \<le> bi_capacity (svc_index S)"
  shows "\<exists>m ps S'. (par_step pf shard)\<^sup>*\<^sup>* ([Begin (DoDelete \<lparr>dq_prefix_hash = k\<rparr>), Begin (DoStore now stream)], S)
      ([Finished (DeleteReply \<lparr>dr_success = True, dr_blocks_freed = 1\<rparr>), Finished (StoreReply m ps)], S') \<and>
    index_contains k (svc_index S') \<and> k \<notin> set (lru_order (bi_lru (svc_index S')))"
proof -
  let ?del = "DoDelete \<lparr>dq_prefix_hash = k\<rparr>"
  obtain e where e: "fmlookup (svc_map S) k = Some e" using assms(3) by (auto simp: index_contains_def svc_map_def fmlookup_dom_iff)
  let ?S1 = "set_map (fmdrop k (svc_map S)) S"
  have 1: "tstep pf len (Begin ?del) S = Inr (MapRemove k, S)" for len using assms(2) by (simp add: parse_prefix_hash_def)
  have "\<exists>n. solo pf n (Begin ?del, S) = Inr (LruRemove k e, ?S1)"
    by (rule solo_step [OF 1], rule solo_step, simp add: e) (rule solo_here)
  then obtain n1 where removed: "solo pf n1 (Begin ?del, S) = Inr (LruRemove k e, ?S1)" by blast
  obtain m ps S2 where st: "svc_step pf (DoStore now stream) ?S1 = Inr (StoreReply m ps, S2)"
      "lru_inv (svc_lru S2)" "lru_order (svc_lru S2) = k # remove1 k (lru_order (svc_lru S))" "k |\<in>| fmdom (svc_map S2)"
      "store_inv (svc_allocator S2)" "ba_live (svc_allocator S) \<subseteq> ba_live (svc_allocator S2)"
    by (rule store_between [OF assms(1) e assms(4-8)])
  have "entry_ok pf (svc_allocator S) e" by (rule map_entries(2) [OF assms(1) e])
  then obtain loc where loc: "ie_blocks e = [loc]" "block_handle_of loc \<in> ba_live (svc_allocator S2)"
    using entry_okD st(6) by (metis entry_handle_def list.sel(1) subsetD)
  let ?done = "Finished (DeleteReply \<lparr>dr_success = True, dr_blocks_freed = 1\<rparr>)"
  obtain n2 S3 where freed: "solo pf n2 (LruRemove k e, S2) = Inr (?done, S3)" and S3: "svc_map S3 = svc_map S2"
      "lru_order (svc_lru S3) = remove1 k (lru_order (svc_lru S2))"
    by (rule delete_rest [OF st(2,5) loc])
  have "(par_step pf shard)\<^sup>*\<^sup>* ([Begin ?del, Begin (DoStore now stream)], S) ([LruRemove k e, Begin (DoStore now stream)], ?S1)"
    using solo_runs [OF removed, of 0 "[Begin ?del, Begin (DoStore now stream)]"] by simp
  also have "(par_step pf shard)\<^sup>*\<^sup>* \<dots> ([LruRemove k e, Finished (StoreReply m ps)], S2)"
    using request_runs [OF st(1), of 1 "[LruRemove k e, Begin (DoStore now stream)]"] by simp
  also have "(par_step pf shard)\<^sup>*\<^sup>* \<dots> ([?done, Finished (StoreReply m ps)], S3)"
    using solo_runs [OF freed, of 0 "[LruRemove k e, Finished (StoreReply m ps)]"] by simp
  finally have run: "(par_step pf shard)\<^sup>*\<^sup>* ([Begin ?del, Begin (DoStore now stream)], S) ([?done, Finished (StoreReply m ps)], S3)" .
  have "distinct (lru_order (svc_lru S))"
    using lru.distinct_order svc_invD(3) [OF assms(1)] by (simp add: index_inv_def svc_lru_def)
  then have "index_contains k (svc_index S3)" "k \<notin> set (lru_order (bi_lru (svc_index S3)))"
    using st(3,4) S3 by (simp_all add: index_contains_def svc_map_def svc_lru_def)
  then show ?thesis using run by blast
qed

theorem delete_store_race_witness:
  "\<exists>m ps S1 m2 ps2 S'. svc_step demo_pf (demo_put 1 [7]) demo_service = Inr (StoreReply m ps, S1) \<and>
     (par_step demo_pf (\<lambda>k. 0))\<^sup>*\<^sup>* ([Begin (demo_delete 1), Begin (demo_put 1 [8])], S1)
       ([Finished (DeleteReply \<lparr>dr_success = True, dr_blocks_freed = 1\<rparr>), Finished (StoreReply m2 ps2)], S') \<and>
     index_contains (replicate 16 1) (svc_index S') \<and> replicate 16 1 \<notin> set (lru_order (bi_lru (svc_index S')))"
proof -
  obtain m ps S1 where S1: "svc_step demo_pf (demo_put 1 [7]) demo_service = Inr (StoreReply m ps, S1)" "svc_inv demo_pf S1"
      "kv_entries (kv_of demo_pf S1) = [(replicate 16 1, 1, [7])]" "mp_block_size (ba_pool (svc_allocator S1)) = 32"
      "as_pressure_level (cs_state S1) < PRESSURE_REJECT" "bi_capacity (svc_index S1) = 4"
      "ps_used_blocks (ba_stats (svc_allocator S1)) < mp_total_blocks (ba_pool (svc_allocator S1))"
    using demo_entry by metis
  have "index_contains (replicate 16 1) (svc_index S1)" using index_contains_kv [OF S1(2)] S1(3) by simp
  moreover have "index_len (svc_index S1) = 1"
    using svc_inv_kv_wf(2) [OF S1(2)] arg_cong [OF S1(3), of length] by (simp add: kv_of_def)
  ultimately have "\<exists>m2 ps2 S'. (par_step demo_pf (\<lambda>k. 0))\<^sup>*\<^sup>* ([Begin (demo_delete 1), Begin (demo_put 1 [8])], S1)
       ([Finished (DeleteReply \<lparr>dr_success = True, dr_blocks_freed = 1\<rparr>), Finished (StoreReply m2 ps2)], S') \<and>
     index_contains (replicate 16 1) (svc_index S') \<and> replicate 16 1 \<notin> set (lru_order (bi_lru (svc_index S')))"
    unfolding demo_delete_def demo_put_def
    by (intro delete_store_race [OF S1(2) _ _ S1(5) demo_put_args [of demo_pf 1 "[8]"] _ S1(7)])
      (use S1(4,6) in \<open>simp_all add: HEADER_SIZE_def\<close>)
  then show ?thesis using S1(1) by blast
qed

end
