(* ===== verification/PyClient.thy ===== *)
theory PyClient
  imports ServiceProps
begin

text \<open>
  The Python clients of the agent: \<^verbatim>\<open>python/cmx-client/src/cmx_client\<close> (\<^verbatim>\<open>hashing.py\<close>, \<^verbatim>\<open>client.py\<close>,
  \<^verbatim>\<open>async_client.py\<close>).

  A method is one definition from its arguments and the state of the agent to a result or an exception and
  the new state. How a call reaches the agent is gRPC's business: the generated stub is an argument \<open>stub\<close> of every method, from a
  call and a state to a reply and a state, and the locale \<open>cache_stub\<close> says what the methods rely on.
  A refused call is an \<open>RpcError\<close>. \<open>agent_stub\<close> is the stub of an agent whose calls arrive and are answered in time, behind a channel
  with the default options of gRPC, which the clients do not change: a message of more than 4 MiB is not received. The
  interpretation \<open>agent\<close> shows the laws for it. The agent sends the data of a block as one message, so the limit is applied to these;
  messages without block data (locations, flags, counters) are taken to be below it, which fails only for batches of tens of
  thousands of hashes.

  Python integers are integers, \<open>bytes\<close> are lists of bytes, strings are their UTF-8 encoding. A location in a lookup reply is its
  node and its generation, as in \<open>KvSpec\<close>. Addresses and channels are in \<open>PyUrl\<close>; timeouts are not modelled.
\<close>

section \<open>Exceptions\<close>

datatype py_exn = RpcError status | RuntimeError string | ValueError | StructError

type_synonym ('a, 's) py = "(py_exn + 'a) \<times> 's"

section \<open>Slices and ranges\<close>

text \<open>\<open>xs[i : i + c]\<close> for \<open>i\<close> in \<open>range(0, len(xs), c)\<close>, with a positive \<open>c\<close>.\<close>

definition py_chunks :: "nat \<Rightarrow> 'a list \<Rightarrow> 'a list list" where
  "py_chunks c xs = map (\<lambda>k. take c (drop (k * c) xs)) [0..<(length xs + c - 1) div c]"

text \<open>\<open>xs[n:]\<close> and \<open>xs[:n]\<close>, where a negative \<open>n\<close> counts from the end.\<close>

definition py_index :: "'a list \<Rightarrow> int \<Rightarrow> nat" where
  "py_index xs n = (if n < 0 then nat (int (length xs) + n) else nat n)"

definition py_from :: "int \<Rightarrow> 'a list \<Rightarrow> 'a list" where
  "py_from n xs = drop (py_index xs n) xs"

definition py_upto :: "int \<Rightarrow> 'a list \<Rightarrow> 'a list" where
  "py_upto n xs = take (py_index xs n) xs"

section \<open>Hashing\<close>

text \<open>\<open>struct.pack\<close> with \<open>i\<close>: a little-endian signed 32-bit integer, or an error if it does not fit.\<close>

definition pack_i32 :: "int list \<Rightarrow> py_exn + bytes" where
  "pack_i32 ts =
     (if list_all (\<lambda>t. - (2 ^ 31) \<le> t \<and> t < 2 ^ 31) ts
      then Inr (concat (map (\<lambda>t. le_encode 4 (word_of_int t :: 32 word)) ts))
      else Inl StructError)"

fun hash_blocks :: "platform \<Rightarrow> int list list \<Rightarrow> hash16 list \<Rightarrow> py_exn + hash16 list" where
  "hash_blocks pf [] hashes = Inr hashes"
| "hash_blocks pf (block # bs) hashes =
     (case pack_i32 block of
        Inl x \<Rightarrow> Inl x
      | Inr raw \<Rightarrow> hash_blocks pf bs (hashes @ [take 16 (sha256_of pf raw)]))"

text \<open>\<open>range\<close> refuses the step zero, and is empty for a negative one.\<close>

definition hash_token_ids :: "platform \<Rightarrow> int list \<Rightarrow> int \<Rightarrow> py_exn + hash16 list" where
  "hash_token_ids pf token_ids block_size =
     (if block_size = 0 then Inl ValueError
      else if block_size < 0 then Inr []
      else hash_blocks pf (py_chunks (nat block_size) token_ids) [])"

definition hash_key :: "platform \<Rightarrow> string \<Rightarrow> hash16" where
  "hash_key pf key = take 16 (sha256_of pf (str_bytes key))"

section \<open>Calls\<close>

datatype rpc =
    RpcLookup lookup_request
  | RpcBatchLookup batch_lookup_request
  | RpcStore "store_payload list"
  | RpcGet get_request
  | RpcDelete delete_request
  | RpcStats
  | RpcHealth

type_synonym 's stub = "rpc \<Rightarrow> 's \<Rightarrow> reply \<times> 's"

text \<open>A reply of another type than the call has cannot be parsed.\<close>

definition unexpected :: py_exn where
  "unexpected = RpcError (Status (OtherCode 13) ''failed to deserialize response'')"

fun rpc_error :: "reply \<Rightarrow> py_exn" where
  "rpc_error (Refused st) = RpcError st"
| "rpc_error r = unexpected"

text \<open>\<open>for response in stub.Get(...)\<close>: the data messages, until the stream ends or fails.\<close>

fun drain :: "(status + get_payload) list \<Rightarrow> bytes list \<Rightarrow> py_exn + bytes list" where
  "drain [] chunks = Inr chunks"
| "drain (Inl st # ms) chunks = Inl (RpcError st)"
| "drain (Inr (GetHead h) # ms) chunks = drain ms chunks"
| "drain (Inr (GetData d) # ms) chunks = drain ms (chunks @ [d])"

section \<open>The synchronous client\<close>

record lookup_result =
  rs_found :: bool
  rs_blocks :: "stamp list"
  rs_is_local :: bool

definition CHUNK_SIZE :: nat where
  "CHUNK_SIZE = 1024 * 1024"

definition client_lookup :: "'s stub \<Rightarrow> bytes \<Rightarrow> u32 \<Rightarrow> 's \<Rightarrow> (lookup_result, 's) py" where
  "client_lookup stub prefix_hash num_blocks s =
     (case stub (RpcLookup \<lparr>lq_prefix_hash = prefix_hash, lq_num_blocks = num_blocks, lq_model_id = []\<rparr>) s of
        (LookupReply found is_local blocks, s') \<Rightarrow>
          (Inr \<lparr>rs_found = found, rs_blocks = blocks, rs_is_local = is_local\<rparr>, s')
      | (r, s') \<Rightarrow> (Inl (rpc_error r), s'))"

definition client_batch_lookup :: "'s stub \<Rightarrow> bytes list \<Rightarrow> string \<Rightarrow> 's \<Rightarrow> (bool list, 's) py" where
  "client_batch_lookup stub prefix_hashes model_id s =
     (case stub (RpcBatchLookup \<lparr>bq_prefix_hashes = prefix_hashes, bq_model_id = model_id\<rparr>) s of
        (BatchReply found blocks, s') \<Rightarrow> (Inr found, s')
      | (r, s') \<Rightarrow> (Inl (rpc_error r), s'))"

definition request_iterator :: "bytes \<Rightarrow> bytes \<Rightarrow> string \<Rightarrow> u32 \<Rightarrow> store_payload list" where
  "request_iterator prefix_hash data model_id num_blocks =
     StoreHead \<lparr>sh_prefix_hash = prefix_hash, sh_num_blocks = num_blocks, sh_total_size = of_nat (length data),
                sh_model_id = model_id\<rparr> #
     map StoreData (py_chunks CHUNK_SIZE data)"

definition client_store :: "'s stub \<Rightarrow> bytes \<Rightarrow> bytes \<Rightarrow> string \<Rightarrow> u32 \<Rightarrow> 's \<Rightarrow> (bool \<times> u64, 's) py" where
  "client_store stub prefix_hash data model_id num_blocks s =
     (case stub (RpcStore (request_iterator prefix_hash data model_id num_blocks)) s of
        (StoreReply response published, s') \<Rightarrow> (Inr (sr_success response, sr_generation_id response), s')
      | (r, s') \<Rightarrow> (Inl (rpc_error r), s'))"

text \<open>No chunk at all is \<open>None\<close>, an empty chunk is an empty value.\<close>

definition joined :: "bytes list \<Rightarrow> bytes option" where
  "joined chunks = (if chunks = [] then None else Some (concat chunks))"

definition client_get :: "'s stub \<Rightarrow> bytes \<Rightarrow> u32 \<Rightarrow> string \<Rightarrow> 's \<Rightarrow> (bytes option, 's) py" where
  "client_get stub prefix_hash num_blocks source_node_id s =
     (case stub (RpcGet \<lparr>gq_prefix_hash = prefix_hash, gq_num_blocks = num_blocks,
                         gq_source_node_id = source_node_id, gq_model_id = []\<rparr>) s of
        (GetReply ms, s') \<Rightarrow> (map_sum id joined (drain ms []), s')
      | (r, s') \<Rightarrow> (Inl (rpc_error r), s'))"

definition client_delete :: "'s stub \<Rightarrow> bytes \<Rightarrow> 's \<Rightarrow> (bool \<times> u64, 's) py" where
  "client_delete stub prefix_hash s =
     (case stub (RpcDelete \<lparr>dq_prefix_hash = prefix_hash\<rparr>) s of
        (DeleteReply response, s') \<Rightarrow> (Inr (dr_success response, dr_blocks_freed response), s')
      | (r, s') \<Rightarrow> (Inl (rpc_error r), s'))"

definition client_stats :: "'s stub \<Rightarrow> 's \<Rightarrow> (stats_response, 's) py" where
  "client_stats stub s =
     (case stub RpcStats s of
        (StatsReply response, s') \<Rightarrow> (Inr response, s')
      | (r, s') \<Rightarrow> (Inl (rpc_error r), s'))"

definition client_health :: "'s stub \<Rightarrow> 's \<Rightarrow> (health_response, 's) py" where
  "client_health stub s =
     (case stub RpcHealth s of
        (HealthReply response, s') \<Rightarrow> (Inr response, s')
      | (r, s') \<Rightarrow> (Inl (rpc_error r), s'))"

section \<open>The asynchronous client\<close>

text \<open>Channel and stub are set by \<open>connect\<close> and dropped by \<open>close\<close>.\<close>

record async_client =
  ac_channel :: bool
  ac_stub :: bool

definition async_new :: async_client where
  "async_new = \<lparr>ac_channel = False, ac_stub = False\<rparr>"

definition async_connect :: "async_client \<Rightarrow> async_client" where
  "async_connect c = (if ac_channel c then c else \<lparr>ac_channel = True, ac_stub = True\<rparr>)"

definition async_close :: "async_client \<Rightarrow> async_client" where
  "async_close c = (if ac_channel c then \<lparr>ac_channel = False, ac_stub = False\<rparr> else c)"

definition ensure_connected :: "async_client \<Rightarrow> ('s \<Rightarrow> ('a, 's) py) \<Rightarrow> 's \<Rightarrow> ('a, 's) py" where
  "ensure_connected c body s =
     (if ac_stub c then body s else (Inl (RuntimeError ''Not connected. Call connect() first.''), s))"

definition async_batch_lookup :: "async_client \<Rightarrow> 's stub \<Rightarrow> bytes list \<Rightarrow> string \<Rightarrow> 's \<Rightarrow> (bool list, 's) py" where
  "async_batch_lookup c stub prefix_hashes model_id =
     ensure_connected c (\<lambda>s.
       case stub (RpcBatchLookup \<lparr>bq_prefix_hashes = prefix_hashes, bq_model_id = model_id\<rparr>) s of
         (BatchReply found blocks, s') \<Rightarrow> (Inr found, s')
       | (r, s') \<Rightarrow> (Inl (rpc_error r), s'))"

definition async_store :: "async_client \<Rightarrow> 's stub \<Rightarrow> bytes \<Rightarrow> bytes \<Rightarrow> string \<Rightarrow> u32 \<Rightarrow> 's \<Rightarrow> (bool \<times> u64, 's) py" where
  "async_store c stub prefix_hash data model_id num_blocks =
     ensure_connected c (\<lambda>s.
       case stub (RpcStore (request_iterator prefix_hash data model_id num_blocks)) s of
         (StoreReply response published, s') \<Rightarrow> (Inr (sr_success response, sr_generation_id response), s')
       | (r, s') \<Rightarrow> (Inl (rpc_error r), s'))"

text \<open>\<open>except AioRpcError\<close>: the status \<open>NOT_FOUND\<close> becomes \<open>None\<close>, also in the middle of the stream.\<close>

fun or_none :: "py_exn + bytes option \<Rightarrow> py_exn + bytes option" where
  "or_none (Inl (RpcError (Status NotFound msg))) = Inr None"
| "or_none r = r"

definition async_get :: "async_client \<Rightarrow> 's stub \<Rightarrow> bytes \<Rightarrow> string \<Rightarrow> 's \<Rightarrow> (bytes option, 's) py" where
  "async_get c stub prefix_hash model_id =
     ensure_connected c (\<lambda>s.
       case stub (RpcGet \<lparr>gq_prefix_hash = prefix_hash, gq_num_blocks = 0, gq_source_node_id = [],
                          gq_model_id = model_id\<rparr>) s of
         (GetReply ms, s') \<Rightarrow> (or_none (map_sum id joined (drain ms [])), s')
       | (r, s') \<Rightarrow> (or_none (Inl (rpc_error r)), s'))"

definition async_lookup :: "async_client \<Rightarrow> 's stub \<Rightarrow> bytes \<Rightarrow> string \<Rightarrow> 's \<Rightarrow> (bool \<times> bool, 's) py" where
  "async_lookup c stub prefix_hash model_id =
     ensure_connected c (\<lambda>s.
       case stub (RpcLookup \<lparr>lq_prefix_hash = prefix_hash, lq_num_blocks = 0, lq_model_id = model_id\<rparr>) s of
         (LookupReply found is_local blocks, s') \<Rightarrow> (Inr (found, is_local), s')
       | (r, s') \<Rightarrow> (Inl (rpc_error r), s'))"

section \<open>The agent behind the stub\<close>

text \<open>
  A call that arrives, is handled and is answered. The client reads a stream to its end: a header and at most
  \<open>2 ^ 32 - 1\<close> blocks, the range of the block count in the header. A handler that panics resets the call. \<open>clock\<close> is the agent's.
\<close>

fun request_of :: "u64 option \<Rightarrow> u64 \<Rightarrow> rpc \<Rightarrow> request" where
  "request_of wall instant (RpcLookup req) = DoLookup req"
| "request_of wall instant (RpcBatchLookup req) = DoBatch req"
| "request_of wall instant (RpcStore ms) = DoStore wall (map (Inr \<circ> Some) ms)"
| "request_of wall instant (RpcGet req) = DoGet req (2 ^ 32)"
| "request_of wall instant (RpcDelete req) = DoDelete req"
| "request_of wall instant RpcStats = DoStats"
| "request_of wall instant RpcHealth = DoHealth instant"

text \<open>
  The channel, in bytes: a \<open>data\<close> field of a \<open>GetResponse\<close> is one byte of tag, its length as a base-128 number and the
  bytes. At a message over the limit the call ends with \<open>RESOURCE_EXHAUSTED\<close> (the text of the status is abbreviated).
\<close>

definition MAX_RECEIVE :: nat where
  "MAX_RECEIVE = 4 * 1024 * 1024"

fun varint_len :: "nat \<Rightarrow> nat" where
  "varint_len n = (if n < 128 then 1 else Suc (varint_len (n div 128)))"

definition data_message_size :: "bytes \<Rightarrow> nat" where
  "data_message_size d = 1 + varint_len (length d) + length d"

fun receive :: "(status + get_payload) list \<Rightarrow> (status + get_payload) list" where
  "receive [] = []"
| "receive (Inl st # ms) = [Inl st]"
| "receive (Inr (GetHead h) # ms) = Inr (GetHead h) # receive ms"
| "receive (Inr (GetData d) # ms) =
     (if data_message_size d > MAX_RECEIVE then [Inl (Status ResourceExhausted ''Received message larger than max'')]
      else Inr (GetData d) # receive ms)"

fun received :: "reply \<Rightarrow> reply" where
  "received (GetReply ms) = GetReply (receive ms)"
| "received r = r"

definition agent_stub :: "platform \<Rightarrow> (cache_service \<Rightarrow> u64 option \<times> u64) \<Rightarrow> cache_service stub" where
  "agent_stub pf clock r S =
     (case svc_step pf (request_of (fst (clock S)) (snd (clock S)) r) S of
        Inl f \<Rightarrow> (Refused (Status (OtherCode 1) ''stream reset''), S)
      | Inr (x, S') \<Rightarrow> (received x, S'))"

section \<open>Chunks\<close>

lemma chunks_Nil [simp]: "py_chunks c [] = []"
  by (cases c) (simp_all add: py_chunks_def)

lemma chunks_step:
  assumes "0 < c" and "xs \<noteq> []"
  shows "py_chunks c xs = take c xs # py_chunks c (drop c xs)"
proof -
  have "(length xs + c - 1) div c = Suc ((length (drop c xs) + c - 1) div c)"
  proof (cases "c \<le> length xs")
    case True
    then obtain n where "length xs = n + c" using le_Suc_ex [of c "length xs"] by auto
    then show ?thesis using assms(1) div_add_self2 [of c "n + c - 1"] by simp
  next
    case False
    obtain y ys where "xs = y # ys" using assms(2) by (cases xs) auto
    then have "(length xs + c - 1) div c = 1" using False by (intro div_nat_eqI) auto
    then show ?thesis using False assms(1) by simp
  qed
  then have "[0..<(length xs + c - 1) div c] = 0 # map Suc [0..<(length (drop c xs) + c - 1) div c]"
    by (metis map_Suc_upt upt_conv_Cons zero_less_Suc)
  then show ?thesis unfolding py_chunks_def by (simp add: comp_def add.commute)
qed

lemma concat_chunks:
  assumes "0 < c"
  shows "concat (py_chunks c xs) = xs"
proof (induction xs rule: length_induct)
  case (1 xs)
  then show ?case using assms by (cases "xs = []") (simp_all add: chunks_step)
qed

lemma length_chunks: "0 < c \<Longrightarrow> length (py_chunks c xs) = (length xs + c - 1) div c"
  by (simp add: py_chunks_def)

lemma chunks_append:
  assumes "0 < c"
  shows "length xs = k * c \<Longrightarrow> py_chunks c (xs @ ys) = py_chunks c xs @ py_chunks c ys"
proof (induction k arbitrary: xs)
  case (Suc k)
  then have "c \<le> length xs" "xs \<noteq> []" using assms by auto
  then show ?case using Suc.IH [of "drop c xs"] Suc.prems assms by (simp add: chunks_step)
qed simp

lemma collect_data: "collect_chunks (map (Inr \<circ> Some \<circ> StoreData) cs) data = Inr (data @ concat cs)"
  by (induction cs arbitrary: data) simp_all

text \<open>What the agent makes of the messages of a store.\<close>

lemma store_args_iterator:
  assumes "length h = 16" and "length data < 2 ^ 63"
  shows "store_args pf (map (Inr \<circ> Some) (request_iterator h data m n)) = Inr (Inr (composite_key pf m h, data))"
proof -
  have "unat (of_nat (length data) :: u64) < 2 ^ 63" using assms(2) by (simp add: unsigned_of_nat take_bit_nat_eq_self)
  moreover have "collect_chunks (map (Inr \<circ> Some) (map StoreData (py_chunks CHUNK_SIZE data))) [] = Inr data"
    using collect_data [of "py_chunks CHUNK_SIZE data" "[]"] by (simp add: comp_assoc concat_chunks CHUNK_SIZE_def)
  ultimately show ?thesis
    using assms(1) by (simp add: store_args_def request_iterator_def store_header_of_def parse_prefix_hash_def)
qed

text \<open>What the channel lets through: all but the five bytes of tag and length.\<close>

definition deliverable :: "bytes \<Rightarrow> bool" where
  "deliverable d \<longleftrightarrow> length d \<le> MAX_RECEIVE - 5"

lemma varint_len_bounds: "n < 128 ^ k \<Longrightarrow> 0 < k \<Longrightarrow> varint_len n \<le> k" "128 ^ k \<le> n \<Longrightarrow> k < varint_len n"
proof -
  show "n < 128 ^ k \<Longrightarrow> 0 < k \<Longrightarrow> varint_len n \<le> k"
  proof (induction n arbitrary: k rule: varint_len.induct)
    case (1 n)
    show ?case
    proof (cases "n < 128")
      case False
      then obtain j where "k = Suc j" "0 < j" using "1.prems" by (cases k; cases "k - 1") auto
      then show ?thesis using "1.IH" [OF False, of j] "1.prems" False by (simp add: less_mult_imp_div_less mult.commute)
    qed (use "1.prems" in simp)
  qed
  show "128 ^ k \<le> n \<Longrightarrow> k < varint_len n"
  proof (induction n arbitrary: k rule: varint_len.induct)
    case (1 n)
    show ?case
    proof (cases "n < 128")
      case True
      moreover have "(128 :: nat) \<le> 128 ^ k" if "0 < k" using that by (cases k) simp_all
      ultimately have "k = 0" using "1.prems" by (cases "k = 0") simp_all
      then show ?thesis by simp
    next
      case False
      have "128 ^ (k - 1) \<le> n div 128"
        using "1.prems" False by (cases k) (simp_all add: less_eq_div_iff_mult_less_eq mult.commute)
      then show ?thesis using "1.IH" [OF False, of "k - 1"] False by simp
    qed
  qed
qed

declare varint_len.simps [simp del]

lemma deliverable_iff: "data_message_size d \<le> MAX_RECEIVE \<longleftrightarrow> deliverable d"
proof (cases "length d < 128 ^ 3")
  case True
  then show ?thesis using varint_len_bounds(1) [of "length d" 3] by (simp add: data_message_size_def deliverable_def MAX_RECEIVE_def)
next
  case False
  then have "3 < varint_len (length d)" by (intro varint_len_bounds(2)) simp
  then have "varint_len (length d) = 4" if "length d < 128 ^ 4" using varint_len_bounds(1) [OF that] by simp
  then show ?thesis
    by (cases "length d < 128 ^ 4") (auto simp: data_message_size_def deliverable_def MAX_RECEIVE_def)
qed

section \<open>What clients rely on\<close>

text \<open>
  \<open>content\<close> is what the agent has cached, by key; \<open>remote\<close> the keys it knows to be cached elsewhere; \<open>key\<close> derives a key
  from model and hash; \<open>room\<close> says that a value of some length can be stored.
\<close>

locale cache_stub =
  fixes stub :: "'s stub" and ok :: "'s \<Rightarrow> bool" and content :: "'s \<Rightarrow> hash16 \<Rightarrow> bytes option"
    and remote :: "'s \<Rightarrow> hash16 \<Rightarrow> bool" and key :: "string \<Rightarrow> hash16 \<Rightarrow> hash16" and room :: "'s \<Rightarrow> nat \<Rightarrow> bool"
  assumes key_raw: "key [] h = h"
    and lookup_law: "ok s \<Longrightarrow> length (lq_prefix_hash lreq) = 16 \<Longrightarrow> k = key (lq_model_id lreq) (lq_prefix_hash lreq) \<Longrightarrow>
      \<exists>bs s'. stub (RpcLookup lreq) s = (LookupReply (content s k \<noteq> None \<or> remote s k) (content s k \<noteq> None) bs, s') \<and>
        ok s' \<and> content s' = content s \<and> remote s' = remote s"
    and batch_law: "ok s \<Longrightarrow> \<forall>h \<in> set (bq_prefix_hashes breq). length h = 16 \<Longrightarrow>
      \<exists>bs s'. stub (RpcBatchLookup breq) s =
          (BatchReply (map (\<lambda>h. content s (key (bq_model_id breq) h) \<noteq> None) (bq_prefix_hashes breq)) bs, s') \<and>
        ok s' \<and> content s' = content s \<and> remote s' = remote s"
    and get_law: "ok s \<Longrightarrow> length (gq_prefix_hash greq) = 16 \<Longrightarrow> k = key (gq_model_id greq) (gq_prefix_hash greq) \<Longrightarrow>
      \<exists>hd msg big s'. stub (RpcGet greq) s =
          (case content s k of
             None \<Rightarrow> Refused (Status NotFound msg)
           | Some d \<Rightarrow> GetReply [Inr (GetHead hd), if deliverable d then Inr (GetData d) else Inl (Status ResourceExhausted big)], s') \<and>
        ok s' \<and> content s' = content s \<and> remote s' = remote s"
    and store_law: "ok s \<Longrightarrow> length h = 16 \<Longrightarrow> length d < 2 ^ 63 \<Longrightarrow>
      stub (RpcStore (request_iterator h d m n)) s = (x, s') \<Longrightarrow>
      ok s' \<and> remote s' = remote s \<and>
      ((\<exists>resp ps. x = StoreReply resp ps \<and> sr_success resp \<and> content s' (key m h) = Some d \<and>
          (\<forall>k. k \<noteq> key m h \<longrightarrow> content s' k = content s k \<or> content s' k = None)) \<or>
       (\<exists>st. x = Refused st \<and> content s' = content s))"
    and store_room: "ok s \<Longrightarrow> length h = 16 \<Longrightarrow> length d < 2 ^ 63 \<Longrightarrow> room s (length d) \<Longrightarrow>
      \<exists>resp ps s'. stub (RpcStore (request_iterator h d m n)) s = (StoreReply resp ps, s')"
begin

lemma client_lookup_ok:
  assumes "ok s" and "length h = 16"
  obtains bs s' where "client_lookup stub h n s =
      (Inr \<lparr>rs_found = content s h \<noteq> None \<or> remote s h, rs_blocks = bs, rs_is_local = content s h \<noteq> None\<rparr>, s')"
    and "ok s'" and "content s' = content s" and "remote s' = remote s"
  using lookup_law [OF assms(1), of "\<lparr>lq_prefix_hash = h, lq_num_blocks = n, lq_model_id = []\<rparr>" h] assms(2) that
  by (auto simp: client_lookup_def key_raw)

lemma client_get_ok:
  assumes "ok s" and "length h = 16"
  obtains msg big s' where "client_get stub h n src s =
      (case content s h of
         None \<Rightarrow> Inl (RpcError (Status NotFound msg))
       | Some d \<Rightarrow> if deliverable d then Inr (Some d) else Inl (RpcError (Status ResourceExhausted big)), s')"
    and "ok s'" and "content s' = content s" and "remote s' = remote s"
proof -
  let ?req = "\<lparr>gq_prefix_hash = h, gq_num_blocks = n, gq_source_node_id = src, gq_model_id = []\<rparr>"
  obtain hd msg big s' where "stub (RpcGet ?req) s =
      (case content s h of
         None \<Rightarrow> Refused (Status NotFound msg)
       | Some d \<Rightarrow> GetReply [Inr (GetHead hd), if deliverable d then Inr (GetData d) else Inl (Status ResourceExhausted big)], s')"
      "ok s'" "content s' = content s" "remote s' = remote s"
    using get_law [OF assms(1), of ?req h] assms(2) by (auto simp: key_raw)
  then show ?thesis using that [of msg big s'] by (cases "content s h") (auto simp: client_get_def joined_def)
qed

lemma async_get_ok:
  assumes "ok s" and "length h = 16" and "ac_stub c"
  obtains big s' where "async_get c stub h m s =
      (case content s (key m h) of
         None \<Rightarrow> Inr None
       | Some d \<Rightarrow> if deliverable d then Inr (Some d) else Inl (RpcError (Status ResourceExhausted big)), s')"
    and "ok s'" and "content s' = content s" and "remote s' = remote s"
proof -
  let ?req = "\<lparr>gq_prefix_hash = h, gq_num_blocks = 0, gq_source_node_id = [], gq_model_id = m\<rparr>"
  obtain hd msg big s' where "stub (RpcGet ?req) s =
      (case content s (key m h) of
         None \<Rightarrow> Refused (Status NotFound msg)
       | Some d \<Rightarrow> GetReply [Inr (GetHead hd), if deliverable d then Inr (GetData d) else Inl (Status ResourceExhausted big)], s')"
      "ok s'" "content s' = content s" "remote s' = remote s"
    using get_law [OF assms(1), of ?req "key m h"] assms(2) by auto
  then show ?thesis
    using that [of big s'] assms(3) by (cases "content s (key m h)") (auto simp: async_get_def ensure_connected_def joined_def)
qed

lemma client_store_ok:
  assumes "ok s" and "length h = 16" and "length d < 2 ^ 63" and "client_store stub h d m n s = (x, s')"
  shows "ok s' \<and> remote s' = remote s \<and>
    ((\<exists>g. x = Inr (True, g) \<and> content s' (key m h) = Some d \<and>
        (\<forall>k. k \<noteq> key m h \<longrightarrow> content s' k = content s k \<or> content s' k = None)) \<or>
     (\<exists>st. x = Inl (RpcError st) \<and> content s' = content s))"
proof -
  obtain r s1 where r: "stub (RpcStore (request_iterator h d m n)) s = (r, s1)" by force
  show ?thesis using store_law [OF assms(1-3) r] assms(4) r by (cases r) (auto simp: client_store_def)
qed

lemma client_store_room:
  assumes "ok s" and "length h = 16" and "length d < 2 ^ 63" and "room s (length d)"
  shows "\<exists>g s'. client_store stub h d m n s = (Inr (True, g), s')"
proof -
  obtain resp ps s' where r: "stub (RpcStore (request_iterator h d m n)) s = (StoreReply resp ps, s')"
    using store_room [OF assms] by blast
  then have "sr_success resp" using store_law [OF assms(1-3) r] by auto
  then show ?thesis using r by (simp add: client_store_def)
qed

text \<open>The two clients store in the same way.\<close>

lemma async_store_eq: "ac_stub c \<Longrightarrow> async_store c stub h d m n s = client_store stub h d m n s"
  by (simp add: async_store_def ensure_connected_def client_store_def)

lemma async_batch_ok:
  assumes "ok s" and "\<forall>h \<in> set hs. length h = 16" and "ac_stub c"
  obtains s' where "async_batch_lookup c stub hs m s = (Inr (map (\<lambda>h. content s (key m h) \<noteq> None) hs), s')"
    and "ok s'" and "content s' = content s" and "remote s' = remote s"
  using batch_law [OF assms(1), of "\<lparr>bq_prefix_hashes = hs, bq_model_id = m\<rparr>"] assms(2,3) that
  by (auto simp: async_batch_lookup_def ensure_connected_def)

end

section \<open>The agent keeps the contract\<close>

definition kv_cached :: "kv_state \<Rightarrow> hash16 \<Rightarrow> bytes option" where
  "kv_cached V k = map_option snd (map_of (kv_entries V) k)"

definition kv_elsewhere :: "kv_state \<Rightarrow> hash16 \<Rightarrow> bool" where
  "kv_elsewhere V k \<longleftrightarrow> (case Option.bind (kv_remote V) (remote_lookup k) of Some (b # bs) \<Rightarrow> True | _ \<Rightarrow> False)"

definition has_room :: "cache_service \<Rightarrow> nat \<Rightarrow> bool" where
  "has_room S n \<longleftrightarrow>
     as_pressure_level (cs_state S) < PRESSURE_REJECT \<and> n \<le> ba_max_data (svc_allocator S) \<and>
     ps_used_blocks (ba_stats (svc_allocator S)) < mp_total_blocks (ba_pool (svc_allocator S))"

text \<open>A step that leaves both as they are.\<close>

definition kv_same :: "kv_state \<Rightarrow> kv_state \<Rightarrow> bool" where
  "kv_same V V' \<longleftrightarrow> kv_cached V' = kv_cached V \<and> kv_elsewhere V' = kv_elsewhere V"

lemma find_same:
  assumes "kv_wf V" and "kv_find k V = (r, V1)"
  shows "kv_same V (kv_hit V1)" and "kv_same V (kv_miss V1)" and "kv_wf V1" and "kv_cached V k = map_option snd r"
proof -
  note f = kv_find_frame [OF assms]
  have "kv_remote V1 = kv_remote V" using assms(2) by (auto simp: kv_find_def split: prod.splits)
  then show "kv_same V (kv_hit V1)" "kv_same V (kv_miss V1)"
    using f(2) by (simp_all add: kv_same_def kv_cached_def kv_elsewhere_def kv_frame_def kv_hit_def kv_miss_def fun_eq_iff)
  show "kv_wf V1" using kv_frame_wf [OF f(2) assms(1)] .
  show "kv_cached V k = map_option snd r" using f(1) by (simp add: kv_cached_def)
qed

lemma kv_lookup_reply:
  assumes "kv_wf V" and "length (lq_prefix_hash req) = 16" and "k = composite_key pf (lq_model_id req) (lq_prefix_hash req)"
  shows "\<exists>bs V'. kv_lookup pf P req V = (LookupReply (kv_cached V k \<noteq> None \<or> kv_elsewhere V k) (kv_cached V k \<noteq> None) bs, V') \<and>
    kv_same V V'"
proof -
  obtain r V1 where f: "kv_find k V = (r, V1)" by force
  note same = find_same [OF assms(1) f]
  show ?thesis
  proof (cases r)
    case None
    then show ?thesis using assms(2,3) f same
      by (auto simp: kv_lookup_def parse_prefix_hash_def kv_elsewhere_def split: option.splits list.splits)
  next
    case (Some v)
    then show ?thesis using assms(2,3) f same(1,4) by (cases v) (auto simp: kv_lookup_def parse_prefix_hash_def)
  qed
qed

lemma kv_batch_reply:
  assumes "kv_wf V" and "\<forall>h \<in> set hs. length h = 16"
  shows "\<exists>bs V'. kv_batch pf P m hs V = (Inr (map (\<lambda>h. kv_cached V (composite_key pf m h) \<noteq> None) hs, bs), V') \<and> kv_same V V'"
  using assms
proof (induction hs arbitrary: V)
  case (Cons h hs)
  obtain r V1 where f: "kv_find (composite_key pf m h) V = (r, V1)" by force
  note same = find_same [OF Cons.prems(1) f]
  have "kv_wf (kv_hit V1)" "kv_wf (kv_miss V1)" using same(3) by (simp_all add: kv_wf_def kv_hit_def kv_miss_def)
  then obtain bs bs' V2 V3 where b:
      "kv_batch pf P m hs (kv_hit V1) = (Inr (map (\<lambda>h. kv_cached V (composite_key pf m h) \<noteq> None) hs, bs), V2)" "kv_same V V2"
      "kv_batch pf P m hs (kv_miss V1) = (Inr (map (\<lambda>h. kv_cached V (composite_key pf m h) \<noteq> None) hs, bs'), V3)" "kv_same V V3"
    using Cons.IH [of "kv_hit V1"] Cons.IH [of "kv_miss V1"] Cons.prems(2) same(1,2) unfolding kv_same_def by force
  show ?case using Cons.prems(2) f b same(4) by (cases r) (auto simp: parse_prefix_hash_def)
qed (simp add: kv_same_def)

lemma kv_get_reply:
  assumes "kv_wf V" and "length (gq_prefix_hash req) = 16" and "k = composite_key pf (gq_model_id req) (gq_prefix_hash req)"
  shows "\<exists>hd msg V'. kv_get pf P req (2 ^ 32) V =
      (case kv_cached V k of
         None \<Rightarrow> Refused (Status NotFound msg)
       | Some d \<Rightarrow> GetReply [Inr (GetHead hd), Inr (GetData d)], V') \<and> kv_same V V'"
proof -
  obtain r V1 where f: "kv_find k V = (r, V1)" by force
  note same = find_same [OF assms(1) f]
  show ?thesis
  proof (cases r)
    case (Some v)
    then show ?thesis using assms(2,3) f same(1) same(4)
      by (cases v) (auto simp: kv_get_def parse_prefix_hash_def kv_messages_def)
  qed (use assms(2,3) f same(2) same(4) in \<open>auto simp: kv_get_def parse_prefix_hash_def\<close>)
qed

lemma cache_insert_content:
  assumes "cache_insert c k v xs = (ev, es)" and "distinct (map fst xs)"
  shows "map_of es k = Some v" and "k' \<noteq> k \<Longrightarrow> map_of es k' = map_of xs k' \<or> map_of es k' = None"
proof -
  show "map_of es k = Some v" using assms(1) by (auto simp: cache_insert_def split: if_splits)
  have "map_of xs k' = Some w" if "map_of (take n xs) k' = Some w" for n w
    using in_set_takeD [OF map_of_SomeD [OF that]] assms(2) by simp
  then show "k' \<noteq> k \<Longrightarrow> map_of es k' = map_of xs k' \<or> map_of es k' = None"
    using assms(1) by (auto simp: cache_insert_def split: if_splits)
qed

lemma agent_stub_kv:
  assumes "svc_inv pf S"
    and "kv_step pf (kv_params_of S) (request_of (fst (clock S)) (snd (clock S)) r) (kv_of pf S) = Inr (x, V)"
  shows "\<exists>S'. agent_stub pf clock r S = (received x, S') \<and> svc_inv pf S' \<and> kv_of pf S' = V"
  using step_refines_kv [OF assms(1), of "request_of (fst (clock S)) (snd (clock S)) r"] assms(2)
  by (auto simp: agent_stub_def)

lemma agent_reply:
  assumes "svc_inv pf S" and "kv_same (kv_of pf S) V"
    and "kv_step pf (kv_params_of S) (request_of (fst (clock S)) (snd (clock S)) r) (kv_of pf S) = Inr (x, V)"
  shows "\<exists>S'. agent_stub pf clock r S = (received x, S') \<and> svc_inv pf S' \<and> kv_cached (kv_of pf S') = kv_cached (kv_of pf S) \<and>
    kv_elsewhere (kv_of pf S') = kv_elsewhere (kv_of pf S)"
  using agent_stub_kv [OF assms(1), of clock r x V] assms(2,3) by (auto simp: kv_same_def)

lemma agent_store:
  assumes "svc_inv pf S" and "length h = 16" and "length d < 2 ^ 63"
    and "agent_stub pf clock (RpcStore (request_iterator h d m n)) S = (x, S')"
  shows "svc_inv pf S' \<and> kv_elsewhere (kv_of pf S') = kv_elsewhere (kv_of pf S) \<and>
    ((\<exists>resp ps. x = StoreReply resp ps \<and> sr_success resp \<and> kv_cached (kv_of pf S') (composite_key pf m h) = Some d \<and>
        (\<forall>k. k \<noteq> composite_key pf m h \<longrightarrow>
           kv_cached (kv_of pf S') k = kv_cached (kv_of pf S) k \<or> kv_cached (kv_of pf S') k = None)) \<or>
     (\<exists>st. x = Refused st \<and> kv_cached (kv_of pf S') = kv_cached (kv_of pf S)))"
proof -
  let ?stream = "map (Inr \<circ> Some) (request_iterator h d m n)" and ?k = "composite_key pf m h"
  note args = store_args_iterator [OF assms(2,3), of pf m n]
  have "\<exists>yV. kv_store pf (kv_params_of S) ?stream (kv_of pf S) = Inr yV" by (simp add: kv_store_def args)
  then obtain y V where kv: "kv_store pf (kv_params_of S) ?stream (kv_of pf S) = Inr (y, V)" by force
  then have S': "x = received y" "svc_inv pf S'" "kv_of pf S' = V"
    using agent_stub_kv [OF assms(1), of clock "RpcStore (request_iterator h d m n)" y V] assms(4) by auto
  show ?thesis
    using kv
  proof (cases rule: kv_store_cases)
    case (put k' d' ev es)
    have k: "k' = ?k" "d' = d" using put(2) args by simp_all
    note ins = cache_insert_content [OF put(6)] and wf = svc_inv_kv_wf(1) [OF assms(1), unfolded kv_wf_def]
    have "kv_cached V ?k = Some d" using ins(1) wf put(7) k by (simp add: kv_cached_def)
    moreover have "kv_cached V q = kv_cached (kv_of pf S) q \<or> kv_cached V q = None" if "q \<noteq> ?k" for q
      using ins(2) [of q] wf put(7) k that by (auto simp: kv_cached_def)
    moreover have "kv_elsewhere V = kv_elsewhere (kv_of pf S)" using put(7) by (simp add: kv_elsewhere_def fun_eq_iff)
    ultimately show ?thesis using S' put(5) by auto
  qed (use S' in auto)
qed

lemma agent_store_room:
  assumes "svc_inv pf S" and "length h = 16" and "length d < 2 ^ 63" and "has_room S (length d)"
  shows "\<exists>resp ps S'. agent_stub pf clock (RpcStore (request_iterator h d m n)) S = (StoreReply resp ps, S')"
proof (rule store_succeeds [OF assms(1) _ store_args_iterator [OF assms(2,3), of pf m n], of "fst (clock S)"])
  fix resp ps S'
  assume "svc_step pf (DoStore (fst (clock S)) (map (Inr \<circ> Some) (request_iterator h d m n))) S = Inr (StoreReply resp ps, S')"
  then show ?thesis by (simp add: agent_stub_def del: svc_step.simps)
qed (use assms(4) in \<open>simp_all add: has_room_def\<close>)

interpretation agent: cache_stub "agent_stub pf clock" "svc_inv pf" "\<lambda>S. kv_cached (kv_of pf S)" "\<lambda>S. kv_elsewhere (kv_of pf S)"
    "composite_key pf" has_room
  for pf clock
proof unfold_locales
  show "composite_key pf [] h = h" for h by (simp add: composite_key_def)
next
  fix S and req :: lookup_request and k
  assume *: "svc_inv pf S" "length (lq_prefix_hash req) = 16" "k = composite_key pf (lq_model_id req) (lq_prefix_hash req)"
  obtain bs V where "kv_lookup pf (kv_params_of S) req (kv_of pf S) =
      (LookupReply (kv_cached (kv_of pf S) k \<noteq> None \<or> kv_elsewhere (kv_of pf S) k) (kv_cached (kv_of pf S) k \<noteq> None) bs, V)"
      "kv_same (kv_of pf S) V"
    using kv_lookup_reply [OF svc_inv_kv_wf(1) [OF *(1)] *(2,3)] by blast
  with agent_reply [OF *(1), of V clock "RpcLookup req"]
  show "\<exists>bs S'. agent_stub pf clock (RpcLookup req) S =
        (LookupReply (kv_cached (kv_of pf S) k \<noteq> None \<or> kv_elsewhere (kv_of pf S) k) (kv_cached (kv_of pf S) k \<noteq> None) bs, S') \<and>
      svc_inv pf S' \<and> kv_cached (kv_of pf S') = kv_cached (kv_of pf S) \<and> kv_elsewhere (kv_of pf S') = kv_elsewhere (kv_of pf S)"
    by force
next
  fix S and req :: batch_lookup_request
  assume *: "svc_inv pf S" "\<forall>h \<in> set (bq_prefix_hashes req). length h = 16"
  obtain bs V where "kv_batch pf (kv_params_of S) (bq_model_id req) (bq_prefix_hashes req) (kv_of pf S) =
      (Inr (map (\<lambda>h. kv_cached (kv_of pf S) (composite_key pf (bq_model_id req) h) \<noteq> None) (bq_prefix_hashes req), bs), V)"
      "kv_same (kv_of pf S) V"
    using kv_batch_reply [OF svc_inv_kv_wf(1) [OF *(1)] *(2)] by blast
  with agent_reply [OF *(1), of V clock "RpcBatchLookup req"]
  show "\<exists>bs S'. agent_stub pf clock (RpcBatchLookup req) S =
        (BatchReply (map (\<lambda>h. kv_cached (kv_of pf S) (composite_key pf (bq_model_id req) h) \<noteq> None) (bq_prefix_hashes req)) bs, S') \<and>
      svc_inv pf S' \<and> kv_cached (kv_of pf S') = kv_cached (kv_of pf S) \<and> kv_elsewhere (kv_of pf S') = kv_elsewhere (kv_of pf S)"
    by force
next
  fix S and req :: get_request and k
  assume *: "svc_inv pf S" "length (gq_prefix_hash req) = 16" "k = composite_key pf (gq_model_id req) (gq_prefix_hash req)"
  obtain hd msg V where "kv_get pf (kv_params_of S) req (2 ^ 32) (kv_of pf S) =
      (case kv_cached (kv_of pf S) k of
         None \<Rightarrow> Refused (Status NotFound msg)
       | Some d \<Rightarrow> GetReply [Inr (GetHead hd), Inr (GetData d)], V)" "kv_same (kv_of pf S) V"
    using kv_get_reply [OF svc_inv_kv_wf(1) [OF *(1)] *(2,3)] by blast
  with agent_reply [OF *(1), of V clock "RpcGet req"]
  show "\<exists>hd msg big S'. agent_stub pf clock (RpcGet req) S =
        (case kv_cached (kv_of pf S) k of
           None \<Rightarrow> Refused (Status NotFound msg)
         | Some d \<Rightarrow> GetReply [Inr (GetHead hd), if deliverable d then Inr (GetData d) else Inl (Status ResourceExhausted big)], S') \<and>
      svc_inv pf S' \<and> kv_cached (kv_of pf S') = kv_cached (kv_of pf S) \<and> kv_elsewhere (kv_of pf S') = kv_elsewhere (kv_of pf S)"
    by (cases "kv_cached (kv_of pf S) k") (force simp: deliverable_iff [symmetric])+
qed (use agent_store agent_store_room in blast)+

section \<open>Properties\<close>

text \<open>C9: What a client stores, clients get, up to 4 MiB. Let the agent have room for a value of less than \<open>2 ^ 63\<close> bytes, and let the Python client
  store it under a 16-byte hash and any model, cut into chunks of one mebibyte. Then the store reports success. If the value has at most
  \<open>4 * 1024 * 1024 - 5\<close> bytes, an asynchronous client that asks with the same model gets exactly this value back, and so does a synchronous client if the model is empty, its
  get having no model. A larger value stays in the cache, but every such get raises \<open>RESOURCE_EXHAUSTED\<close>: the agent sends a block as one message, and the clients
  keep the default limit of their channels. Every other key keeps its value or has been evicted.\<close>

theorem client_roundtrip:
  assumes "svc_inv pf S" and "length h = 16" and "length d < 2 ^ 63" and "has_room S (length d)" and "ac_stub c"
  shows "\<exists>g S1. client_store (agent_stub pf clock) h d m n S = (Inr (True, g), S1) \<and>
    (length d \<le> 4 * 1024 * 1024 - 5 \<longrightarrow>
      (\<exists>S2. async_get c (agent_stub pf clock) h m S1 = (Inr (Some d), S2)) \<and>
      (m = [] \<longrightarrow> (\<exists>S2. client_get (agent_stub pf clock) h n src S1 = (Inr (Some d), S2)))) \<and>
    (4 * 1024 * 1024 - 5 < length d \<longrightarrow>
      (\<exists>t S2. async_get c (agent_stub pf clock) h m S1 = (Inl (RpcError (Status ResourceExhausted t)), S2)) \<and>
      (m = [] \<longrightarrow> (\<exists>t S2. client_get (agent_stub pf clock) h n src S1 = (Inl (RpcError (Status ResourceExhausted t)), S2)))) \<and>
    kv_cached (kv_of pf S1) (composite_key pf m h) = Some d \<and>
    (\<forall>k. k \<noteq> composite_key pf m h \<longrightarrow> kv_cached (kv_of pf S1) k = kv_cached (kv_of pf S) k \<or> kv_cached (kv_of pf S1) k = None)"
proof -
  obtain g S1 where st: "client_store (agent_stub pf clock) h d m n S = (Inr (True, g), S1)"
    using agent.client_store_room [OF assms(1-4)] by blast
  have S1: "svc_inv pf S1" "kv_cached (kv_of pf S1) (composite_key pf m h) = Some d"
      "\<forall>k. k \<noteq> composite_key pf m h \<longrightarrow> kv_cached (kv_of pf S1) k = kv_cached (kv_of pf S) k \<or> kv_cached (kv_of pf S1) k = None"
    using agent.client_store_ok [OF assms(1-3) st] by auto
  have size: "deliverable d \<longleftrightarrow> length d \<le> 4 * 1024 * 1024 - 5" by (simp add: deliverable_def MAX_RECEIVE_def)
  obtain t S2 where a: "async_get c (agent_stub pf clock) h m S1 =
      (if deliverable d then Inr (Some d) else Inl (RpcError (Status ResourceExhausted t)), S2)"
    by (rule agent.async_get_ok [OF S1(1) assms(2,5), of clock m]) (use S1(2) in simp)
  have c: "\<exists>t S2. client_get (agent_stub pf clock) h n src S1 =
      (if deliverable d then Inr (Some d) else Inl (RpcError (Status ResourceExhausted t)), S2)" if "m = []"
    by (rule agent.client_get_ok [OF S1(1) assms(2), of clock n src]) (use S1(2) that agent.key_raw in auto)
  show ?thesis
    by (rule exI [of _ g], rule exI [of _ S1]) (use st S1(2,3) a c size in \<open>auto simp: not_le\<close>)
qed

lemma demo_room: "has_room demo_service (Suc (Suc 0))"
  using demo_service_params used_blocks [OF demo_service_inv] by (simp add: has_room_def HEADER_SIZE_def PRESSURE_REJECT_def)

theorem client_roundtrip_witness:
  "\<exists>g S1 S2 S3. client_store (agent_stub demo_pf (\<lambda>S. (None, 0))) (replicate 16 1) [7, 8] [] 1 demo_service = (Inr (True, g), S1) \<and>
     async_get (async_connect async_new) (agent_stub demo_pf (\<lambda>S. (None, 0))) (replicate 16 1) [] S1 = (Inr (Some [7, 8]), S2) \<and>
     client_get (agent_stub demo_pf (\<lambda>S. (None, 0))) (replicate 16 1) 1 [] S1 = (Inr (Some [7, 8]), S3)"
proof -
  have c: "ac_stub (async_connect async_new)" by (simp add: async_connect_def async_new_def)
  have "length (replicate 16 1 :: bytes) = 16" "length [7, 8 :: u8] < 2 ^ 63" "has_room demo_service (length [7, 8 :: u8])"
    using demo_room by simp_all
  from client_roundtrip [OF demo_service_inv this c, of demo_pf "\<lambda>S. (None, 0)" "[]" 1 "[]"]
  obtain g S1 where s: "client_store (agent_stub demo_pf (\<lambda>S. (None, 0))) (replicate 16 1) [7, 8] [] 1 demo_service = (Inr (True, g), S1)"
    and g: "length [7, 8 :: u8] \<le> 4 * 1024 * 1024 - 5 \<longrightarrow>
      (\<exists>S2. async_get (async_connect async_new) (agent_stub demo_pf (\<lambda>S. (None, 0))) (replicate 16 1) [] S1 = (Inr (Some [7, 8]), S2)) \<and>
      ([] = ([] :: string) \<longrightarrow> (\<exists>S2. client_get (agent_stub demo_pf (\<lambda>S. (None, 0))) (replicate 16 1) 1 [] S1 = (Inr (Some [7, 8]), S2)))"
    by (elim exE conjE) (rule that)
  have "length [7, 8 :: u8] \<le> 4 * 1024 * 1024 - 5" by simp
  from mp [OF g this] s show ?thesis by blast
qed

end
