(* ===== verification/PyUrl.thy ===== *)
theory PyUrl
  imports PyClient
begin

text \<open>
  How the Python clients find the agent: \<open>from_url\<close> and \<open>__init__\<close> of
  \<^verbatim>\<open>python/cmx-client/src/cmx_client/client.py\<close>, and \<open>from_url\<close> of \<^verbatim>\<open>async_client.py\<close>, which computes the
  same target.

  Of \<open>urllib.parse\<close> the scheme, host name and port are modelled, for ASCII addresses. Its checks of the network location differ
  between versions of Python (bracketed hosts) and are a parameter \<open>netloc_ok\<close>. A channel is the target with the
  credentials that are handed to gRPC; whether the generated stubs can be imported is an argument.
\<close>

section \<open>Python strings\<close>

definition py_partition :: "char \<Rightarrow> string \<Rightarrow> string \<times> bool \<times> string" where
  "py_partition c s = (takeWhile (\<lambda>x. x \<noteq> c) s, c \<in> set s, tl (dropWhile (\<lambda>x. x \<noteq> c) s))"

definition after_last :: "char \<Rightarrow> string \<Rightarrow> string" where
  "after_last c s = rev (takeWhile (\<lambda>x. x \<noteq> c) (rev s))"

definition lower :: "string \<Rightarrow> string" where
  "lower = map (\<lambda>c. if 65 \<le> (of_char c :: nat) \<and> (of_char c :: nat) \<le> 90 then char_of ((of_char c :: nat) + 32) else c)"

definition ascii_alpha :: "char \<Rightarrow> bool" where
  "ascii_alpha c \<longleftrightarrow> (let n = (of_char c :: nat) in (65 \<le> n \<and> n \<le> 90) \<or> (97 \<le> n \<and> n \<le> 122))"

definition scheme_char :: "char \<Rightarrow> bool" where
  "scheme_char c \<longleftrightarrow> ascii_alpha c \<or> is_digit 10 c \<or> c \<in> {CHR ''+'', CHR ''-'', CHR ''.''}"

section \<open>urllib.parse\<close>

record parsed_url =
  pu_scheme :: string
  pu_netloc :: string

definition sanitize :: "string \<Rightarrow> string" where
  "sanitize url = filter (\<lambda>c. of_char c \<notin> {9, 10, 13 :: nat}) (dropWhile (\<lambda>c. (of_char c :: nat) \<le> 32) url)"

definition split_scheme :: "string \<Rightarrow> string \<times> string" where
  "split_scheme url =
     (case py_partition CHR '':'' url of (scheme, colon, rest) \<Rightarrow>
        if colon \<and> scheme \<noteq> [] \<and> ascii_alpha (hd scheme) \<and> list_all scheme_char scheme
        then (lower scheme, rest) else ([], url))"

definition netloc_of :: "string \<Rightarrow> string" where
  "netloc_of rest =
     (if take 2 rest = ''//'' then takeWhile (\<lambda>c. c \<notin> {CHR ''/'', CHR ''?'', CHR ''#''}) (drop 2 rest) else [])"

definition urlparse :: "(string \<Rightarrow> bool) \<Rightarrow> string \<Rightarrow> py_exn + parsed_url" where
  "urlparse netloc_ok url =
     (let (scheme, rest) = split_scheme (sanitize url); netloc = netloc_of rest in
      if (CHR ''['' \<in> set netloc) \<noteq> (CHR '']'' \<in> set netloc) \<or> \<not> netloc_ok netloc then Inl ValueError
      else Inr \<lparr>pu_scheme = scheme, pu_netloc = netloc\<rparr>)"

definition hostinfo :: "parsed_url \<Rightarrow> string \<times> string option" where
  "hostinfo u =
     (let info = after_last CHR ''@'' (pu_netloc u);
          (_, bracket, bracketed) = py_partition CHR ''['' info;
          (hostname, port) =
            (if bracket
             then (case py_partition CHR '']'' bracketed of (h, _, p) \<Rightarrow> (h, snd (snd (py_partition CHR '':'' p))))
             else (case py_partition CHR '':'' info of (h, _, p) \<Rightarrow> (h, p)))
      in (hostname, if port = [] then None else Some port))"

definition hostname :: "parsed_url \<Rightarrow> string option" where
  "hostname u =
     (case fst (hostinfo u) of
        [] \<Rightarrow> None
      | h \<Rightarrow> (case py_partition CHR ''%'' h of (name, percent, zone) \<Rightarrow> Some (lower name @ (if percent then ''%'' else []) @ zone)))"

definition port :: "parsed_url \<Rightarrow> py_exn + nat option" where
  "port u =
     (case snd (hostinfo u) of
        None \<Rightarrow> Inr None
      | Some p \<Rightarrow>
          if list_all (is_digit 10) p \<and> digits_value 10 p \<le> 65535 then Inr (Some (digits_value 10 p)) else Inl ValueError)"

section \<open>The constructors\<close>

text \<open>Port 0 is falsy, so it is replaced by the default as well.\<close>

definition from_url :: "(string \<Rightarrow> bool) \<Rightarrow> string \<Rightarrow> py_exn + string" where
  "from_url netloc_ok url =
     (case urlparse netloc_ok url of
        Inl x \<Rightarrow> Inl x
      | Inr parsed \<Rightarrow>
          if pu_scheme parsed \<noteq> ''cmx'' then Inl ValueError
          else let host = (case hostname parsed of None \<Rightarrow> ''localhost'' | Some h \<Rightarrow> h) in
               case port parsed of
                 Inl x \<Rightarrow> Inl x
               | Inr p \<Rightarrow> Inr (host @ '':'' @ str_dec (case p of None \<Rightarrow> 50051 | Some n \<Rightarrow> if n = 0 then 50051 else n)))"

datatype channel = InsecureChannel string | SecureChannel string "bytes option" bytes bytes

datatype client_error = BadUrl py_exn | OpenFailed string | StubsMissing

definition truthy :: "string option \<Rightarrow> bool" where
  "truthy arg \<longleftrightarrow> arg \<noteq> None \<and> arg \<noteq> Some []"

definition open_read :: "(string \<Rightarrow> bytes option) \<Rightarrow> string option \<Rightarrow> client_error + bytes" where
  "open_read fs arg = (case fs (the arg) of None \<Rightarrow> Inl (OpenFailed (the arg)) | Some content \<Rightarrow> Inr content)"

definition open_channel ::
    "(string \<Rightarrow> bytes option) \<Rightarrow> string \<Rightarrow> string option \<Rightarrow> string option \<Rightarrow> string option \<Rightarrow> client_error + channel" where
  "open_channel fs target tls_cert tls_key tls_ca =
     (if truthy tls_cert \<and> truthy tls_key then
        case open_read fs tls_cert of
          Inl x \<Rightarrow> Inl x
        | Inr cert \<Rightarrow>
        (case open_read fs tls_key of
          Inl x \<Rightarrow> Inl x
        | Inr key \<Rightarrow>
        if truthy tls_ca then map_sum id (\<lambda>ca. SecureChannel target (Some ca) key cert) (open_read fs tls_ca)
        else Inr (SecureChannel target None key cert))
      else Inr (InsecureChannel target))"

definition client_new ::
    "(string \<Rightarrow> bytes option) \<Rightarrow> bool \<Rightarrow> string \<Rightarrow> string option \<Rightarrow> string option \<Rightarrow> string option \<Rightarrow> client_error + channel" where
  "client_new fs stubs target tls_cert tls_key tls_ca =
     (case open_channel fs target tls_cert tls_key tls_ca of
        Inl x \<Rightarrow> Inl x
      | Inr ch \<Rightarrow> if stubs then Inr ch else Inl StubsMissing)"

definition client_from_url ::
    "(string \<Rightarrow> bool) \<Rightarrow> (string \<Rightarrow> bytes option) \<Rightarrow> bool \<Rightarrow> string \<Rightarrow> string option \<Rightarrow> string option \<Rightarrow> string option \<Rightarrow>
     client_error + channel" where
  "client_from_url netloc_ok fs stubs url tls_cert tls_key tls_ca =
     (case from_url netloc_ok url of
        Inl x \<Rightarrow> Inl (BadUrl x)
      | Inr target \<Rightarrow> client_new fs stubs target tls_cert tls_key tls_ca)"

section \<open>Lemmas\<close>

text \<open>Characters that mean nothing in an address and are not changed by \<open>lower\<close>.\<close>

definition plain :: "char \<Rightarrow> bool" where
  "plain c \<longleftrightarrow> 32 < (of_char c :: nat) \<and> \<not> (65 \<le> (of_char c :: nat) \<and> (of_char c :: nat) \<le> 90) \<and>
     c \<notin> {CHR ''/'', CHR ''?'', CHR ''#'', CHR ''@'', CHR '':'', CHR ''['', CHR '']'', CHR ''%''}"

lemma lower_plain: "list_all (\<lambda>c. plain c \<or> c = CHR '':'') s \<Longrightarrow> lower s = s"
  by (induction s) (auto simp: lower_def plain_def)

lemma digits_plain: "list_all plain (str_dec n)"
proof -
  have "plain c" if "is_digit 10 c" for c
    using that by (auto simp: is_digit_def digit_of_def plain_def Let_def split: if_splits)
  then show ?thesis using str_dec_digits [of n] by (auto simp: list_all_iff)
qed

lemma partition_none: "c \<notin> set s \<Longrightarrow> py_partition c s = (s, False, [])"
  by (induction s) (auto simp: py_partition_def)

lemma partition_at: "c \<notin> set s \<Longrightarrow> py_partition c (s @ c # t) = (s, True, t)"
  by (induction s) (auto simp: py_partition_def)

lemma after_last_none: "c \<notin> set s \<Longrightarrow> after_last c s = s"
proof -
  assume "c \<notin> set s"
  then have "takeWhile (\<lambda>x. x \<noteq> c) (rev s) = rev s" unfolding takeWhile_eq_all_conv by auto
  then show ?thesis unfolding after_last_def by (simp only: rev_rev_ident)
qed

text \<open>The part of an address after \<open>cmx://\<close>, if it has no further structure, is the network location.\<close>

lemma urlparse_cmx:
  assumes "list_all (\<lambda>c. plain c \<or> c \<in> {CHR '':'', CHR ''['', CHR '']''}) s" and "netloc_ok s"
    and "CHR ''['' \<in> set s \<longleftrightarrow> CHR '']'' \<in> set s"
  shows "urlparse netloc_ok (''cmx://'' @ s) = Inr \<lparr>pu_scheme = ''cmx'', pu_netloc = s\<rparr>"
proof -
  have c: "(32 :: nat) < of_char c \<and> c \<notin> {CHR ''/'', CHR ''?'', CHR ''#''}" if "c \<in> set s" for c
  proof -
    have "plain c \<or> c \<in> {CHR '':'', CHR ''['', CHR '']''}" using assms(1) that by (simp only: list_all_iff)
    then show ?thesis by (elim disjE) (simp_all only: plain_def insert_iff empty_iff, auto)
  qed
  have "filter (\<lambda>c. of_char c \<notin> {9, 10, 13 :: nat}) s = s" using c by (intro filter_True) fastforce
  then have "sanitize (''cmx://'' @ s) = ''cmx://'' @ s" by (simp add: sanitize_def)
  moreover have "split_scheme (''cmx://'' @ s) = (''cmx'', ''//'' @ s)"
    using partition_at [of "CHR '':''" "''cmx''" "''//'' @ s"]
    by (simp add: split_scheme_def ascii_alpha_def scheme_char_def lower_def)
  moreover have "takeWhile (\<lambda>c. c \<notin> {CHR ''/'', CHR ''?'', CHR ''#''}) s = s" using c unfolding takeWhile_eq_all_conv by blast
  then have "netloc_of (''//'' @ s) = s" by (simp add: netloc_of_def)
  ultimately show ?thesis using assms(2,3) by (simp add: urlparse_def)
qed

lemma plain_not_in:
  assumes "list_all plain s"
  shows "CHR '':'' \<notin> set s" "CHR ''@'' \<notin> set s" "CHR ''['' \<notin> set s" "CHR '']'' \<notin> set s" "CHR ''%'' \<notin> set s"
  using assms by (auto simp: list_all_iff plain_def)

lemma port_value:
  "snd (hostinfo u) = Some (str_dec n) \<Longrightarrow> n < 65536 \<Longrightarrow> port u = Inr (Some n)"
  using str_dec_digits [of n] by (simp add: port_def list_all_iff)

lemma from_url_plain:
  assumes "list_all plain host" and "host \<noteq> []" and "0 < n" and "n < 65536" and "netloc_ok (host @ '':'' @ str_dec n)"
  shows "from_url netloc_ok (''cmx://'' @ host @ '':'' @ str_dec n) = Inr (host @ '':'' @ str_dec n)"
proof -
  let ?u = "\<lparr>pu_scheme = ''cmx'', pu_netloc = host @ '':'' @ str_dec n\<rparr>"
  note h = plain_not_in [OF assms(1)] plain_not_in [OF digits_plain [of n]]
  have "urlparse netloc_ok (''cmx://'' @ host @ '':'' @ str_dec n) = Inr ?u"
    using assms(1,5) digits_plain [of n] h by (intro urlparse_cmx) (auto simp: list_all_iff)
  moreover have i: "hostinfo ?u = (host, Some (str_dec n))"
    using h partition_at [of "CHR '':''" host "str_dec n"] by (simp add: hostinfo_def after_last_none partition_none)
  moreover have "hostname ?u = Some host"
    using assms(1,2) i h(5) lower_plain [of host]
    by (cases host) (simp_all add: hostname_def partition_none list_all_iff del: set_simps)
  moreover have "port ?u = Inr (Some n)" using i assms(4) by (intro port_value) simp_all
  ultimately show ?thesis using assms(3) by (simp add: from_url_def)
qed

lemma from_url_default_port:
  assumes "list_all plain host" and "host \<noteq> []" and "netloc_ok host"
  shows "from_url netloc_ok (''cmx://'' @ host) = Inr (host @ '':'' @ str_dec 50051)"
proof -
  let ?u = "\<lparr>pu_scheme = ''cmx'', pu_netloc = host\<rparr>"
  note h = plain_not_in [OF assms(1)]
  have "urlparse netloc_ok (''cmx://'' @ host) = Inr ?u"
    using assms(1,3) h by (intro urlparse_cmx) (auto simp: list_all_iff)
  moreover have i: "hostinfo ?u = (host, None)" using h by (simp add: hostinfo_def after_last_none partition_none)
  moreover have "hostname ?u = Some host"
    using assms(1,2) i h(5) lower_plain [of host]
    by (cases host) (simp_all add: hostname_def partition_none list_all_iff del: set_simps)
  moreover have "port ?u = Inr None" using i by (simp add: port_def)
  ultimately show ?thesis by (simp add: from_url_def)
qed

lemma from_url_ipv6:
  assumes "list_all (\<lambda>c. plain c \<or> c = CHR '':'') a" and "a \<noteq> []" and "0 < n" and "n < 65536"
    and "netloc_ok (''['' @ a @ '']:'' @ str_dec n)"
  shows "from_url netloc_ok (''cmx://['' @ a @ '']:'' @ str_dec n) = Inr (a @ '':'' @ str_dec n)"
proof -
  let ?s = "''['' @ a @ '']:'' @ str_dec n"
  let ?u = "\<lparr>pu_scheme = ''cmx'', pu_netloc = ?s\<rparr>"
  have a: "CHR ''@'' \<notin> set a" "CHR ''['' \<notin> set a" "CHR '']'' \<notin> set a" "CHR ''%'' \<notin> set a"
    using assms(1) by (auto simp: list_all_iff plain_def)
  note h = a plain_not_in [OF digits_plain [of n]]
  have "urlparse netloc_ok (''cmx://'' @ ?s) = Inr ?u"
    using assms(1,5) digits_plain [of n] by (intro urlparse_cmx) (auto simp: list_all_iff)
  moreover have i: "hostinfo ?u = (a, Some (str_dec n))"
    using h partition_at [of "CHR ''[''" "[]" "a @ '']:'' @ str_dec n"] partition_at [of "CHR '']''" a "CHR '':'' # str_dec n"]
      partition_at [of "CHR '':''" "[]" "str_dec n"]
    by (simp add: hostinfo_def after_last_none)
  moreover have "hostname ?u = Some a"
    using assms(2) i h(4) lower_plain [OF assms(1)]
    by (cases a) (simp_all add: hostname_def partition_none del: set_simps)
  moreover have "port ?u = Inr (Some n)" using i assms(4) by (intro port_value) simp_all
  ultimately show ?thesis using assms(3) by (simp add: from_url_def)
qed

section \<open>Properties\<close>

text \<open>C25: Which agent a client talks to, and how. An address \<open>cmx://host:port\<close> with a host name in lower case and a port other
  than 0 gives exactly the target \<open>host:port\<close>, and without a port the default 50051. The brackets of an IPv6 address are lost: the
  target is the bare address, a colon and the port. If the channel can be opened it is encrypted exactly if both a certificate and a key of the client are
  given, and then uses the contents of these files and of the authority's, if one is named; otherwise, also if only one of them or only the
  authority to verify the server with is named, it is an unencrypted channel, and no file is opened.\<close>

theorem client_url_spec:
  assumes "list_all plain host" and "host \<noteq> []" and "list_all (\<lambda>c. plain c \<or> c = CHR '':'') a" and "a \<noteq> []"
    and "0 < n" and "n < 65536" and "netloc_ok (host @ '':'' @ str_dec n)" and "netloc_ok host"
    and "netloc_ok (''['' @ a @ '']:'' @ str_dec n)"
  shows "from_url netloc_ok (''cmx://'' @ host @ '':'' @ str_dec n) = Inr (host @ '':'' @ str_dec n) \<and>
    from_url netloc_ok (''cmx://'' @ host) = Inr (host @ '':'' @ str_dec 50051) \<and>
    from_url netloc_ok (''cmx://['' @ a @ '']:'' @ str_dec n) = Inr (a @ '':'' @ str_dec n) \<and>
    (\<not> (truthy cert \<and> truthy key) \<longrightarrow>
      client_from_url netloc_ok fs True (''cmx://'' @ host @ '':'' @ str_dec n) cert key tls_ca =
        Inr (InsecureChannel (host @ '':'' @ str_dec n))) \<and>
    (truthy cert \<and> truthy key \<longrightarrow>
      (\<forall>ch. client_from_url netloc_ok fs True (''cmx://'' @ host @ '':'' @ str_dec n) cert key tls_ca = Inr ch \<longleftrightarrow>
        (\<exists>ca k c. ch = SecureChannel (host @ '':'' @ str_dec n) ca k c \<and> fs (the cert) = Some c \<and> fs (the key) = Some k \<and>
          (if truthy tls_ca then ca \<noteq> None \<and> ca = fs (the tls_ca) else ca = None))))"
  using from_url_plain [where netloc_ok = netloc_ok, OF assms(1,2,5-7)] from_url_default_port [where netloc_ok = netloc_ok, OF assms(1,2,8)]
    from_url_ipv6 [where netloc_ok = netloc_ok, OF assms(3-6,9)]
  by (auto simp: client_from_url_def client_new_def open_channel_def open_read_def split: option.splits)

theorem client_url_spec_witness:
  "from_url (\<lambda>_. True) ''cmx://agent:7'' = Inr ''agent:7'' \<and> from_url (\<lambda>_. True) ''cmx://[::1]:7'' = Inr ''::1:7'' \<and>
   client_from_url (\<lambda>_. True) (\<lambda>_. None) True ''cmx://agent:7'' (Some ''c.pem'') None (Some ''ca.pem'') = Inr (InsecureChannel ''agent:7'')"
proof -
  have "list_all plain ''agent''" "list_all (\<lambda>c. plain c \<or> c = CHR '':'') ''::1''" by (simp_all add: plain_def)
  moreover have "str_dec 7 = ''7''" by code_simp
  ultimately show ?thesis
    using client_url_spec [of "''agent''" "''::1''" 7 "\<lambda>_. True" "Some ''c.pem''" None "\<lambda>_. None" "Some ''ca.pem''"]
    by (simp add: truthy_def)
qed

end
