(* ===== verification/PyConnectors.thy ===== *)
theory PyConnectors
  imports PyClient
begin

text \<open>
  The storage backends for inference engines: \<^verbatim>\<open>python/cmx-lmcache/src/cmx_lmcache/connector.py\<close> for LMCache and
  \<^verbatim>\<open>python/cmx-sglang/src/cmx_sglang/backend.py\<close> for SGLang. Both put a string key in front of the synchronous client.

  The protocol that LMCache expects of a backend is the locale \<open>storage_backend\<close>. Both backends keep it if
  they are created without a model, and break it with one.
\<close>

section \<open>LMCache\<close>

definition lm_contains :: "platform \<Rightarrow> 's stub \<Rightarrow> string \<Rightarrow> 's \<Rightarrow> (bool, 's) py" where
  "lm_contains pf stub key s =
     (let prefix_hash = hash_key pf key
      in case client_lookup stub prefix_hash 0 s of
           (Inl x, s1) \<Rightarrow> (Inl x, s1)
         | (Inr result, s1) \<Rightarrow> (Inr (rs_found result), s1))"

definition lm_put :: "platform \<Rightarrow> string \<Rightarrow> 's stub \<Rightarrow> string \<Rightarrow> bytes \<Rightarrow> 's \<Rightarrow> (unit, 's) py" where
  "lm_put pf model_id stub key kv_tensors s =
     (let prefix_hash = hash_key pf key
      in case client_store stub prefix_hash kv_tensors model_id 1 s of
           (Inl x, s1) \<Rightarrow> (Inl x, s1)
         | (Inr (success, _), s1) \<Rightarrow>
             (if \<not> success then Inl (RuntimeError (''Failed to store key: '' @ key)) else Inr (), s1))"

definition lm_get :: "platform \<Rightarrow> 's stub \<Rightarrow> string \<Rightarrow> 's \<Rightarrow> (bytes option, 's) py" where
  "lm_get pf stub key s =
     (let prefix_hash = hash_key pf key
      in case client_lookup stub prefix_hash 0 s of
           (Inl x, s1) \<Rightarrow> (Inl x, s1)
         | (Inr result, s1) \<Rightarrow>
             if \<not> rs_found result then (Inr None, s1) else client_get stub prefix_hash 0 [] s1)"

section \<open>SGLang\<close>

definition hi_exist :: "platform \<Rightarrow> 's stub \<Rightarrow> string \<Rightarrow> 's \<Rightarrow> (bool, 's) py" where
  "hi_exist pf stub key s =
     (let prefix_hash = hash_key pf key
      in case client_lookup stub prefix_hash 0 s of
           (Inl x, s1) \<Rightarrow> (Inl x, s1)
         | (Inr result, s1) \<Rightarrow> (Inr (rs_found result), s1))"

definition hi_get :: "platform \<Rightarrow> 's stub \<Rightarrow> string \<Rightarrow> 's \<Rightarrow> (bytes option, 's) py" where
  "hi_get pf stub key s =
     (let prefix_hash = hash_key pf key
      in case client_lookup stub prefix_hash 0 s of
           (Inl x, s1) \<Rightarrow> (Inl x, s1)
         | (Inr result, s1) \<Rightarrow>
             if \<not> rs_found result then (Inr None, s1) else client_get stub prefix_hash 0 [] s1)"

definition hi_set :: "platform \<Rightarrow> string \<Rightarrow> 's stub \<Rightarrow> string \<Rightarrow> bytes \<Rightarrow> 's \<Rightarrow> (unit, 's) py" where
  "hi_set pf model_id stub key value s =
     (let prefix_hash = hash_key pf key
      in case client_store stub prefix_hash value model_id 1 s of
           (Inl x, s1) \<Rightarrow> (Inl x, s1)
         | (Inr (success, _), s1) \<Rightarrow>
             (if \<not> success then Inl (RuntimeError (''Failed to store key: '' @ key)) else Inr (), s1))"

section \<open>The protocol of a backend\<close>

text \<open>After a put that does not raise, the key is there, and get returns the value if it can be delivered and
  raises otherwise; to ask does no harm.\<close>

locale storage_backend =
  fixes ok :: "'s \<Rightarrow> bool" and contains :: "string \<Rightarrow> 's \<Rightarrow> (bool, 's) py" and put :: "string \<Rightarrow> bytes \<Rightarrow> 's \<Rightarrow> (unit, 's) py"
    and get :: "string \<Rightarrow> 's \<Rightarrow> (bytes option, 's) py" and has :: "'s \<Rightarrow> string \<Rightarrow> bytes \<Rightarrow> bool"
  assumes put_law: "ok s \<Longrightarrow> length v < 2 ^ 63 \<Longrightarrow> put k v s = (Inr (), s') \<Longrightarrow> ok s' \<and> has s' k v"
    and contains_law: "ok s \<Longrightarrow> has s k v \<Longrightarrow> \<exists>s'. contains k s = (Inr True, s') \<and> ok s' \<and> (\<forall>k' v'. has s' k' v' = has s k' v')"
    and get_law: "ok s \<Longrightarrow> has s k v \<Longrightarrow> \<exists>t s'. get k s =
        (if deliverable v then Inr (Some v) else Inl (RpcError (Status ResourceExhausted t)), s') \<and>
      ok s' \<and> (\<forall>k' v'. has s' k' v' = has s k' v')"
begin

lemma put_contains_get:
  assumes "ok s" and "length v < 2 ^ 63" and "put k v s = (Inr (), s1)"
  shows "\<exists>s2 t s3. contains k s1 = (Inr True, s2) \<and>
    get k s2 = (if deliverable v then Inr (Some v) else Inl (RpcError (Status ResourceExhausted t)), s3)"
proof -
  have s1: "ok s1" "has s1 k v" using put_law [OF assms] by auto
  obtain s2 where "contains k s1 = (Inr True, s2)" "ok s2" "has s2 k v" using contains_law [OF s1] s1(2) by blast
  then show ?thesis using get_law by blast
qed

text \<open>Reading twice gives the same.\<close>

lemma get_again:
  assumes "ok s" and "has s k v" and "deliverable v"
  shows "\<exists>s1 s2. get k s = (Inr (Some v), s1) \<and> get k s1 = (Inr (Some v), s2)"
proof -
  obtain s1 where "get k s = (Inr (Some v), s1)" "ok s1" "has s1 k v" using get_law [OF assms(1,2)] assms(2,3) by auto
  then show ?thesis using get_law [of s1 k v] assms(3) by auto
qed

end

section \<open>Lemmas\<close>

text \<open>SHA-256 digests have 32 bytes.\<close>

definition sha_ok :: "platform \<Rightarrow> bool" where
  "sha_ok pf \<longleftrightarrow> (\<forall>bs. length (sha256_of pf bs) = 32)"

lemma length_hash_key [simp]: "sha_ok pf \<Longrightarrow> length (hash_key pf key) = 16"
  by (simp add: hash_key_def sha_ok_def)

lemma demo_sha_ok: "sha_ok demo_pf"
  by (simp add: sha_ok_def demo_pf_def demo_sha_def)

lemma hi_lm: "hi_exist = lm_contains" "hi_get = lm_get" "hi_set = lm_put"
  by (simp_all add: fun_eq_iff hi_exist_def lm_contains_def hi_get_def lm_get_def hi_set_def lm_put_def)

context cache_stub
begin

lemma contains_ok:
  assumes "sha_ok pf" and "ok s"
  obtains s' where "lm_contains pf stub k s = (Inr (content s (hash_key pf k) \<noteq> None \<or> remote s (hash_key pf k)), s')"
    and "ok s'" and "content s' = content s" and "remote s' = remote s"
proof -
  let ?h = "hash_key pf k"
  obtain bs s' where "client_lookup stub ?h 0 s =
      (Inr \<lparr>rs_found = content s ?h \<noteq> None \<or> remote s ?h, rs_blocks = bs, rs_is_local = content s ?h \<noteq> None\<rparr>, s')"
      "ok s'" "content s' = content s" "remote s' = remote s"
    using client_lookup_ok [OF assms(2) length_hash_key [OF assms(1)]] by metis
  then show ?thesis using that by (simp add: lm_contains_def)
qed

lemma get_ok:
  assumes "sha_ok pf" and "ok s"
  obtains msg big s' where "lm_get pf stub k s =
      (case content s (hash_key pf k) of
         Some d \<Rightarrow> if deliverable d then Inr (Some d) else Inl (RpcError (Status ResourceExhausted big))
       | None \<Rightarrow> if remote s (hash_key pf k) then Inl (RpcError (Status NotFound msg)) else Inr None, s')"
    and "ok s'" and "content s' = content s" and "remote s' = remote s"
proof -
  let ?h = "hash_key pf k"
  have h: "length ?h = 16" using assms(1) by simp
  obtain bs s1 where l: "client_lookup stub ?h 0 s =
      (Inr \<lparr>rs_found = content s ?h \<noteq> None \<or> remote s ?h, rs_blocks = bs, rs_is_local = content s ?h \<noteq> None\<rparr>, s1)"
      "ok s1" "content s1 = content s" "remote s1 = remote s"
    using client_lookup_ok [OF assms(2) h] by metis
  obtain msg big s2 where g: "client_get stub ?h 0 [] s1 =
      (case content s ?h of
         None \<Rightarrow> Inl (RpcError (Status NotFound msg))
       | Some d \<Rightarrow> if deliverable d then Inr (Some d) else Inl (RpcError (Status ResourceExhausted big)), s2)"
      "ok s2" "content s2 = content s" "remote s2 = remote s"
    by (rule client_get_ok [OF l(2) h, of 0 "[]"]) (use that l(3,4) in simp)
  show ?thesis
    using that [of msg big "if content s ?h \<noteq> None \<or> remote s ?h then s2 else s1"] l g
    by (cases "content s ?h") (auto simp: lm_get_def)
qed

lemma lm_put_ok:
  assumes "sha_ok pf" and "ok s" and "length v < 2 ^ 63" and "lm_put pf m stub k v s = (x, s')"
  shows "ok s' \<and> remote s' = remote s \<and>
    (x = Inr () \<and> content s' (key m (hash_key pf k)) = Some v \<and>
       (\<forall>q. q \<noteq> key m (hash_key pf k) \<longrightarrow> content s' q = content s q \<or> content s' q = None) \<or>
     (\<exists>st. x = Inl (RpcError st) \<and> content s' = content s))"
proof -
  obtain r s1 where r: "client_store stub (hash_key pf k) v m 1 s = (r, s1)" by force
  show ?thesis
    using client_store_ok [OF assms(2) length_hash_key [OF assms(1)] assms(3) r] assms(4) r by (auto simp: lm_put_def)
qed

lemma put_room:
  assumes "sha_ok pf" and "ok s" and "length v < 2 ^ 63" and "room s (length v)"
  shows "\<exists>s'. lm_put pf m stub k v s = (Inr (), s')"
  using client_store_room [OF assms(2) length_hash_key [OF assms(1)] assms(3,4), of k m 1] by (auto simp: lm_put_def)

end

text \<open>A backend without a model keeps the protocol.\<close>

definition backend_has :: "platform \<Rightarrow> cache_service \<Rightarrow> string \<Rightarrow> bytes \<Rightarrow> bool" where
  "backend_has pf S k v \<longleftrightarrow> kv_cached (kv_of pf S) (hash_key pf k) = Some v"

lemma lm_backend:
  "storage_backend (\<lambda>S. sha_ok pf \<and> svc_inv pf S) (lm_contains pf (agent_stub pf clock)) (lm_put pf [] (agent_stub pf clock))
     (lm_get pf (agent_stub pf clock)) (backend_has pf)"
proof
  fix S S' :: cache_service and k v
  assume S: "sha_ok pf \<and> svc_inv pf S"
  then have ok: "sha_ok pf" "svc_inv pf S" by simp_all
  show "(sha_ok pf \<and> svc_inv pf S') \<and> backend_has pf S' k v"
    if "length v < 2 ^ 63" "lm_put pf [] (agent_stub pf clock) k v S = (Inr (), S')"
    using agent.lm_put_ok [OF ok that] ok(1) by (auto simp: backend_has_def agent.key_raw)
  obtain S1 where c: "lm_contains pf (agent_stub pf clock) k S =
      (Inr (kv_cached (kv_of pf S) (hash_key pf k) \<noteq> None \<or> kv_elsewhere (kv_of pf S) (hash_key pf k)), S1)"
      "svc_inv pf S1" "kv_cached (kv_of pf S1) = kv_cached (kv_of pf S)"
    using agent.contains_ok [OF ok] by metis
  show "\<exists>S'. lm_contains pf (agent_stub pf clock) k S = (Inr True, S') \<and> (sha_ok pf \<and> svc_inv pf S') \<and>
      (\<forall>k' v'. backend_has pf S' k' v' = backend_has pf S k' v')" if "backend_has pf S k v"
    using c ok(1) that by (auto simp: backend_has_def)
  obtain msg big S2 where g: "lm_get pf (agent_stub pf clock) k S =
      (case kv_cached (kv_of pf S) (hash_key pf k) of
         Some d \<Rightarrow> if deliverable d then Inr (Some d) else Inl (RpcError (Status ResourceExhausted big))
       | None \<Rightarrow> if kv_elsewhere (kv_of pf S) (hash_key pf k) then Inl (RpcError (Status NotFound msg)) else Inr None, S2)"
      "svc_inv pf S2" "kv_cached (kv_of pf S2) = kv_cached (kv_of pf S)"
    by (rule agent.get_ok [OF ok, of clock k]) (rule that)
  show "\<exists>t S'. lm_get pf (agent_stub pf clock) k S =
        (if deliverable v then Inr (Some v) else Inl (RpcError (Status ResourceExhausted t)), S') \<and> (sha_ok pf \<and> svc_inv pf S') \<and>
      (\<forall>k' v'. backend_has pf S' k' v' = backend_has pf S k' v')" if "backend_has pf S k v"
    by (rule exI [of _ big], rule exI [of _ S2]) (use g ok(1) that in \<open>auto simp: backend_has_def\<close>)
qed

interpretation lm: storage_backend "\<lambda>S. sha_ok pf \<and> svc_inv pf S" "lm_contains pf (agent_stub pf clock)"
    "lm_put pf [] (agent_stub pf clock)" "lm_get pf (agent_stub pf clock)" "backend_has pf"
  for pf clock
  by (rule lm_backend)

interpretation hi: storage_backend "\<lambda>S. sha_ok pf \<and> svc_inv pf S" "hi_exist pf (agent_stub pf clock)"
    "hi_set pf [] (agent_stub pf clock)" "hi_get pf (agent_stub pf clock)" "backend_has pf"
  for pf clock
  unfolding hi_lm by (rule lm_backend)

section \<open>Properties\<close>

text \<open>C20: The storage backends work without a model, up to 4 MiB. Let the agent have room for a value. A put through the LMCache backend that was
  created without a model raises nothing; afterwards contains is true, and get returns the value if it has at most \<open>4 * 1024 * 1024 - 5\<close> bytes. For
  a larger value contains is true as well, but get raises \<open>RESOURCE_EXHAUSTED\<close>. The same
  holds of the SGLang backend, and the two can be mixed: what one puts, the other gets.\<close>

theorem backends_without_model:
  assumes "sha_ok pf" and "svc_inv pf S" and "length v < 2 ^ 63" and "has_room S (length v)"
  shows "\<exists>S1. lm_put pf [] (agent_stub pf clock) k v S = (Inr (), S1) \<and> hi_set pf [] (agent_stub pf clock) k v S = (Inr (), S1) \<and>
    (\<exists>S2 t S3. lm_contains pf (agent_stub pf clock) k S1 = (Inr True, S2) \<and> lm_get pf (agent_stub pf clock) k S2 =
      (if length v \<le> 4 * 1024 * 1024 - 5 then Inr (Some v) else Inl (RpcError (Status ResourceExhausted t)), S3)) \<and>
    (\<exists>S2 t S3. hi_exist pf (agent_stub pf clock) k S1 = (Inr True, S2) \<and> hi_get pf (agent_stub pf clock) k S2 =
      (if length v \<le> 4 * 1024 * 1024 - 5 then Inr (Some v) else Inl (RpcError (Status ResourceExhausted t)), S3))"
proof -
  have size: "deliverable v \<longleftrightarrow> length v \<le> 4 * 1024 * 1024 - 5" by (simp add: deliverable_def MAX_RECEIVE_def)
  obtain S1 where put: "lm_put pf [] (agent_stub pf clock) k v S = (Inr (), S1)" using agent.put_room [OF assms] by blast
  then have set: "hi_set pf [] (agent_stub pf clock) k v S = (Inr (), S1)" by (simp add: hi_lm)
  have ok: "sha_ok pf \<and> svc_inv pf S" using assms(1,2) by simp
  note get = lm.put_contains_get [OF ok assms(3) put, unfolded size] hi.put_contains_get [OF ok assms(3) set, unfolded size]
  show ?thesis by (rule exI [of _ S1]) (use put set get in blast)
qed

theorem backends_without_model_witness:
  "\<exists>S1 S2 S3. lm_put demo_pf [] (agent_stub demo_pf (\<lambda>S. (None, 0))) ''a'' [7, 8] demo_service = (Inr (), S1) \<and>
     hi_exist demo_pf (agent_stub demo_pf (\<lambda>S. (None, 0))) ''a'' S1 = (Inr True, S2) \<and>
     hi_get demo_pf (agent_stub demo_pf (\<lambda>S. (None, 0))) ''a'' S2 = (Inr (Some [7, 8]), S3)"
proof -
  have "length [7, 8 :: u8] < 2 ^ 63" "has_room demo_service (length [7, 8 :: u8])" using demo_room by simp_all
  from backends_without_model [OF demo_sha_ok demo_service_inv this, of "\<lambda>S. (None, 0)" "''a''"] show ?thesis by auto
qed

text \<open>C21: With a model, a backend loses what it stores. Create the LMCache or the SGLang backend with a model, as the documentation does,
  and put a value under a key for which nothing is cached or announced without a model. The put
  succeeds, but contains is false and get returns nothing: the value is stored under the key derived from model and hash, and looked up
  under the hash alone. This holds whenever the derived key differs from the hash.\<close>

theorem backend_model_lost:
  assumes "sha_ok pf" and "svc_inv pf S" and "length v < 2 ^ 63" and "has_room S (length v)"
    and "composite_key pf m (hash_key pf k) \<noteq> hash_key pf k"
    and "kv_cached (kv_of pf S) (hash_key pf k) = None" and "\<not> kv_elsewhere (kv_of pf S) (hash_key pf k)"
  shows "\<exists>S1. lm_put pf m (agent_stub pf clock) k v S = (Inr (), S1) \<and> hi_set pf m (agent_stub pf clock) k v S = (Inr (), S1) \<and>
    (\<exists>S2. lm_contains pf (agent_stub pf clock) k S1 = (Inr False, S2)) \<and> (\<exists>S2. lm_get pf (agent_stub pf clock) k S1 = (Inr None, S2)) \<and>
    (\<exists>S2. hi_exist pf (agent_stub pf clock) k S1 = (Inr False, S2)) \<and> (\<exists>S2. hi_get pf (agent_stub pf clock) k S1 = (Inr None, S2))"
proof -
  obtain S1 where put: "lm_put pf m (agent_stub pf clock) k v S = (Inr (), S1)" using agent.put_room [OF assms(1-4)] by blast
  have S1: "svc_inv pf S1" "\<not> kv_elsewhere (kv_of pf S1) (hash_key pf k)" "kv_cached (kv_of pf S1) (hash_key pf k) = None"
    using agent.lm_put_ok [OF assms(1-3) put] assms(5-7) by (auto, metis)
  have "\<exists>S2. lm_contains pf (agent_stub pf clock) k S1 = (Inr False, S2)"
    by (rule agent.contains_ok [OF assms(1) S1(1), of clock k]) (use S1(2,3) in simp)
  moreover have "\<exists>S2. lm_get pf (agent_stub pf clock) k S1 = (Inr None, S2)"
    by (rule agent.get_ok [OF assms(1) S1(1), of clock k]) (use S1(2,3) in simp)
  ultimately show ?thesis using put by (simp add: hi_lm)
qed

theorem backend_model_lost_witness:
  "\<exists>S1 S2. lm_put demo_pf ''m'' (agent_stub demo_pf (\<lambda>S. (None, 0))) ''a'' [7, 8] demo_service = (Inr (), S1) \<and>
     lm_get demo_pf (agent_stub demo_pf (\<lambda>S. (None, 0))) ''a'' S1 = (Inr None, S2)"
proof -
  have 1: "length [7, 8 :: u8] < 2 ^ 63" "has_room demo_service (length [7, 8 :: u8])" using demo_room by simp_all
  have 2: "composite_key demo_pf ''m'' (hash_key demo_pf ''a'') \<noteq> hash_key demo_pf ''a''" by code_simp
  have 3: "kv_cached (kv_of demo_pf demo_service) (hash_key demo_pf ''a'') = None" using demo_service_empty by (simp add: kv_cached_def)
  have 4: "\<not> kv_elsewhere (kv_of demo_pf demo_service) (hash_key demo_pf ''a'')"
    by (simp add: kv_elsewhere_def kv_of_def demo_service_def service_new_def demo_state_def)
  from backend_model_lost [OF demo_sha_ok demo_service_inv 1 2 3 4, of "\<lambda>S. (None, 0)"] show ?thesis by blast
qed

text \<open>C22: A key cached on another node breaks the backends. If a key is not cached by the agent but announced by another node,
  lookup reports it as found, so contains of LMCache and exist of SGLang are true; get then asks the agent for the data, which answers not found, and the
  synchronous client raises this as an exception, so both backends raise, although the client's documentation promises nothing found as the result.
  The asynchronous client returns nothing found.\<close>

theorem remote_hit_raises:
  assumes "sha_ok pf" and "svc_inv pf S" and "kv_cached (kv_of pf S) (hash_key pf k) = None"
    and "kv_elsewhere (kv_of pf S) (hash_key pf k)" and "ac_stub c"
  shows "(\<exists>S1. lm_contains pf (agent_stub pf clock) k S = (Inr True, S1)) \<and>
    (\<exists>msg S1. lm_get pf (agent_stub pf clock) k S = (Inl (RpcError (Status NotFound msg)), S1)) \<and>
    (\<exists>S1. hi_exist pf (agent_stub pf clock) k S = (Inr True, S1)) \<and>
    (\<exists>msg S1. hi_get pf (agent_stub pf clock) k S = (Inl (RpcError (Status NotFound msg)), S1)) \<and>
    (\<exists>S1. async_get c (agent_stub pf clock) (hash_key pf k) [] S = (Inr None, S1))"
proof -
  have "\<exists>S1. lm_contains pf (agent_stub pf clock) k S = (Inr True, S1)"
    by (rule agent.contains_ok [OF assms(1,2), of clock k]) (use assms(4) in simp)
  moreover have "\<exists>msg S1. lm_get pf (agent_stub pf clock) k S = (Inl (RpcError (Status NotFound msg)), S1)"
    by (rule agent.get_ok [OF assms(1,2), of clock k]) (use assms(3,4) in auto)
  moreover have "\<exists>S1. async_get c (agent_stub pf clock) (hash_key pf k) [] S = (Inr None, S1)"
    by (rule agent.async_get_ok [OF assms(2) length_hash_key [OF assms(1)] assms(5), of clock k "[]"])
      (use assms(3) in \<open>auto simp: agent.key_raw\<close>)
  ultimately show ?thesis unfolding hi_lm by blast
qed

definition demo_remote :: cache_service where
  "demo_remote = service_new 0 (demo_state\<lparr>as_remote_index :=
     Some (remote_insert (hash_key demo_pf ''a'') \<lparr>rb_node_id = ''n2'', rb_node_addr = [], rb_offset = 0, rb_size = 32, rb_generation = 1\<rparr> remote_new)\<rparr>)"

theorem remote_hit_raises_witness:
  "\<exists>S1 S2 msg. lm_contains demo_pf (agent_stub demo_pf (\<lambda>S. (None, 0))) ''a'' demo_remote = (Inr True, S1) \<and>
     hi_get demo_pf (agent_stub demo_pf (\<lambda>S. (None, 0))) ''a'' demo_remote = (Inl (RpcError (Status NotFound msg)), S2)"
proof -
  have inv: "svc_inv demo_pf demo_remote" and "kv_entries (kv_of demo_pf demo_remote) = []"
    using demo_service_inv [of demo_pf] demo_service_empty [of demo_pf]
    by (simp_all add: demo_remote_def demo_service_def service_new_def svc_inv_def kv_of_def svc_allocator_def svc_index_def)
  then have "kv_cached (kv_of demo_pf demo_remote) (hash_key demo_pf ''a'') = None" by (simp add: kv_cached_def)
  moreover have "kv_elsewhere (kv_of demo_pf demo_remote) (hash_key demo_pf ''a'')"
    by (simp add: kv_elsewhere_def kv_of_def demo_remote_def service_new_def remote_insert_def remote_lookup_def remote_new_def)
  moreover have "ac_stub (async_connect async_new)" by (simp add: async_connect_def async_new_def)
  ultimately show ?thesis using remote_hit_raises [OF demo_sha_ok inv] by blast
qed

end
