(* ===== verification/VllmConnector.thy ===== *)
theory VllmConnector
  imports PyConnectors
begin

text \<open>
  The connector for vLLM, \<^verbatim>\<open>python/cmx-vllm/src/cmx_vllm/connector.py\<close>.

  vLLM calls the methods of the connector; it is not part of the sources, so nothing is fixed about which
  hooks it calls when (\<open>engine_step\<close>), except that it asks to load at most as many tokens as the connector has
  offered. Loop and client are created and dropped together. The connector submits its calls to an event loop on a thread of its own: \<open>vc_queue\<close> has the calls that are
  submitted and have not run yet, and the loop may run any of them at any time. A wait with its timeout promises nothing about
  the queue. Objects of vLLM are reduced to what the connector reads of them: the token ids of a request, the block ids of an
  allocation, the bytes of a layer.
\<close>

section \<open>Data\<close>

record load_task =
  lt_prefix_hash :: hash16
  lt_block_ids :: "int list"
  lt_num_tokens :: int

record save_task =
  sv_prefix_hash :: hash16
  sv_block_ids :: "int list"
  sv_num_tokens :: int

record connector_meta =
  cm_loads :: "load_task list"
  cm_saves :: "save_task list"

datatype token_source = PromptTokenIds "int list" | GetTokenIds "int list" | DataPromptTokenIds "int list" | NoTokenIds

record vllm_request =
  vr_tokens :: token_source
  vr_load_tasks :: "load_task list option"

datatype allocated_blocks = BlockList "int list" | BlockIds "int list" | NoBlocks

datatype forward_context = WithAttribute "connector_meta option" | ContextDict "connector_meta option" | OtherContext

datatype kv_layer = CpuTensor bytes | RawBytes bytes | ByteIterable bytes

datatype pending_call = LoadCall hash16 | SaveCall hash16 bytes

record connector =
  vc_model_id :: string
  vc_block_size :: int
  vc_client :: "async_client option"
  vc_kv_caches :: "bytes list option"
  vc_pending_loads :: "hash16 list"
  vc_pending_saves :: "(hash16 \<times> bytes) list"
  vc_current_meta :: "connector_meta option"
  vc_queue :: "pending_call list"

definition connector_new :: "string \<Rightarrow> int \<Rightarrow> connector" where
  "connector_new model_id block_size =
     \<lparr>vc_model_id = model_id, vc_block_size = block_size, vc_client = None, vc_kv_caches = None, vc_pending_loads = [],
      vc_pending_saves = [], vc_current_meta = None, vc_queue = []\<rparr>"

definition ensure_loop :: "connector \<Rightarrow> connector" where
  "ensure_loop V =
     (case vc_client V of Some c \<Rightarrow> V | None \<Rightarrow> V\<lparr>vc_client := Some (async_connect async_new)\<rparr>)"

section \<open>Helpers\<close>

fun get_token_ids :: "token_source \<Rightarrow> int list" where
  "get_token_ids (PromptTokenIds ts) = ts"
| "get_token_ids (GetTokenIds ts) = ts"
| "get_token_ids (DataPromptTokenIds ts) = ts"
| "get_token_ids NoTokenIds = []"

fun extract_block_ids :: "allocated_blocks \<Rightarrow> int list" where
  "extract_block_ids (BlockList bs) = bs"
| "extract_block_ids (BlockIds bs) = bs"
| "extract_block_ids NoBlocks = []"

fun get_meta :: "forward_context \<Rightarrow> connector_meta option" where
  "get_meta (WithAttribute meta) = meta"
| "get_meta (ContextDict item) = item"
| "get_meta OtherContext = None"

fun layer_bytes :: "kv_layer \<Rightarrow> bytes" where
  "layer_bytes (CpuTensor d) = d"
| "layer_bytes (RawBytes d) = d"
| "layer_bytes (ByteIterable d) = d"

section \<open>Scheduler side\<close>

text \<open>The loop over \<open>found\<close>: hits from the start.\<close>

fun count_hits :: "bool list \<Rightarrow> int \<Rightarrow> int" where
  "count_hits [] matched = matched"
| "count_hits (h # found) matched = (if \<not> h then matched else count_hits found (matched + 1))"

definition get_num_new_matched_tokens ::
    "platform \<Rightarrow> 's stub \<Rightarrow> connector \<Rightarrow> vllm_request \<Rightarrow> int \<Rightarrow> 's \<Rightarrow> (py_exn + int) \<times> connector \<times> 's" where
  "get_num_new_matched_tokens pf stub V request num_computed_tokens s =
     (let token_ids = get_token_ids (vr_tokens request); unchecked = py_from num_computed_tokens token_ids in
      if token_ids = [] \<or> unchecked = [] then (Inr 0, V, s)
      else case hash_token_ids pf unchecked (vc_block_size V) of
        Inl x \<Rightarrow> (Inl x, V, s)
      | Inr [] \<Rightarrow> (Inr 0, V, s)
      | Inr prefix_hashes \<Rightarrow>
          let V1 = ensure_loop V in
          (case async_batch_lookup (the (vc_client V1)) stub prefix_hashes (vc_model_id V) s of
             (Inl x, s1) \<Rightarrow> (Inl x, V1, s1)
           | (Inr found, s1) \<Rightarrow> (Inr (count_hits found 0 * vc_block_size V), V1, s1)))"

definition load_task_of :: "int \<Rightarrow> int list \<Rightarrow> int \<Rightarrow> nat \<Rightarrow> hash16 \<Rightarrow> load_task" where
  "load_task_of block_size block_ids num_external_tokens i ph =
     \<lparr>lt_prefix_hash = ph,
      lt_block_ids = take (nat block_size) (drop (i * nat block_size) block_ids),
      lt_num_tokens = min block_size (num_external_tokens - int i * block_size)\<rparr>"

definition update_state_after_alloc ::
    "platform \<Rightarrow> connector \<Rightarrow> vllm_request \<Rightarrow> allocated_blocks \<Rightarrow> int \<Rightarrow> py_exn + vllm_request" where
  "update_state_after_alloc pf V request blocks num_external_tokens =
     (if num_external_tokens \<le> 0 then Inr request
      else case hash_token_ids pf (py_upto num_external_tokens (get_token_ids (vr_tokens request))) (vc_block_size V) of
        Inl x \<Rightarrow> Inl x
      | Inr prefix_hashes \<Rightarrow>
          let tasks = (case vr_load_tasks request of None \<Rightarrow> [] | Some ts \<Rightarrow> ts);
              block_ids = extract_block_ids blocks
          in Inr (request\<lparr>vr_load_tasks := Some (tasks @
               map (\<lambda>(i, ph). load_task_of (vc_block_size V) block_ids num_external_tokens i ph)
                 (enumerate 0 prefix_hashes))\<rparr>))"

text \<open>The two loops of \<open>build_connector_meta\<close>. Requests are objects of vLLM, here numbered, and the load tasks are taken away from
  the object: a request that is listed again has none left.\<close>

fun collect_loads :: "nat list \<Rightarrow> (nat \<Rightarrow> vllm_request) \<Rightarrow> load_task list \<times> (nat \<Rightarrow> vllm_request)" where
  "collect_loads [] reqs = ([], reqs)"
| "collect_loads (i # is) reqs =
     (case vr_load_tasks (reqs i) of
        None \<Rightarrow> collect_loads is reqs
      | Some tasks \<Rightarrow> apfst (\<lambda>loads. tasks @ loads) (collect_loads is (reqs(i := (reqs i)\<lparr>vr_load_tasks := None\<rparr>))))"

fun collect_saves :: "platform \<Rightarrow> int \<Rightarrow> vllm_request list \<Rightarrow> save_task list \<Rightarrow> py_exn + save_task list" where
  "collect_saves pf block_size [] saves = Inr saves"
| "collect_saves pf block_size (req # reqs) saves =
     (let token_ids = get_token_ids (vr_tokens req) in
      if token_ids = [] then collect_saves pf block_size reqs saves
      else case hash_token_ids pf token_ids block_size of
        Inl x \<Rightarrow> Inl x
      | Inr prefix_hashes \<Rightarrow>
          collect_saves pf block_size reqs
            (saves @ map (\<lambda>ph. \<lparr>sv_prefix_hash = ph, sv_block_ids = [], sv_num_tokens = block_size\<rparr>) prefix_hashes))"

text \<open>Each group may be missing in the scheduler's output.\<close>

definition build_connector_meta ::
    "platform \<Rightarrow> connector \<Rightarrow> nat list option \<Rightarrow> nat list option \<Rightarrow> (nat \<Rightarrow> vllm_request) \<Rightarrow>
     (py_exn + connector_meta option) \<times> (nat \<Rightarrow> vllm_request)" where
  "build_connector_meta pf V scheduled finished reqs =
     (let (loads, reqs1) = (case scheduled of None \<Rightarrow> ([], reqs) | Some is \<Rightarrow> collect_loads is reqs)
      in (case (case finished of None \<Rightarrow> Inr [] | Some is \<Rightarrow> collect_saves pf (vc_block_size V) (map reqs1 is) []) of
            Inl x \<Rightarrow> Inl x
          | Inr saves \<Rightarrow> Inr (if loads = [] \<and> saves = [] then None else Some \<lparr>cm_loads = loads, cm_saves = saves\<rparr>),
          reqs1))"

section \<open>Worker side\<close>

definition register_kv_caches :: "bytes list \<Rightarrow> connector \<Rightarrow> connector" where
  "register_kv_caches kv_caches V = V\<lparr>vc_kv_caches := Some kv_caches\<rparr>"

definition start_load_kv :: "forward_context \<Rightarrow> connector \<Rightarrow> connector" where
  "start_load_kv forward_context V =
     (case get_meta forward_context of
        None \<Rightarrow> V
      | Some m \<Rightarrow>
          if cm_loads m = [] then V
          else let V1 = ensure_loop (V\<lparr>vc_current_meta := Some m\<rparr>); hs = map lt_prefix_hash (cm_loads m)
               in V1\<lparr>vc_queue := vc_queue V1 @ map LoadCall hs,
                     vc_pending_loads := fold (\<lambda>h ks. if h \<in> set ks then ks else ks @ [h]) hs (vc_pending_loads V1)\<rparr>)"

definition wait_for_layer_load :: "connector \<Rightarrow> connector" where
  "wait_for_layer_load V = V\<lparr>vc_pending_loads := []\<rparr>"

definition save_kv_layer :: "kv_layer \<Rightarrow> connector \<Rightarrow> connector" where
  "save_kv_layer kv_layer V =
     (case vc_current_meta V of
        None \<Rightarrow> V
      | Some m \<Rightarrow>
          if cm_saves m = [] then V
          else let V1 = ensure_loop V; calls = map (\<lambda>t. (sv_prefix_hash t, layer_bytes kv_layer)) (cm_saves m)
               in V1\<lparr>vc_queue := vc_queue V1 @ map (\<lambda>(h, d). SaveCall h d) calls,
                     vc_pending_saves := vc_pending_saves V1 @ calls\<rparr>)"

definition wait_for_save :: "connector \<Rightarrow> connector" where
  "wait_for_save V = V\<lparr>vc_pending_saves := [], vc_current_meta := None\<rparr>"

definition connector_shutdown :: "connector \<Rightarrow> connector" where
  "connector_shutdown V = (case vc_client V of None \<Rightarrow> V | Some c \<Rightarrow> V\<lparr>vc_client := None, vc_queue := []\<rparr>)"

text \<open>One call on the event loop: \<open>_do_load\<close>, or \<open>store\<close> of the client. Nobody looks at the results.\<close>

fun run_call :: "'s stub \<Rightarrow> async_client \<Rightarrow> string \<Rightarrow> pending_call \<Rightarrow> 's \<Rightarrow> 's" where
  "run_call stub c model_id (LoadCall h) s = snd (async_get c stub h model_id s)"
| "run_call stub c model_id (SaveCall h d) s = snd (async_store c stub h d model_id 1 s)"

definition loop_run :: "'s stub \<Rightarrow> nat \<Rightarrow> connector \<Rightarrow> 's \<Rightarrow> connector \<times> 's" where
  "loop_run stub i V s =
     (case vc_client V of
        Some c \<Rightarrow>
          if i < length (vc_queue V)
          then (V\<lparr>vc_queue := take i (vc_queue V) @ drop (Suc i) (vc_queue V)\<rparr>,
                run_call stub c (vc_model_id V) (vc_queue V ! i) s)
          else (V, s)
      | None \<Rightarrow> (V, s))"

section \<open>The engine's view\<close>

text \<open>
  The requests of the engine by number, the metadata it has last built and hands to the workers in its forward context, and what the connector has last
  offered for each request.
\<close>

record engine =
  en_conn :: connector
  en_requests :: "nat \<Rightarrow> vllm_request"
  en_meta :: "connector_meta option"
  en_offered :: "nat \<Rightarrow> int"

datatype context_kind = AsAttribute | AsDictItem | Absent

fun context_of :: "context_kind \<Rightarrow> connector_meta option \<Rightarrow> forward_context" where
  "context_of AsAttribute meta = WithAttribute meta"
| "context_of AsDictItem meta = ContextDict meta"
| "context_of Absent meta = OtherContext"

datatype hook =
    NewRequest nat token_source
  | GetNumNewMatchedTokens nat int
  | UpdateStateAfterAlloc nat allocated_blocks int
  | BuildConnectorMeta "nat list option" "nat list option"
  | RegisterKvCaches "bytes list"
  | StartLoadKv context_kind
  | WaitForLayerLoad
  | SaveKvLayer kv_layer
  | WaitForSave
  | LoopRun nat
  | ShutdownConnector

fun run_hook :: "platform \<Rightarrow> 's stub \<Rightarrow> hook \<Rightarrow> engine \<times> 's \<Rightarrow> engine \<times> 's" where
  "run_hook pf stub (NewRequest i src) (E, s) =
     (E\<lparr>en_requests := (en_requests E)(i := \<lparr>vr_tokens = src, vr_load_tasks = None\<rparr>),
        en_offered := (en_offered E)(i := 0)\<rparr>, s)"
| "run_hook pf stub (GetNumNewMatchedTokens i n) (E, s) =
     (case get_num_new_matched_tokens pf stub (en_conn E) (en_requests E i) n s of
        (Inl x, V, s1) \<Rightarrow> (E\<lparr>en_conn := V\<rparr>, s1)
      | (Inr k, V, s1) \<Rightarrow> (E\<lparr>en_conn := V, en_offered := (en_offered E)(i := k)\<rparr>, s1))"
| "run_hook pf stub (UpdateStateAfterAlloc i blocks n) (E, s) =
     (case update_state_after_alloc pf (en_conn E) (en_requests E i) blocks n of
        Inl x \<Rightarrow> (E, s)
      | Inr r \<Rightarrow> (E\<lparr>en_requests := (en_requests E)(i := r)\<rparr>, s))"
| "run_hook pf stub (BuildConnectorMeta scheduled finished) (E, s) =
     (case build_connector_meta pf (en_conn E) scheduled finished (en_requests E) of
        (result, reqs) \<Rightarrow>
          (E\<lparr>en_requests := reqs, en_meta := (case result of Inl x \<Rightarrow> None | Inr m \<Rightarrow> m)\<rparr>, s))"
| "run_hook pf stub (RegisterKvCaches kvs) (E, s) = (E\<lparr>en_conn := register_kv_caches kvs (en_conn E)\<rparr>, s)"
| "run_hook pf stub (StartLoadKv kind) (E, s) = (E\<lparr>en_conn := start_load_kv (context_of kind (en_meta E)) (en_conn E)\<rparr>, s)"
| "run_hook pf stub WaitForLayerLoad (E, s) = (E\<lparr>en_conn := wait_for_layer_load (en_conn E)\<rparr>, s)"
| "run_hook pf stub (SaveKvLayer layer) (E, s) = (E\<lparr>en_conn := save_kv_layer layer (en_conn E)\<rparr>, s)"
| "run_hook pf stub WaitForSave (E, s) = (E\<lparr>en_conn := wait_for_save (en_conn E)\<rparr>, s)"
| "run_hook pf stub (LoopRun i) (E, s) =
     (case loop_run stub i (en_conn E) s of (V, s1) \<Rightarrow> (E\<lparr>en_conn := V\<rparr>, s1))"
| "run_hook pf stub ShutdownConnector (E, s) = (E\<lparr>en_conn := connector_shutdown (en_conn E)\<rparr>, s)"

text \<open>vLLM loads no more tokens than the connector has offered.\<close>

fun hook_allowed :: "hook \<Rightarrow> engine \<Rightarrow> bool" where
  "hook_allowed (UpdateStateAfterAlloc i blocks n) E \<longleftrightarrow> n \<le> en_offered E i"
| "hook_allowed h E \<longleftrightarrow> True"

inductive engine_step :: "platform \<Rightarrow> 's stub \<Rightarrow> engine \<times> 's \<Rightarrow> engine \<times> 's \<Rightarrow> bool" for pf stub where
  engine_step: "hook_allowed h E \<Longrightarrow> run_hook pf stub h (E, s) = c \<Longrightarrow> engine_step pf stub (E, s) c"

definition engine_new :: "string \<Rightarrow> int \<Rightarrow> engine" where
  "engine_new model_id block_size =
     \<lparr>en_conn = connector_new model_id block_size, en_requests = (\<lambda>_. \<lparr>vr_tokens = NoTokenIds, vr_load_tasks = None\<rparr>),
      en_meta = None, en_offered = (\<lambda>_. 0)\<rparr>"

section \<open>Lemmas\<close>

definition block_hash :: "platform \<Rightarrow> int list \<Rightarrow> hash16" where
  "block_hash pf block = take 16 (sha256_of pf (concat (map (\<lambda>t. le_encode 4 (word_of_int t :: 32 word)) block)))"

definition int32s :: "int list \<Rightarrow> bool" where
  "int32s ts \<longleftrightarrow> list_all (\<lambda>t. - (2 ^ 31) \<le> t \<and> t < 2 ^ 31) ts"

lemma hash_blocks_eq:
  "hash_blocks pf bs hs = (if list_all int32s bs then Inr (hs @ map (block_hash pf) bs) else Inl StructError)"
  by (induction bs arbitrary: hs) (simp_all add: pack_i32_def int32s_def block_hash_def)

lemma int32s_chunks:
  assumes "0 < c"
  shows "list_all int32s (py_chunks c ts) \<longleftrightarrow> int32s ts"
  using arg_cong [OF concat_chunks [OF assms, of ts], of set] by (auto simp: int32s_def list_all_iff)

lemma chunks_bounds:
  assumes "0 < c"
  shows "length (py_chunks c xs) * c < length xs + c" and "length xs \<le> length (py_chunks c xs) * c"
proof -
  let ?n = "length xs + c - 1"
  have "?n = ?n div c * c + ?n mod c" "?n mod c < c" using assms by simp_all
  then show "length (py_chunks c xs) * c < length xs + c" "length xs \<le> length (py_chunks c xs) * c"
    unfolding length_chunks [OF assms] using assms by linarith+
qed

text \<open>The hashes of a token sequence, one per block.\<close>

lemma hash_token_ids_eq:
  "0 < bs \<Longrightarrow> hash_token_ids pf ts bs =
     (if int32s ts then Inr (map (block_hash pf) (py_chunks (nat bs) ts)) else Inl StructError)"
  by (simp add: hash_token_ids_def hash_blocks_eq int32s_chunks)

lemma hash_token_ids_length:
  assumes "sha_ok pf" and "hash_token_ids pf ts bs = Inr hs"
  shows "\<forall>h \<in> set hs. length h = 16"
proof (cases "0 < bs")
  case True
  then show ?thesis using assms by (auto simp: hash_token_ids_eq block_hash_def sha_ok_def split: if_splits)
qed (use assms(2) in \<open>auto simp: hash_token_ids_def split: if_splits\<close>)

lemma count_hits_eq: "count_hits found n = n + int (length (takeWhile id found))"
  by (induction found n rule: count_hits.induct) auto

lemma ensure_loop_simps [simp]:
  "vc_model_id (ensure_loop V) = vc_model_id V" "vc_block_size (ensure_loop V) = vc_block_size V"
  "vc_current_meta (ensure_loop V) = vc_current_meta V" "vc_queue (ensure_loop V) = vc_queue V"
  by (simp_all add: ensure_loop_def split: option.split)

definition live_client :: "connector \<Rightarrow> bool" where
  "live_client V \<longleftrightarrow> (\<forall>c. vc_client V = Some c \<longrightarrow> ac_stub c)"

lemma ensure_loop_live: "live_client V \<Longrightarrow> live_client (ensure_loop V) \<and> ac_stub (the (vc_client (ensure_loop V)))"
  by (auto simp: live_client_def ensure_loop_def async_connect_def async_new_def split: option.splits)

text \<open>A connector that has nothing to load, and an agent with contents \<open>C\<close>.\<close>

definition dormant ::
    "('s \<Rightarrow> bool) \<Rightarrow> ('s \<Rightarrow> hash16 \<Rightarrow> bytes option) \<Rightarrow> string \<Rightarrow> (hash16 \<Rightarrow> bytes option) \<Rightarrow> engine \<times> 's \<Rightarrow> bool" where
  "dormant ok content m C c \<longleftrightarrow>
     (case c of (E, s) \<Rightarrow>
        ok s \<and> content s = C \<and> live_client (en_conn E) \<and> vc_model_id (en_conn E) = m \<and>
        vc_current_meta (en_conn E) = None \<and> vc_queue (en_conn E) = [] \<and>
        (\<forall>i. vr_load_tasks (en_requests E i) = None \<and> en_offered E i \<le> 0) \<and>
        (\<forall>M. en_meta E = Some M \<longrightarrow> cm_loads M = []))"

lemma collect_loads_none: "\<forall>i. vr_load_tasks (reqs i) = None \<Longrightarrow> collect_loads is reqs = ([], reqs)"
  by (induction "is") auto

context cache_stub
begin

lemma matched_hits:
  assumes "sha_ok pf" and "ok s" and "live_client V" and "py_from n (get_token_ids (vr_tokens request)) \<noteq> []"
    and "hash_token_ids pf (py_from n (get_token_ids (vr_tokens request))) (vc_block_size V) = Inr hs" and "hs \<noteq> []"
  obtains s' where "get_num_new_matched_tokens pf stub V request n s =
      (Inr (int (length (takeWhile (\<lambda>h. content s (key (vc_model_id V) h) \<noteq> None) hs)) * vc_block_size V), ensure_loop V, s')"
    and "ok s'" and "content s' = content s"
proof -
  let ?P = "\<lambda>h. content s (key (vc_model_id V) h) \<noteq> None"
  have "ac_stub (the (vc_client (ensure_loop V)))" using ensure_loop_live [OF assms(3)] by simp
  then obtain s1 where b: "async_batch_lookup (the (vc_client (ensure_loop V))) stub hs (vc_model_id V) s = (Inr (map ?P hs), s1)"
      "ok s1" "content s1 = content s"
    using async_batch_ok [OF assms(2) hash_token_ids_length [OF assms(1,5)]] by metis
  have "get_token_ids (vr_tokens request) \<noteq> []" using assms(4) by (auto simp: py_from_def)
  then have "get_num_new_matched_tokens pf stub V request n s = (Inr (count_hits (map ?P hs) 0 * vc_block_size V), ensure_loop V, s1)"
    using assms(4-6) b(1) by (cases hs) (simp_all add: get_num_new_matched_tokens_def Let_def)
  moreover have "count_hits (map ?P hs) 0 = int (length (takeWhile ?P hs))"
    unfolding count_hits_eq by (simp add: takeWhile_map comp_def)
  ultimately show ?thesis using that b(2,3) by simp
qed

lemma matched_ok:
  assumes "sha_ok pf" and "ok s" and "live_client V" and "get_num_new_matched_tokens pf stub V request n s = (r, V', s')"
  shows "ok s' \<and> content s' = content s \<and> live_client V' \<and> (V' = V \<or> V' = ensure_loop V) \<and>
    (\<forall>k. r = Inr k \<longrightarrow> k = 0 \<or> (\<exists>hs. k = int (length (takeWhile (\<lambda>h. content s (key (vc_model_id V) h) \<noteq> None) hs)) * vc_block_size V))"
proof -
  let ?ts = "get_token_ids (vr_tokens request)"
  show ?thesis
  proof (cases "\<exists>hs. py_from n ?ts \<noteq> [] \<and> hash_token_ids pf (py_from n ?ts) (vc_block_size V) = Inr hs \<and> hs \<noteq> []")
    case True
    then obtain hs where h: "py_from n ?ts \<noteq> []" "hash_token_ids pf (py_from n ?ts) (vc_block_size V) = Inr hs" "hs \<noteq> []"
      by blast
    show ?thesis
      by (rule matched_hits [OF assms(1-3) h]) (use assms(3,4) ensure_loop_live in auto)
  next
    case False
    then have "(r = Inr 0 \<or> (\<exists>x. r = Inl x)) \<and> V' = V \<and> s' = s"
      using assms(4) by (auto simp: get_num_new_matched_tokens_def Let_def split: if_splits sum.splits list.splits)
    then show ?thesis using assms(2,3) by auto
  qed
qed

lemma dormant_step:
  assumes "sha_ok pf" and "\<forall>h. C (key m h) = None" and "engine_step pf stub c c'" and "dormant ok content m C c"
  shows "dormant ok content m C c'"
  using assms(3,4)
proof (induction rule: engine_step.induct)
  case (engine_step h E s c)
  note d = engine_step.prems [unfolded dormant_def prod.case]
  show ?case
  proof (cases h)
    case (GetNumNewMatchedTokens i n)
    obtain r V s1 where r: "get_num_new_matched_tokens pf stub (en_conn E) (en_requests E i) n s = (r, V, s1)" by (metis prod_cases3)
    note m = matched_ok [OF assms(1) _ _ r]
    have V: "ok s1" "content s1 = C" "live_client V" "V = en_conn E \<or> V = ensure_loop (en_conn E)" using m d by auto
    moreover have "k = 0" if "r = Inr k" for k
      using m d that assms(2) by (auto simp: takeWhile_eq_Nil_iff)
    ultimately show ?thesis using GetNumNewMatchedTokens r d engine_step.hyps(2) by (cases r) (auto simp: dormant_def)
  next
    case (UpdateStateAfterAlloc i blocks n)
    then have "n \<le> 0" using engine_step.hyps(1) d by (auto intro: order_trans)
    then show ?thesis using UpdateStateAfterAlloc d engine_step.hyps(2) by (auto simp: dormant_def update_state_after_alloc_def)
  next
    case (BuildConnectorMeta scheduled finished)
    obtain res reqs where b: "build_connector_meta pf (en_conn E) scheduled finished (en_requests E) = (res, reqs)" by force
    have "\<forall>i. vr_load_tasks (en_requests E i) = None" using d by simp
    then have "reqs = en_requests E \<and> ((\<exists>x. res = Inl x) \<or> res = Inr None \<or> (\<exists>M. res = Inr (Some M) \<and> cm_loads M = []))"
      using b collect_loads_none [of "en_requests E"]
      by (auto simp: build_connector_meta_def Let_def split: option.splits sum.splits if_splits)
    then show ?thesis using BuildConnectorMeta d engine_step.hyps(2) b by (auto simp: dormant_def)
  next
    case (StartLoadKv kind)
    then have "get_meta (context_of kind (en_meta E)) = Some M \<Longrightarrow> cm_loads M = []" for M using d by (cases kind) auto
    then show ?thesis using StartLoadKv d engine_step.hyps(2) by (auto simp: dormant_def start_load_kv_def split: option.splits)
  qed (use d engine_step.hyps(2) in \<open>auto simp: dormant_def register_kv_caches_def start_load_kv_def wait_for_layer_load_def
      save_kv_layer_def wait_for_save_def loop_run_def connector_shutdown_def live_client_def split: option.splits\<close>)
qed

lemma dormant_steps:
  assumes "(engine_step pf stub)\<^sup>*\<^sup>* c c'" and "sha_ok pf" and "\<forall>h. C (key m h) = None" and "dormant ok content m C c"
  shows "dormant ok content m C c'"
  using assms(1,4) by (induction rule: rtranclp_induct) (auto intro: dormant_step [OF assms(2,3)])

end

section \<open>Properties\<close>

text \<open>C10: The vLLM connector never fills an empty cache. Start with an agent that has nothing cached for the connector's model, and let
  vLLM call the hooks of the connector in any order and any number of times, with any requests, layers and finished
  sequences, as long as it loads no more tokens than it was offered. Then the contents of the cache never change: not a single store
  is even submitted. Saving is tied to metadata that \<open>start_load_kv\<close> only records if there is something to load, and there is
  only something to load if something has been saved.\<close>

theorem vllm_never_populates:
  assumes "sha_ok pf" and "svc_inv pf S" and "\<forall>h. kv_cached (kv_of pf S) (composite_key pf m h) = None"
    and "(engine_step pf (agent_stub pf clock))\<^sup>*\<^sup>* (engine_new m bs, S) (E, S')"
  shows "kv_cached (kv_of pf S') = kv_cached (kv_of pf S) \<and> vc_queue (en_conn E) = []"
proof -
  have "dormant (svc_inv pf) (\<lambda>S. kv_cached (kv_of pf S)) m (kv_cached (kv_of pf S)) (engine_new m bs, S)"
    using assms(2) by (simp add: dormant_def engine_new_def connector_new_def live_client_def)
  from agent.dormant_steps [OF assms(4,1,3) this] show ?thesis by (simp add: dormant_def)
qed

lemma hooks_steps:
  assumes "\<forall>h \<in> set hs. \<forall>E. hook_allowed h E"
  shows "(engine_step pf stub)\<^sup>*\<^sup>* c (fold (run_hook pf stub) hs c)"
  using assms
proof (induction hs arbitrary: c)
  case (Cons h hs)
  then have "engine_step pf stub c (run_hook pf stub h c)" by (cases c) (auto intro: engine_step)
  moreover have "(engine_step pf stub)\<^sup>*\<^sup>* (run_hook pf stub h c) (fold (run_hook pf stub) hs (run_hook pf stub h c))"
    using Cons by simp
  ultimately show ?case by (simp add: converse_rtranclp_into_rtranclp)
qed simp

definition demo_hooks :: "hook list" where
  "demo_hooks = [NewRequest 0 (PromptTokenIds [1, 2]), BuildConnectorMeta None (Some [0]), StartLoadKv AsAttribute, SaveKvLayer (RawBytes [7]), WaitForSave]"

lemma demo_hooks_run:
  "\<exists>E. fold (run_hook demo_pf stub) demo_hooks (engine_new [] 16, s) = (E, s) \<and> map_option (length \<circ> cm_saves) (en_meta E) = Some 1"
  by (simp add: demo_hooks_def engine_new_def connector_new_def build_connector_meta_def hash_token_ids_eq int32s_def
      start_load_kv_def save_kv_layer_def wait_for_save_def chunks_step Let_def)

theorem vllm_never_populates_witness:
  "\<exists>E S'. (engine_step demo_pf (agent_stub demo_pf (\<lambda>S. (None, 0))))\<^sup>*\<^sup>* (engine_new [] 16, demo_service) (E, S') \<and>
     map_option (length \<circ> cm_saves) (en_meta E) = Some 1 \<and> kv_cached (kv_of demo_pf S') = kv_cached (kv_of demo_pf demo_service)"
proof -
  let ?stub = "agent_stub demo_pf (\<lambda>S. (None, 0))"
  obtain E where E: "fold (run_hook demo_pf ?stub) demo_hooks (engine_new [] 16, demo_service) = (E, demo_service)"
      "map_option (length \<circ> cm_saves) (en_meta E) = Some 1"
    using demo_hooks_run [of ?stub demo_service] by blast
  have "\<forall>h \<in> set demo_hooks. \<forall>E. hook_allowed h E" by (auto simp: demo_hooks_def)
  from hooks_steps [OF this, of demo_pf ?stub "(engine_new [] 16, demo_service)"]
  have run: "(engine_step demo_pf ?stub)\<^sup>*\<^sup>* (engine_new [] 16, demo_service) (E, demo_service)" unfolding E(1) .
  have "\<forall>h. kv_cached (kv_of demo_pf demo_service) (composite_key demo_pf [] h) = None"
    using demo_service_empty by (simp add: kv_cached_def)
  from vllm_never_populates [OF demo_sha_ok demo_service_inv this run] show ?thesis using run E(2) by blast
qed

text \<open>C23: What the connector offers to vLLM. Let all token ids fit 32 bits and the block size be positive. The number of tokens that
  the connector reports as cached beyond the tokens already computed is the block size times the
  number of leading blocks that the agent has cached under the model. The last block may be incomplete and still counts in full, so the
  number can exceed the tokens that are left: it is below their number plus the block size, and if
  all blocks are cached it is the number of tokens left, rounded up to a multiple of the block size.\<close>

theorem matched_tokens_spec:
  assumes "sha_ok pf" and "svc_inv pf S" and "0 < bs" and "int32s ts" and "0 \<le> n" and "n < int (length ts)"
  shows "\<exists>k V S'. get_num_new_matched_tokens pf (agent_stub pf clock) (connector_new m bs)
        \<lparr>vr_tokens = PromptTokenIds ts, vr_load_tasks = None\<rparr> n S = (Inr (k * bs), V, S') \<and>
    k = int (length (takeWhile (\<lambda>b. kv_cached (kv_of pf S) (composite_key pf m (block_hash pf b)) \<noteq> None)
          (py_chunks (nat bs) (drop (nat n) ts)))) \<and>
    k * bs < int (length ts) - n + bs \<and>
    ((\<forall>b \<in> set (py_chunks (nat bs) (drop (nat n) ts)). kv_cached (kv_of pf S) (composite_key pf m (block_hash pf b)) \<noteq> None) \<longrightarrow>
       int (length ts) - n \<le> k * bs)"
proof -
  let ?V = "connector_new m bs" and ?rq = "\<lparr>vr_tokens = PromptTokenIds ts, vr_load_tasks = None\<rparr>" and ?ts = "drop (nat n) ts"
  let ?P = "\<lambda>b. kv_cached (kv_of pf S) (composite_key pf m (block_hash pf b)) \<noteq> None"
  let ?hs = "map (block_hash pf) (py_chunks (nat bs) ?ts)" and ?k = "length (takeWhile ?P (py_chunks (nat bs) ?ts))"
  have from_n: "py_from n ts = ?ts" "?ts \<noteq> []" using assms(5,6) by (simp_all add: py_from_def py_index_def nat_less_iff)
  have "int32s ?ts" using assms(4) by (auto simp: int32s_def list_all_iff dest: in_set_dropD)
  then have hs: "hash_token_ids pf (py_from n ts) bs = Inr ?hs" "?hs \<noteq> []"
    using assms(3) from_n by (simp_all add: hash_token_ids_eq chunks_step)
  have eq: "length (takeWhile (\<lambda>h. kv_cached (kv_of pf S) (composite_key pf m h) \<noteq> None) ?hs) = ?k"
    by (simp add: takeWhile_map comp_def)
  obtain V S' where match: "get_num_new_matched_tokens pf (agent_stub pf clock) ?V ?rq n S = (Inr (int ?k * bs), V, S')"
    by (rule agent.matched_hits [OF assms(1,2), of ?V n ?rq ?hs clock])
      (use hs from_n eq in \<open>simp_all add: connector_new_def live_client_def\<close>)
  have len: "int (length ?ts) = int (length ts) - n" using assms(5,6) by simp
  have c: "0 < nat bs" "int (nat bs) = bs" using assms(3) by simp_all
  have "?k \<le> length (py_chunks (nat bs) ?ts)" by (rule length_takeWhile_le)
  then have "int (?k * nat bs) < int (length ?ts + nat bs)"
    using chunks_bounds(1) [OF c(1), of ?ts] mult_le_mono1 [of ?k "length (py_chunks (nat bs) ?ts)" "nat bs"] by linarith
  then have upper: "int ?k * bs < int (length ts) - n + bs" using len c(2) assms(5) by simp
  have "int (length ts) - n \<le> int ?k * bs" if "\<forall>b \<in> set (py_chunks (nat bs) ?ts). ?P b"
  proof -
    have "?k = length (py_chunks (nat bs) ?ts)" using that by (simp add: takeWhile_eq_all_conv [THEN iffD2])
    then have "length ?ts \<le> ?k * nat bs" using chunks_bounds(2) [OF c(1), of ?ts] by simp
    then have "int (length ?ts) \<le> int ?k * int (nat bs)" by (metis of_nat_le_iff of_nat_mult)
    then show ?thesis unfolding len c(2) .
  qed
  then show ?thesis using match upper by blast
qed

theorem matched_tokens_spec_witness:
  "\<exists>g S1 V S2. client_store (agent_stub demo_pf (\<lambda>S. (None, 0))) (block_hash demo_pf [1]) [7, 8] [] 1 demo_service = (Inr (True, g), S1) \<and>
     get_num_new_matched_tokens demo_pf (agent_stub demo_pf (\<lambda>S. (None, 0))) (connector_new [] 16)
       \<lparr>vr_tokens = PromptTokenIds [1], vr_load_tasks = None\<rparr> 0 S1 = (Inr 16, V, S2)"
proof -
  let ?stub = "agent_stub demo_pf (\<lambda>S. (None, 0))" and ?h = "block_hash demo_pf [1]"
  have h: "length ?h = 16" "length [7, 8 :: u8] < 2 ^ 63" "has_room demo_service (length [7, 8 :: u8])"
    using demo_sha_ok demo_room by (simp_all add: block_hash_def sha_ok_def)
  obtain g S1 where st: "client_store ?stub ?h [7, 8] [] 1 demo_service = (Inr (True, g), S1)"
    using agent.client_store_room [OF demo_service_inv h] by blast
  have S1: "svc_inv demo_pf S1" "kv_cached (kv_of demo_pf S1) ?h = Some [7, 8]"
    using agent.client_store_ok [OF demo_service_inv h(1,2) st] by (auto simp: agent.key_raw)
  have chunks: "py_chunks (nat 16) (drop (nat 0) [1 :: int]) = [[1]]" by (simp add: chunks_step)
  have "0 < (16 :: int)" "int32s [1]" "0 \<le> (0 :: int)" "0 < int (length [1 :: int])" by (simp_all add: int32s_def)
  from matched_tokens_spec [OF demo_sha_ok S1(1) this, of "\<lambda>S. (None, 0)" "[]"]
  show ?thesis using st S1(2) unfolding chunks by (auto simp: agent.key_raw)
qed

text \<open>C24: The hash of a block does not depend on what comes before it. Let the block size be positive and \<open>a\<close> fill a whole number of blocks.
  Then the hashes of \<open>a\<close> followed by \<open>b\<close> are those of \<open>a\<close> followed by those of \<open>b\<close>, so after two different prefixes of whole blocks the
  same tokens get the same keys. The code and its documentation call them prefix hashes, and the keys and values that a
  transformer computes for a block do depend on its prefix: a prompt is offered blocks that were computed after another prefix.\<close>

theorem hashes_ignore_prefix:
  assumes "0 < bs" and "bs dvd int (length a)" and "hash_token_ids pf a bs = Inr ha" and "hash_token_ids pf b bs = Inr hb"
  shows "hash_token_ids pf (a @ b) bs = Inr (ha @ hb)"
proof -
  have c: "0 < nat bs" using assms(1) by simp
  have "nat bs dvd length a" using assms(1,2) by (simp add: nat_dvd_iff)
  then obtain k where "length a = k * nat bs" by (auto simp: dvd_def mult.commute)
  from chunks_append [OF c this] show ?thesis
    using assms(1,3,4) by (auto simp: hash_token_ids_eq int32s_def split: if_splits)
qed

theorem hashes_ignore_prefix_witness:
  "\<exists>h1 h2 h3. hash_token_ids demo_pf [1, 2, 5, 6] 2 = Inr [h1, h3] \<and> hash_token_ids demo_pf [3, 4, 5, 6] 2 = Inr [h2, h3]"
proof -
  have one: "hash_token_ids demo_pf [x, y] 2 = Inr [block_hash demo_pf [x, y]]" if "int32s [x, y]" for x y
    using that by (simp add: hash_token_ids_eq chunks_step)
  have i: "int32s [1, 2]" "int32s [3, 4]" "int32s [5, 6]" by (simp_all add: int32s_def)
  show ?thesis
    using hashes_ignore_prefix [OF _ _ one [OF i(1)] one [OF i(3)]] hashes_ignore_prefix [OF _ _ one [OF i(2)] one [OF i(3)]] by simp
qed

end
