(* ===== verification/Spec2Isabelle.thy ===== *)
theory Spec2Isabelle
  imports MemoryPool BlockHeader BlockAllocator LruPolicy BlockIndex Placement RemoteIndex Config Pressure
    Metadata Transport HostMemory CacheService KvSpec ServiceCorrect ServiceProps GetStream AgentMain
    ServiceThreads ThreadSafety ThreadProps ThreadEquiv ThreadTheorems ThreadRaces
    PyClient PyUrl PyConnectors VllmConnector
begin

text \<open>
  A verification development for cmx-rdma, a per-node cache agent for key-value tensors of language
  models. All source paths are below \<^verbatim>\<open>src/\<close>.

  \<^bold>\<open>The program.\<close> The agent maps one memory region and cuts it into blocks (\<^verbatim>\<open>cmx-memory\<close>). A block store
  writes data with a checksummed header into free blocks and indexes them by a 16-byte key, with
  LRU bookkeeping (\<^verbatim>\<open>cmx-block-store\<close>). A gRPC service stores, finds, streams and deletes entries;
  a monitor watches the fill level; etcd carries node and block announcements between agents, which keep a remote
  index and a hash ring (\<^verbatim>\<open>cmx-agent\<close>). A transport layer with a connection pool is meant to move
  blocks between nodes (\<^verbatim>\<open>cmx-transport\<close>). Engines reach the agent through a Python client and connectors for LMCache,
  SGLang and vLLM (\<^verbatim>\<open>python\<close>).

  \<^bold>\<open>Theories and sources.\<close>
  \<^item> \<open>CmxPrelude\<close>: machine integers, faults, hash maps, B-tree maps, little-endian bytes, byte segments.
    \<open>RustStd\<close>: UTF-8 with replacement, trimming, socket addresses. \<open>F64\<close>: double-precision rounding.
  \<^item> \<open>MemoryPool\<close>: \<^verbatim>\<open>cmx-memory/src/pool.rs\<close>. State \<open>memory_pool\<close>, operations \<open>pool_new\<close>, \<open>allocate\<close>,
    \<open>deallocate\<close>, \<open>get_slice\<close>, \<open>get_slice_mut\<close>. Contract \<open>block_pool\<close>, interpretation \<open>mp\<close>.
  \<^item> \<open>HostMemory\<close>: \<^verbatim>\<open>cmx-memory/src/numa.rs\<close>, \<^verbatim>\<open>gpu.rs\<close>.
  \<^item> \<open>BlockHeader\<close>: \<^verbatim>\<open>cmx-block-store/src/block.rs\<close>. The record \<open>platform\<close> holds what third-party
    code computes: CRC-32, SHA-256, hexadecimal coding, struct padding, and whether overflow is checked.
  \<^item> \<open>BlockAllocator\<close>: \<^verbatim>\<open>cmx-block-store/src/allocator.rs\<close>. Contract \<open>verified_store\<close>, interpretation \<open>ba\<close>.
  \<^item> \<open>LruPolicy\<close>: \<^verbatim>\<open>cmx-block-store/src/eviction.rs\<close>, the doubly linked list in a slab. Interpretation \<open>lru\<close>.
  \<^item> \<open>BlockIndex\<close>: \<^verbatim>\<open>cmx-block-store/src/index.rs\<close>. Contract \<open>lru_cache\<close>, interpretation \<open>idx\<close>.
  \<^item> \<open>Placement\<close>, \<open>RemoteIndex\<close>, \<open>Config\<close>, \<open>Pressure\<close>, \<open>Metadata\<close>: the files of the same name in
    \<^verbatim>\<open>cmx-agent/src\<close>. Contracts \<open>placement\<close> and \<open>remote_catalog\<close>, interpretations \<open>ring\<close> and \<open>remote\<close>.
  \<^item> \<open>Transport\<close>: \<^verbatim>\<open>cmx-transport/src\<close> (traits, mock, nixl, pool). Contracts \<open>transport\<close> and its extension
    \<open>memory_transport\<close>, interpretations \<open>mock\<close> and \<open>nixl\<close>.
  \<^item> \<open>CacheService\<close>: \<^verbatim>\<open>cmx-agent/src/grpc.rs\<close>, \<^verbatim>\<open>state.rs\<close> and the messages of
    \<^verbatim>\<open>cmx-proto/proto/cmx.proto\<close>. One definition per handler, on the record \<open>cache_service\<close>.
  \<^item> \<open>KvSpec\<close>: what the service promises, as a map with LRU order and a count of used blocks.
    \<open>ServiceCorrect\<close>: invariant, abstraction and refinement. \<open>ServiceProps\<close>, \<open>GetStream\<close>: consequences.
  \<^item> \<open>ServiceThreads\<close>: the handlers again, as threads that interleave. A \<open>thread\<close> is a program point with its local
    variables, \<open>tstep\<close> does one operation on shared state, \<open>par_step\<close> lets any thread move. \<open>ThreadEquiv\<close> ties it to
    \<open>CacheService\<close>, \<open>ThreadSafety\<close> has the ownership invariant, \<open>ThreadProps\<close> reading and termination,
    \<open>ThreadTheorems\<close> and \<open>ThreadRaces\<close> what follows for clients, good and bad.
  \<^item> \<open>AgentMain\<close>: \<^verbatim>\<open>cmx-agent/src/main.rs\<close> and \<^verbatim>\<open>metrics.rs\<close>: logging set-up, start-up, connection limit, serving and shutdown;
    \<open>agent_main\<close> is the whole process.
  \<^item> \<open>PyClient\<close>: \<^verbatim>\<open>python/cmx-client\<close>, hashing and both clients. A call takes a gRPC stub as an argument, maps a state to a result or
    exception and a new state, and is used with the stub \<open>agent_stub\<close> made of the modelled service.
    The channel drops messages above gRPC's default limit of 4 MiB. Contract \<open>cache_stub\<close>, interpretation \<open>agent\<close>. \<open>PyUrl\<close>: addresses and channels.
  \<^item> \<open>PyConnectors\<close>: \<^verbatim>\<open>python/cmx-lmcache\<close> and \<^verbatim>\<open>python/cmx-sglang\<close>. Contract \<open>storage_backend\<close>, interpretations \<open>lm\<close> and \<open>hi\<close>.
    \<open>VllmConnector\<close>: \<^verbatim>\<open>python/cmx-vllm\<close>; \<open>engine_step\<close> lets vLLM call any hook.

  \<^bold>\<open>Conventions.\<close> A \<open>usize\<close> is a natural number, other integers are words and wrap. Panics and undefined
  behaviour are values of \<open>fault\<close> in the left of a sum, so a theorem that concludes \<open>Inr\<close>
  also says that nothing panics. gRPC statuses and other errors are ordinary values. Maps without
  order are finite maps. Third-party code (etcd client, JSON, TOML, SHA-256, CRC, mmap, system
  calls, the clock) is a parameter; what is assumed of it is a named definition such as \<open>hex_ok\<close>, \<open>sha_ok\<close>, \<open>codec_ok\<close> or
  \<open>etcd_ok\<close>, each shown to hold for a concrete function.

  \<^bold>\<open>What is shown.\<close>
  \<^item> Pool, header and allocator: owned blocks are disjoint and stable, exactly \<open>total_blocks\<close> can be owned, what is
    written is read back, only checksummed data is returned, generations do not repeat.
  \<^item> LRU list and index refine a bounded list of bindings; the eviction loop ends on every state.
  \<^item> Ring: it holds the virtual nodes of the members, the preferred node is the owner of the next position, and membership changes move only the keys they must.
    Remote index: refines a table. Metadata: publications round-trip, the watch tasks perform the announced operations.
  \<^item> Service: every interleaving of requests, monitor iterations and watch updates is a run of \<open>KvSpec\<close>, the only
    panic is a store that announces \<open>2 ^ 63\<close> bytes or more, a get returns what the last store has sent, also if other
    requests run before the streaming task reads the block.
  \<^item> Concurrency: under every interleaving of handlers nothing panics, no block is owned twice, what is
    indexed is intact and was stored under its key, the handlers neither deadlock nor run forever, and without
    deletes every get is atomic. A handler that runs alone computes what its atomic definition computes.
  \<^item> Agent: start-up succeeds exactly under the stated conditions and establishes the invariant of the service; whatever is sent to it, the
    process ends by a signal with all blocks accounted for and its lease revoked, unless it cannot bind, cannot install its signal handlers, or
    a client announces more memory than the system grants.
  \<^item> Clients: what a client stores, clients get if it fits one message of 4 MiB, and raise otherwise; the storage backends satisfy their contract without a model; the number of tokens offered to vLLM is
    characterised.
  \<^item> Defects that the proofs have shown, as theorems: orphaned blocks are never reclaimed, eviction is dead code in the
    shipped configuration, overwriting a key exhausts the pool, a deleted and reused block is streamed under the
    wrong key and even unverified, a delete and a store of one key leave an entry the LRU list does not know, a delete leaves the publication behind, the index of a block is truncated to 32 bits.
    Connectors with a model lose what they store, a key cached elsewhere raises, the vLLM connector never fills an empty cache and hashes
    blocks without their prefix, IPv6 addresses lose their brackets, values above 4 MiB can be stored and not read, a client can abort the agent by announcing a size, and
    a lease outlives a process that cannot bind.

  \<^bold>\<open>Bounds and termination.\<close> There is no fuel. Loops over data are structural; the eviction loop, the UTF-8 decoder, trimming and the
  address parser have termination proofs. The keep-alive and watch loops and the monitor consume a list of what they
  receive, so a finite prefix of their behaviour is modelled. Theorems about the service assume blocks of at least
  24 bytes with at most \<open>2 ^ 32 - 1\<close> bytes of data, at most \<open>2 ^ 32\<close> blocks and a region below \<open>2 ^ 64\<close> bytes
  (\<open>sizes_in_range\<close>); what goes wrong outside these ranges is stated separately.

  \<^bold>\<open>What is not modelled.\<close> The interleaving model is sequentially consistent and copies a block in one step, so weak memory and
  torn reads are outside. Connection pool, remote index and hash ring are used one operation at a time; in particular a watch event is handled as a whole, although
  \<open>select!\<close> can drop it while it waits for the lock of the ring. The service and its threads take every reservation below \<open>2 ^ 63\<close> bytes to succeed; that the
  reservation of an announced size may fail and abort the process is modelled in \<open>agent_main\<close> only, and other allocation failures nowhere. Counters of the metrics library and
  log lines have no effect and are left out. The tonic server, gRPC deadlines and TLS (which the agent never configures) belong to libraries: the server is the sequence of
  requests it dispatches, a deadline that expires is not modelled, and the message limit is applied to block data only. The crate roots have nothing to execute, the
  benchmarks only time the modelled operations, and deployment files are no program.
\<close>

end
